(* ===== verification/Prelude.thy ===== *)
theory Prelude
  imports Main "HOL-Library.Word"
begin

text \<open>
  Shared material of the development: the names of the machine integers, the
  result type of fallible code, byte-list encodings of numbers (little and big
  endian) with their round trips, the reading of masks and shifts on words as
  \<open>mod\<close> and \<open>div\<close> on natural numbers, and the collections of rewrite rules
  the component theories use.
\<close>

unbundle bit_operations_syntax

section \<open>Types and collections\<close>

type_synonym u8 = "8 word"
type_synonym u16 = "16 word"
type_synonym u32 = "32 word"
type_synonym u64 = "64 word"
type_synonym u128 = "128 word"
type_synonym bytes = "u8 list"

named_theorems word_nat \<open>reading word operations as operations on natural numbers\<close>
named_theorems encode_simps \<open>encodings of numbers as bytes\<close>

section \<open>Words as natural numbers\<close>

lemma word_nat_cast_unat [simp]: "word_of_nat (unat w) = (w :: 'a::len word)"
  by simp

lemma unat_and_mask_eq [word_nat]:
  "unat (w AND mask n) = unat (w :: 'a::len word) mod 2 ^ n"
  by (simp only: take_bit_eq_mask [symmetric] unsigned_take_bit_eq) (simp only: take_bit_eq_mod)

lemma unat_drop_bit_div [word_nat]:
  "unat (drop_bit n (w :: 'a::len word)) = unat w div 2 ^ n"
  by (simp only: unat_drop_bit_eq) (simp only: drop_bit_eq_div)

lemma unat_add_no_overflow:
  "unat a + unat b < 2 ^ LENGTH('a) \<Longrightarrow> unat (a + b :: 'a::len word) = unat a + unat b"
  by (simp add: unat_word_ariths)

lemma unat_mult_no_overflow:
  "unat a * unat b < 2 ^ LENGTH('a) \<Longrightarrow> unat (a * b :: 'a::len word) = unat a * unat b"
  by (simp add: unat_word_ariths)

lemma unat_sub_no_underflow:
  "unat b \<le> unat a \<Longrightarrow> unat (a - b :: 'a::len word) = unat a - unat b"
  by (simp add: unat_sub word_le_nat_alt)

lemma word_xor_eq_0_iff: "(a XOR b = 0) = (a = (b :: 'a::len word))"
proof
  assume "a XOR b = 0"
  then have "(a XOR b) XOR b = b" by simp
  then show "a = b" by (simp add: xor.assoc)
qed simp

section \<open>Numbers as bytes\<close>

text \<open>
  \<open>to_le n v\<close> is the \<open>n\<close>-byte little-endian encoding of \<open>v\<close>, as a store of an
  unsigned integer writes it on the little-endian hosts the program runs on;
  \<open>of_le\<close> reads it back. The big-endian pair is the mirror image.
\<close>

fun to_le :: "nat \<Rightarrow> nat \<Rightarrow> bytes" where
  "to_le 0 v = []"
| "to_le (Suc n) v = word_of_nat v # to_le n (v div 256)"

fun of_le :: "bytes \<Rightarrow> nat" where
  "of_le [] = 0"
| "of_le (b # bs) = unat b + 256 * of_le bs"

definition to_be :: "nat \<Rightarrow> nat \<Rightarrow> bytes" where
  "to_be n v = rev (to_le n v)"

definition of_be :: "bytes \<Rightarrow> nat" where
  "of_be bs = of_le (rev bs)"

lemma to_le_4: "to_le 4 v = [word_of_nat v, word_of_nat (v div 256), word_of_nat (v div 256 div 256),
    word_of_nat (v div 256 div 256 div 256)]"
proof -
  have four: "(4 :: nat) = Suc (Suc (Suc (Suc 0)))" by simp
  show ?thesis by (simp only: four to_le.simps)
qed

lemma length_to_le [simp]: "length (to_le n v) = n"
  by (induction n arbitrary: v) auto

lemma length_to_be [simp]: "length (to_be n v) = n"
  by (simp add: to_be_def)

lemma of_le_to_le [encode_simps]: "of_le (to_le n v) = v mod 256 ^ n"
  by (induction n arbitrary: v)
    (auto simp: unat_of_nat mod_mult2_eq)

lemma of_le_bound: "of_le bs < 256 ^ length bs"
proof (induction bs)
  case (Cons b bs)
  have "unat b < 256"
    using unsigned_less [of b] by simp
  with Cons show ?case by simp
qed simp

lemma to_le_of_le [encode_simps]: "to_le (length bs) (of_le bs) = bs"
proof (induction bs)
  case (Cons b bs)
  have b: "unat b < 256"
    using unsigned_less [of b] by simp
  have "(256 :: u8) = 0" by simp
  then have "(word_of_nat (unat b + 256 * of_le bs) :: u8) = b"
    by (simp only: of_nat_add of_nat_mult of_nat_numeral mult_zero_left add_0_right
        word_nat_cast_unat)
  moreover have "(unat b + 256 * of_le bs) div 256 = of_le bs"
    using b by simp
  ultimately show ?case using Cons by simp
qed simp

lemma to_le_of_le_length: "length bs = n \<Longrightarrow> to_le n (of_le bs) = bs"
  using to_le_of_le by blast

lemma of_be_to_be [encode_simps]: "of_be (to_be n v) = v mod 256 ^ n"
  by (simp add: of_be_def to_be_def of_le_to_le)

lemma to_be_of_be [encode_simps]: "to_be (length bs) (of_be bs) = bs"
  using to_le_of_le [of "rev bs"] by (simp add: to_be_def of_be_def)

lemma of_be_bound: "of_be bs < 256 ^ length bs"
  using of_le_bound [of "rev bs"] by (simp add: of_be_def)

lemma of_le_append: "of_le (xs @ ys) = of_le xs + 256 ^ length xs * of_le ys"
  by (induction xs) (auto simp: algebra_simps)

lemma of_be_append: "of_be (xs @ ys) = of_be xs * 256 ^ length ys + of_be ys"
  by (simp add: of_be_def of_le_append)

lemma of_be_Nil [simp]: "of_be [] = 0"
  by (simp add: of_be_def)

lemma of_be_snoc: "of_be (xs @ [b]) = of_be xs * 256 + unat b"
  by (simp add: of_be_append) (simp add: of_be_def)

section \<open>Words assembled from bytes\<close>

text \<open>The idiom \<open>x = (x << 8) | byte\<close> over a list of bytes.\<close>

lemma fold_shift_or_le:
  "fold (\<lambda>b x. push_bit 8 x OR ucast b) (rev bs) (0 :: u64) = word_of_nat (of_le bs)"
proof (induction bs)
  case (Cons b bs)
  have "push_bit 8 w OR ucast b = push_bit 8 w + (ucast b :: u64)" for w :: u64
    by (rule disjunctive_add [symmetric])
      (auto simp: bit_simps dest: bit_imp_le_length)
  then show ?case
    using Cons by (simp add: push_bit_eq_mult)
qed simp

lemma fold_shift_or_be:
  "fold (\<lambda>b x. push_bit 8 x OR ucast b) bs (0 :: u64) = word_of_nat (of_be bs)"
  using fold_shift_or_le [of "rev bs"] by (simp add: of_be_def)

lemma to_le_8: "to_le 8 v = map (\<lambda>k. word_of_nat (v div 2 ^ k)) [0, 8, 16, 24, 32, 40, 48, 56]"
proof -
  have eight: "(8 :: nat) = Suc (Suc (Suc (Suc (Suc (Suc (Suc (Suc 0)))))))" by simp
  have "to_le 8 v = [word_of_nat v, word_of_nat (v div 256), word_of_nat (v div 256 div 256),
      word_of_nat (v div 256 div 256 div 256), word_of_nat (v div 256 div 256 div 256 div 256),
      word_of_nat (v div 256 div 256 div 256 div 256 div 256),
      word_of_nat (v div 256 div 256 div 256 div 256 div 256 div 256),
      word_of_nat (v div 256 div 256 div 256 div 256 div 256 div 256 div 256)]"
    by (simp only: eight to_le.simps)
  then show ?thesis by (simp add: div_mult2_eq [symmetric])
qed

section \<open>Comparing digit by digit\<close>

lemma digit_less:
  "\<lbrakk>a < B; a' < B\<rbrakk> \<Longrightarrow> (a + x * B < a' + x' * B) = (if x = x' then a < a' else x < x')"
  for a a' x x' B :: nat
proof -
  assume ab: "a < B" "a' < B"
  consider "x = x'" | "x < x'" | "x' < x" by linarith
  then show ?thesis
  proof cases
    case 2
    then have "Suc x * B \<le> x' * B" by (intro mult_le_mono1) simp
    with ab 2 show ?thesis by simp
  next
    case 3
    then have "Suc x' * B \<le> x * B" by (intro mult_le_mono1) simp
    with ab 3 show ?thesis by simp
  qed simp
qed

lemma digit_eq: "\<lbrakk>a < B; a' < B\<rbrakk> \<Longrightarrow> (a + x * B = a' + x' * B) = (a = a' \<and> x = x')"
  for a a' x x' B :: nat
  by (metis add.commute digit_less less_irrefl linorder_neqE_nat)

section \<open>Lists\<close>

lemma take_append_exact: "length xs = n \<Longrightarrow> take n (xs @ ys) = xs"
  by simp

lemma drop_append_exact: "length xs = n \<Longrightarrow> drop n (xs @ ys) = ys"
  by simp

section \<open>Results with errors\<close>

text \<open>Sequencing of computations that may throw: the error is the left summand.\<close>

definition sbind :: "'x + 'r \<Rightarrow> ('r \<Rightarrow> 'x + 's) \<Rightarrow> 'x + 's" where
  "sbind r k = case_sum Inl k r"

lemma sbind_simps [simp]: "sbind (Inl e) k = Inl e" "sbind (Inr v) k = k v"
  unfolding sbind_def by (fact sum.case)+

lemma sbind_eq_Inr: "(sbind r k = Inr w) = (\<exists>v. k v = Inr w \<and> r = Inr v)"
  by (cases r) auto

lemma sbind_eq_Inl: "(sbind r k = Inl e) = ((\<exists>v. k v = Inl e \<and> r = Inr v) \<or> r = Inl e)"
  by (cases r) auto

lemma sbind_split:
  "Q (sbind r k) = ((\<forall>v. r = Inr v \<longrightarrow> Q (k v)) \<and> (\<forall>e. r = Inl e \<longrightarrow> Q (Inl e)))"
  by (cases r) auto

definition map_err :: "('e \<Rightarrow> 'f) \<Rightarrow> 'e + 'a \<Rightarrow> 'f + 'a" where
  "map_err f = map_sum f id"

lemma map_err_simps [simp]: "map_err f (Inl e) = Inl (f e)" "map_err f (Inr x) = Inr x"
  by (simp_all add: map_err_def)

lemma map_err_eq_Inr [simp]: "(map_err f m = Inr x) = (m = Inr x)"
  by (cases m) auto

section \<open>Disjoint bits\<close>

lemma or_push_nat: "x < 2 ^ k \<Longrightarrow> push_bit k y OR x = y * 2 ^ k + (x :: nat)"
proof -
  assume x: "x < 2 ^ k"
  have "push_bit k y AND x = push_bit k y AND take_bit k x" using x by (simp add: take_bit_nat_eq_self)
  also have "\<dots> = 0" by (rule bit_eqI) (auto simp: bit_simps)
  finally show ?thesis by (simp add: disjunctive_add_eq_or [symmetric] push_bit_eq_mult)
qed

lemma unat_or_push [word_nat]:
  fixes x y :: "'a::len word"
  assumes "unat x < 2 ^ k" "unat y * 2 ^ k < 2 ^ LENGTH('a)"
  shows "unat (push_bit k y OR x) = unat y * 2 ^ k + unat x" "unat (x OR push_bit k y) = unat x + unat y * 2 ^ k"
proof -
  have "unat (push_bit k y) = push_bit k (unat y)"
    using assms(2) by (simp only: unsigned_push_bit_eq) (simp add: push_bit_eq_mult take_bit_nat_eq_self)
  then show "unat (push_bit k y OR x) = unat y * 2 ^ k + unat x"
    using or_push_nat [OF assms(1), of "unat y"] by (simp only: unsigned_or_eq)
  then show "unat (x OR push_bit k y) = unat x + unat y * 2 ^ k" by (simp only: or.commute add.commute)
qed

end
