(* ===== verification/Stream_Codec.thy ===== *)
theory Stream_Codec
  imports Prelude
begin

text \<open>
  The serialization layer of salticidae (\<open>include/salticidae/stream.h\<close>): the
  byte buffer \<open>DataStream\<close> with its read offset, the 256-bit identifiers
  \<open>uint256_t = Blob<256, uint64_t>\<close> and the bit vectors \<open>Bits\<close> that quorum
  certificates use for their signer sets. Integers are stored in host order, which
  is little endian on the supported platforms (\<open>htole\<close> is the identity there).
\<close>

section \<open>DataStream\<close>

record datastream =
  buffer :: bytes
  offset :: nat

datatype stream_error =
    InsufficientBuffer   \<comment> \<open>\<open>std::ios_base::failure("insufficient buffer")\<close>\<close>
  | IncorrectBlobSize    \<comment> \<open>\<open>std::invalid_argument("incorrect Blob size")\<close>\<close>

definition ds_new :: datastream where
  "ds_new = \<lparr>buffer = [], offset = 0\<rparr>"

definition ds_of_bytes :: "bytes \<Rightarrow> datastream" where
  "ds_of_bytes bs = \<lparr>buffer = bs, offset = 0\<rparr>"

definition ds_clear :: "datastream \<Rightarrow> datastream" where
  "ds_clear s = s\<lparr>buffer := [], offset := 0\<rparr>"

text \<open>\<open>buffer.size() - offset\<close> on \<open>size_t\<close>: wraps around when the offset passed the end.\<close>

definition ds_size :: "datastream \<Rightarrow> u64" where
  "ds_size s = word_of_nat (length (buffer s)) - word_of_nat (offset s)"

definition ds_put_data :: "bytes \<Rightarrow> datastream \<Rightarrow> datastream" where
  "ds_put_data d s = s\<lparr>buffer := buffer s @ d\<rparr>"

definition ds_put :: "'a::len word \<Rightarrow> datastream \<Rightarrow> datastream" where
  "ds_put d s = ds_put_data (to_le (LENGTH('a) div 8) (unat d)) s"

definition ds_get :: "datastream \<Rightarrow> stream_error + ('a::len word \<times> datastream)" where
  "ds_get s =
     (let n = LENGTH('a) div 8 in
      if offset s + n > length (buffer s) then Inl InsufficientBuffer
      else Inr (word_of_nat (of_le (take n (drop (offset s) (buffer s)))),
                s\<lparr>offset := offset s + n\<rparr>))"

text \<open>
  \<open>get_data_inplace\<close> moves the offset before it checks the bound, so the stream is
  changed on the failing path too; the model returns the new stream next to the result.
\<close>

definition ds_get_data_inplace :: "nat \<Rightarrow> datastream \<Rightarrow> (stream_error + bytes) \<times> datastream" where
  "ds_get_data_inplace len s =
     (let s' = s\<lparr>offset := offset s + len\<rparr> in
      (if offset s' > length (buffer s') then Inl InsufficientBuffer
       else Inr (take len (drop (offset s) (buffer s))), s'))"

text \<open>The conversion \<open>operator bytearray_t () const &\<close>: the bytes not read yet.\<close>

definition ds_rest :: "datastream \<Rightarrow> bytes" where
  "ds_rest s = drop (offset s) (buffer s)"

definition hex_digit :: "nat \<Rightarrow> char" where
  "hex_digit n = ''0123456789abcdef'' ! n"

definition ds_get_hex :: "datastream \<Rightarrow> string" where
  "ds_get_hex s =
     concat (map (\<lambda>b. [hex_digit (unat b div 16), hex_digit (unat b mod 16)]) (ds_rest s))"

text \<open>
  \<open>get_hash\<close> is SHA-256 of OpenSSL over the bytes not read yet: a parameter.
\<close>

definition ds_get_hash :: "(bytes \<Rightarrow> 256 word) \<Rightarrow> datastream \<Rightarrow> 256 word" where
  "ds_get_hash sha256 s = sha256 (ds_rest s)"

text \<open>Getters for sequences of objects: the loops \<open>for (auto &x: xs) s >> x\<close>.\<close>

fun ds_get_many ::
  "(datastream \<Rightarrow> 'e + ('a \<times> datastream)) \<Rightarrow> nat \<Rightarrow> datastream \<Rightarrow> 'e + ('a list \<times> datastream)" where
  "ds_get_many g 0 s = Inr ([], s)"
| "ds_get_many g (Suc n) s =
     (case g s of Inl e \<Rightarrow> Inl e
      | Inr (x, s1) \<Rightarrow>
          (case ds_get_many g n s1 of Inl e \<Rightarrow> Inl e
           | Inr (xs, s2) \<Rightarrow> Inr (x # xs, s2)))"

section \<open>Blob: 256-bit identifiers\<close>

record blob =
  bdata :: "u64 list"
  loaded :: bool

definition blob_len :: nat where
  "blob_len = 4"

definition blob_null :: blob where
  "blob_null = \<lparr>bdata = replicate blob_len 0, loaded = False\<rparr>"

text \<open>The inner loop of \<open>Blob::load\<close>: \<open>x = (x << 8) | *(--arr)\<close>, last byte first.\<close>

definition blob_load_datum :: "bytes \<Rightarrow> u64" where
  "blob_load_datum bs = fold (\<lambda>b x. push_bit 8 x OR ucast b) (rev bs) 0"

definition blob_load :: "bytes \<Rightarrow> blob" where
  "blob_load arr =
     \<lparr>bdata = map (\<lambda>i. blob_load_datum (take 8 (drop (8 * i) arr))) [0..<blob_len], loaded = True\<rparr>"

definition blob_of_bytes :: "bytes \<Rightarrow> stream_error + blob" where
  "blob_of_bytes arr = (if length arr \<noteq> 32 then Inl IncorrectBlobSize else Inr (blob_load arr))"

definition blob_is_null :: "blob \<Rightarrow> bool" where
  "blob_is_null b = (\<not> loaded b)"

definition blob_eq :: "blob \<Rightarrow> blob \<Rightarrow> bool" where
  "blob_eq a b = list_all (\<lambda>i. bdata a ! i = bdata b ! i) [0..<blob_len]"

text \<open>\<open>operator<\<close>: from the last datum down to the second, then the first.\<close>

fun blob_lt_from :: "nat \<Rightarrow> u64 list \<Rightarrow> u64 list \<Rightarrow> bool" where
  "blob_lt_from 0 a b = (a ! 0 < b ! 0)"
| "blob_lt_from (Suc i) a b =
     (if a ! Suc i \<noteq> b ! Suc i then a ! Suc i < b ! Suc i else blob_lt_from i a b)"

definition blob_lt :: "blob \<Rightarrow> blob \<Rightarrow> bool" where
  "blob_lt a b = blob_lt_from (blob_len - 1) (bdata a) (bdata b)"

definition blob_cheap_hash :: "blob \<Rightarrow> u64" where
  "blob_cheap_hash b = bdata b ! 0"

definition blob_serialize :: "blob \<Rightarrow> datastream \<Rightarrow> datastream" where
  "blob_serialize b s =
     (if loaded b then fold ds_put (bdata b) s
      else fold (\<lambda>_. ds_put (0 :: u64)) (bdata b) s)"

definition blob_unserialize :: "datastream \<Rightarrow> stream_error + (blob \<times> datastream)" where
  "blob_unserialize s =
     (case ds_get_many (ds_get :: datastream \<Rightarrow> stream_error + (u64 \<times> datastream)) blob_len s of
        Inl e \<Rightarrow> Inl e
      | Inr (xs, s') \<Rightarrow> Inr (\<lparr>bdata = xs, loaded = True\<rparr>, s'))"

section \<open>Bits: bit vectors\<close>

record bits =
  bits_data :: "u64 list option"
  nbits :: u32
  ndata :: u32

definition bits_ndata :: "u32 \<Rightarrow> u32" where
  "bits_ndata n = (n + 64 - 1) div 64"

text \<open>\<open>_Bits(uint32_t nbits)\<close> leaves the words uninitialised: \<open>mem\<close> is what the memory held.\<close>

definition bits_new :: "u32 \<Rightarrow> (nat \<Rightarrow> u64) \<Rightarrow> bits" where
  "bits_new n mem =
     \<lparr>bits_data = Some (map mem [0..<unat (bits_ndata n)]), nbits = n, ndata = bits_ndata n\<rparr>"

definition bits_clear :: "bits \<Rightarrow> bits" where
  "bits_clear b = b\<lparr>bits_data := map_option (\<lambda>_. replicate (unat (ndata b)) 0) (bits_data b)\<rparr>"

text \<open>The accesses \<open>data[idx >> 6]\<close> are unchecked; a read outside the array is \<open>None\<close>.\<close>

definition bits_word :: "bits \<Rightarrow> u32 \<Rightarrow> u64 option" where
  "bits_word b idx =
     (case bits_data b of None \<Rightarrow> None
      | Some d \<Rightarrow> (let i = unat (drop_bit 6 idx) in if i < length d then Some (d ! i) else None))"

definition bits_get :: "bits \<Rightarrow> u32 \<Rightarrow> u8 option" where
  "bits_get b idx =
     map_option (\<lambda>w. ucast (drop_bit (unat (idx AND 63)) w AND 1)) (bits_word b idx)"

definition bits_write :: "bits \<Rightarrow> u32 \<Rightarrow> (nat \<Rightarrow> u64 \<Rightarrow> u64) \<Rightarrow> bits option" where
  "bits_write b idx f =
     (case bits_data b of None \<Rightarrow> None
      | Some d \<Rightarrow>
          (let i = unat (drop_bit 6 idx); pos = unat (idx AND 63) in
           if i < length d then Some (b\<lparr>bits_data := Some (d[i := f pos (d ! i)])\<rparr>) else None))"

definition bits_set :: "bits \<Rightarrow> u32 \<Rightarrow> bits option" where
  "bits_set b idx = bits_write b idx
     (\<lambda>pos w. w XOR push_bit pos ((drop_bit pos w AND 1) XOR 1))"

definition bits_unset :: "bits \<Rightarrow> u32 \<Rightarrow> bits option" where
  "bits_unset b idx = bits_write b idx (\<lambda>pos w. w XOR push_bit pos (drop_bit pos w AND 1))"

definition bits_flip :: "bits \<Rightarrow> u32 \<Rightarrow> bits option" where
  "bits_flip b idx = bits_write b idx (\<lambda>pos w. w XOR push_bit pos 1)"

definition bits_serialize :: "bits \<Rightarrow> datastream \<Rightarrow> datastream" where
  "bits_serialize b s =
     (let s1 = ds_put (nbits b) s in
      case bits_data b of Some d \<Rightarrow> fold ds_put (take (unat (ndata b)) d) s1
      | None \<Rightarrow> fold (\<lambda>_. ds_put (0 :: u64)) [0..<unat (ndata b)] s1)"

definition bits_unserialize :: "datastream \<Rightarrow> stream_error + (bits \<times> datastream)" where
  "bits_unserialize s =
     (case ds_get s of Inl e \<Rightarrow> Inl e
      | Inr (n, s1) \<Rightarrow>
          (case ds_get_many (ds_get :: datastream \<Rightarrow> stream_error + (u64 \<times> datastream))
                  (unat (bits_ndata n)) s1 of
             Inl e \<Rightarrow> Inl e
           | Inr (xs, s2) \<Rightarrow>
               Inr (\<lparr>bits_data = Some xs, nbits = n, ndata = bits_ndata n\<rparr>, s2)))"


section \<open>Codecs: writers and readers that agree\<close>

text \<open>
  The contract between a \<open>serialize\<close> and its \<open>unserialize\<close>: the writer appends an
  encoding, the reader recovers the value wherever the unread bytes start with that
  encoding, and leaves the stream just behind it.
\<close>

definition ds_skip :: "nat \<Rightarrow> datastream \<Rightarrow> datastream" where
  "ds_skip n s = s\<lparr>offset := offset s + n\<rparr>"

lemma ds_skip_0 [simp]: "ds_skip 0 s = s"
  by (simp add: ds_skip_def)

lemma ds_skip_skip [simp]: "ds_skip m (ds_skip n s) = ds_skip (n + m) s"
  by (simp add: ds_skip_def add.assoc)

lemma ds_rest_skip: "ds_rest s = xs @ r \<Longrightarrow> ds_rest (ds_skip (length xs) s) = r"
  by (simp add: ds_rest_def ds_skip_def add.commute flip: drop_drop)

lemma ds_rest_of_bytes [simp]: "ds_rest (ds_of_bytes bs) = bs"
  by (simp add: ds_rest_def ds_of_bytes_def)

lemma ds_put_data_append [simp]:
  "ds_put_data ys (ds_put_data xs s) = ds_put_data (xs @ ys) s"
  by (simp add: ds_put_data_def)

lemma ds_put_data_Nil [simp]: "ds_put_data [] s = s"
  by (simp add: ds_put_data_def)

lemma buffer_put_data [simp]: "buffer (ds_put_data xs s) = buffer s @ xs"
  by (simp add: ds_put_data_def)

lemma buffer_new [simp]: "buffer ds_new = []"
  by (simp add: ds_new_def)

lemma rest_fits: "ds_rest s = xs @ r \<Longrightarrow> xs \<noteq> [] \<Longrightarrow> offset s + length xs \<le> length (buffer s)"
  by (metis Nat.le_diff_conv2 add.commute append_is_Nil_conv drop_all ds_rest_def le_add1
      length_append length_drop nat_le_linear)

locale decoder =
  fixes enc :: "'a \<Rightarrow> bytes"
    and get :: "datastream \<Rightarrow> 'e + ('a \<times> datastream)"
    and ok :: "'a \<Rightarrow> bool"
  assumes get_enc: "ok x \<Longrightarrow> ds_rest s = enc x @ r \<Longrightarrow> get s = Inr (x, ds_skip (length (enc x)) s)"
begin

lemma get_many:
  "list_all ok xs \<Longrightarrow> ds_rest s = concat (map enc xs) @ r \<Longrightarrow>
   ds_get_many get (length xs) s = Inr (xs, ds_skip (length (concat (map enc xs))) s)"
proof (induction xs arbitrary: s)
  case (Cons x xs)
  have "ok x" and ok: "list_all ok xs" using Cons.prems(1) by auto
  have rest: "ds_rest s = enc x @ concat (map enc xs) @ r" using Cons.prems(2) by simp
  have "get s = Inr (x, ds_skip (length (enc x)) s)"
    by (rule get_enc [OF \<open>ok x\<close> rest])
  moreover have "ds_rest (ds_skip (length (enc x)) s) = concat (map enc xs) @ r"
    by (rule ds_rest_skip [OF rest])
  ultimately show ?case using Cons.IH [OF ok] by (simp add: add.assoc)
qed simp

lemma get_of_bytes:
  "ok x \<Longrightarrow> get (ds_of_bytes (enc x @ r)) = Inr (x, ds_skip (length (enc x)) (ds_of_bytes (enc x @ r)))"
  by (rule get_enc) simp_all

text \<open>A decoded value determines the encoding that was read: different values never collide.\<close>

lemma enc_inject: "ok x \<Longrightarrow> ok y \<Longrightarrow> enc x @ r = enc y @ r' \<Longrightarrow> x = y \<and> r = r'"
proof -
  assume x: "ok x" and y: "ok y" and eq: "enc x @ r = enc y @ r'"
  let ?s = "ds_of_bytes (enc x @ r)"
  have "get ?s = Inr (x, ds_skip (length (enc x)) ?s)"
    by (rule get_enc [OF x]) simp
  moreover have "get ?s = Inr (y, ds_skip (length (enc y)) ?s)"
    by (rule get_enc [OF y]) (simp add: eq)
  ultimately show ?thesis using eq by simp
qed

end

text \<open>With a writer that always succeeds.\<close>

locale codec = decoder enc get ok
  for put :: "'a \<Rightarrow> datastream \<Rightarrow> datastream" and enc :: "'a \<Rightarrow> bytes"
    and get :: "datastream \<Rightarrow> 'e + ('a \<times> datastream)" and ok :: "'a \<Rightarrow> bool" +
  assumes put_enc: "ok x \<Longrightarrow> put x s = ds_put_data (enc x) s"
begin

lemma put_many: "list_all ok xs \<Longrightarrow> fold put xs s = ds_put_data (concat (map enc xs)) s"
  by (induction xs arbitrary: s) (auto simp: put_enc)

lemma roundtrip:
  assumes "ok x"
  shows "get (ds_of_bytes (buffer (put x ds_new) @ r)) =
           Inr (x, ds_skip (length (enc x)) (ds_of_bytes (buffer (put x ds_new) @ r)))"
  by (rule get_enc [OF assms, of _ r]) (simp add: put_enc [OF assms])

end

text \<open>With a writer that may throw: it does not on the values of the contract.\<close>

locale fcodec = decoder enc get ok
  for fput :: "'a \<Rightarrow> datastream \<Rightarrow> 'f + datastream" and enc :: "'a \<Rightarrow> bytes"
    and get :: "datastream \<Rightarrow> 'e + ('a \<times> datastream)" and ok :: "'a \<Rightarrow> bool" +
  assumes fput_enc: "ok x \<Longrightarrow> fput x s = Inr (ds_put_data (enc x) s)"
begin

lemma froundtrip:
  assumes "ok x"
  shows "\<exists>s. fput x ds_new = Inr s \<and> get (ds_of_bytes (buffer s @ r)) =
           Inr (x, ds_skip (length (buffer s)) (ds_of_bytes (buffer s @ r)))"
  using get_enc [OF assms, of "ds_of_bytes (enc x @ r)" r] by (simp add: fput_enc [OF assms])

end

definition int_enc :: "'a::len word \<Rightarrow> bytes" where
  "int_enc w = to_le (LENGTH('a) div 8) (unat w)"

lemma length_int_enc [simp]: "length (int_enc (w :: 'a::len word)) = LENGTH('a) div 8"
  by (simp add: int_enc_def)

lemma ds_put_int: "ds_put w s = ds_put_data (int_enc w) s"
  by (simp add: ds_put_def int_enc_def)

lemma ds_get_int:
  fixes w :: "'a::len word"
  assumes len: "LENGTH('a) = 8 * (LENGTH('a) div 8)" and rest: "ds_rest s = int_enc w @ r"
  shows "ds_get s = Inr (w, ds_skip (length (int_enc w)) s)"
proof -
  have "int_enc w \<noteq> []"
    using len len_gt_0 [where 'a='a] by (metis length_int_enc list.size(3) mult_0_right nat_less_le)
  from rest_fits [OF rest this] have fits: "offset s + LENGTH('a) div 8 \<le> length (buffer s)"
    by simp
  have "(256 :: nat) ^ (LENGTH('a) div 8) = 2 ^ LENGTH('a)"
    by (subst (2) len) (simp add: power_mult)
  then have "of_le (int_enc w) = unat w"
    by (simp add: int_enc_def encode_simps)
  moreover have "take (LENGTH('a) div 8) (drop (offset s) (buffer s)) = int_enc w"
    using rest by (simp add: ds_rest_def)
  ultimately show ?thesis
    using fits by (simp add: ds_get_def ds_skip_def Let_def)
qed

interpretation u16c: codec "ds_put :: u16 \<Rightarrow> _" int_enc
  "ds_get :: datastream \<Rightarrow> stream_error + _" "\<lambda>_. True"
  by unfold_locales (rule ds_get_int, simp_all add: ds_put_int)

interpretation u32c: codec "ds_put :: u32 \<Rightarrow> _" int_enc
  "ds_get :: datastream \<Rightarrow> stream_error + _" "\<lambda>_. True"
  by unfold_locales (rule ds_get_int, simp_all add: ds_put_int)

interpretation u64c: codec "ds_put :: u64 \<Rightarrow> _" int_enc
  "ds_get :: datastream \<Rightarrow> stream_error + _" "\<lambda>_. True"
  by unfold_locales (rule ds_get_int, simp_all add: ds_put_int)


subsection \<open>Identifiers\<close>

definition blob_ok :: "blob \<Rightarrow> bool" where
  "blob_ok b = (length (bdata b) = blob_len \<and> loaded b)"

definition blob_enc :: "blob \<Rightarrow> bytes" where
  "blob_enc b = concat (map int_enc (bdata b))"

interpretation blobc: codec blob_serialize blob_enc blob_unserialize blob_ok
proof unfold_locales
  fix b s assume "blob_ok b"
  then show "blob_serialize b s = ds_put_data (blob_enc b) s"
    by (simp add: blob_serialize_def blob_enc_def blob_ok_def u64c.put_many list_all_iff)
next
  fix b s r assume ok: "blob_ok b" and rest: "ds_rest s = blob_enc b @ r"
  have "ds_get_many ds_get (length (bdata b)) s =
          (Inr (bdata b, ds_skip (length (blob_enc b)) s) :: stream_error + _)"
    using u64c.get_many [of "bdata b" s r] rest by (simp add: blob_enc_def list_all_iff)
  then show "blob_unserialize s = Inr (b, ds_skip (length (blob_enc b)) s)"
    using ok by (simp add: blob_unserialize_def blob_ok_def)
qed

lemma length_blob_enc: "blob_ok b \<Longrightarrow> length (blob_enc b) = 32"
  by (auto simp: blob_enc_def blob_ok_def blob_len_def length_concat o_def sum_list_triv)

lemma blob_load_datum_le: "blob_load_datum bs = word_of_nat (of_le bs)"
  by (simp add: blob_load_datum_def fold_shift_or_le)

text \<open>The number a 256-bit identifier stands for: its words with the least significant first.\<close>

definition blob_val :: "blob \<Rightarrow> nat" where
  "blob_val b = (\<Sum>i<blob_len. unat (bdata b ! i) * 2 ^ (64 * i))"


lemma int_enc_datum: "length bs = 8 \<Longrightarrow> int_enc (blob_load_datum bs) = bs"
proof -
  assume len: "length bs = 8"
  have "of_le bs < 2 ^ 64"
    using of_le_bound [of bs] len by simp
  then have "unat (blob_load_datum bs) = of_le bs"
    by (simp add: blob_load_datum_le unat_of_nat)
  then show ?thesis
    using to_le_of_le [of bs] len by (simp add: int_enc_def)
qed

lemma upt_blob_len: "[0..<blob_len] = [0, 1, 2, 3]"
  by (simp add: blob_len_def upt_rec)

lemma blob_load_ok: "blob_ok (blob_load bs)"
  by (simp add: blob_ok_def blob_load_def)

lemma blob_enc_load:
  assumes "length bs = 32"
  shows "blob_enc (blob_load bs) = bs"
proof -
  have "int_enc (blob_load_datum (take 8 (drop (8 * i) bs))) = take 8 (drop (8 * i) bs)"
    if "i < 4" for i
    using assms that by (intro int_enc_datum) simp
  then have "blob_enc (blob_load bs) =
      take 8 bs @ take 8 (drop 8 bs) @ take 8 (drop 16 bs) @ take 8 (drop 24 bs)"
    using assms by (simp add: blob_enc_def blob_load_def upt_blob_len int_enc_datum)
  also have "\<dots> = bs"
    using append_take_drop_id [of 8 bs] append_take_drop_id [of 8 "drop 8 bs"]
      append_take_drop_id [of 8 "drop 16 bs"] assms by simp
  finally show ?thesis .
qed

text \<open>
  loading a 32-byte array into an identifier (\<open>Blob::load\<close>) and serializing the
  identifier gives the same 32 bytes, and reading them back from any stream gives the
  loaded identifier with the rest of the stream untouched.
\<close>

theorem blob_load_serialize_roundtrip:
  assumes "length bs = 32"
  shows "buffer (blob_serialize (blob_load bs) ds_new) = bs \<and>
         blob_unserialize (ds_of_bytes (bs @ r)) =
           Inr (blob_load bs, \<lparr>buffer = bs @ r, offset = 32\<rparr>)"
proof -
  have 1: "buffer (blob_serialize (blob_load bs) ds_new) = bs"
    by (simp add: blobc.put_enc [OF blob_load_ok] blob_enc_load [OF assms])
  then show ?thesis
    using blobc.roundtrip [OF blob_load_ok, of bs r]
    by (simp add: blob_enc_load [OF assms] assms ds_skip_def ds_of_bytes_def)
qed

lemma sum_below_4: "(\<Sum>i<4 :: nat. f i) = f 0 + f 1 + f 2 + (f 3 :: nat)"
  by (simp add: numeral_eq_Suc lessThan_Suc)

lemma blob_lt_from_3:
  "blob_lt_from 3 x y = (if x ! 3 \<noteq> y ! 3 then x ! 3 < y ! 3 else if x ! 2 \<noteq> y ! 2 then x ! 2 < y ! 2
     else if x ! 1 \<noteq> y ! 1 then x ! 1 < y ! 1 else x ! 0 < y ! 0)"
  by (simp add: numeral_3_eq_3 numeral_2_eq_2)

text \<open>
  the ordering of identifiers (\<open>Blob::operator<\<close>, most significant datum first) is
  the numeric ordering of the 256-bit values.
\<close>

theorem blob_lt_numeric:
  assumes "length (bdata a) = 4" and "length (bdata b) = 4"
  shows "blob_lt a b = (blob_val a < blob_val b)"
proof -
  have bound: "unat (x :: u64) < 2 ^ 64" for x
    using unsigned_less [of x] by simp
  let ?a = "\<lambda>i. unat (bdata a ! i)" and ?b = "\<lambda>i. unat (bdata b ! i)"
  have val: "blob_val c = unat (bdata c ! 0) + (unat (bdata c ! 1) + (unat (bdata c ! 2) +
      unat (bdata c ! 3) * 2 ^ 64) * 2 ^ 64) * 2 ^ 64" for c
    by (simp add: blob_val_def blob_len_def sum_below_4 algebra_simps)
  have "blob_lt a b = (if ?a 3 \<noteq> ?b 3 then ?a 3 < ?b 3 else if ?a 2 \<noteq> ?b 2 then ?a 2 < ?b 2
      else if ?a 1 \<noteq> ?b 1 then ?a 1 < ?b 1 else ?a 0 < ?b 0)"
    by (simp add: blob_lt_def blob_len_def blob_lt_from_3 word_less_nat_alt word_unat_eq_iff)
  also have "\<dots> = (blob_val a < blob_val b)"
    unfolding val by (simp only: digit_less [OF bound bound] digit_eq [OF bound bound]) auto
  finally show ?thesis .
qed


theorem blob_load_serialize_roundtrip_witness:
  "buffer (blob_serialize (blob_load (replicate 31 7 @ [1])) ds_new) = replicate 31 7 @ [1 :: u8]"
  by (rule conjunct1 [OF blob_load_serialize_roundtrip]) simp

theorem blob_lt_numeric_witness:
  "blob_lt \<lparr>bdata = [9, 0, 0, 1], loaded = True\<rparr> \<lparr>bdata = [2, 0, 0, 2], loaded = True\<rparr> =
     (blob_val \<lparr>bdata = [9, 0, 0, 1], loaded = True\<rparr>
        < blob_val \<lparr>bdata = [2, 0, 0, 2], loaded = True\<rparr>)"
  by (rule blob_lt_numeric) simp_all

subsection \<open>Bit vectors\<close>

definition bits_wf :: "bits \<Rightarrow> bool" where
  "bits_wf b = (case bits_data b of None \<Rightarrow> False
     | Some d \<Rightarrow> length d = unat (ndata b) \<and> ndata b = bits_ndata (nbits b))"

lemma and_63_lt: "unat (idx AND 63 :: u32) < 64"
proof -
  have "idx AND 63 \<le> (63 :: u32)" by (rule word_and_le1)
  then show ?thesis by (simp add: word_le_nat_alt)
qed

lemma xor_sets_bit:
  "pos < 64 \<Longrightarrow> w XOR push_bit pos ((drop_bit pos w AND 1) XOR 1) = Bit_Operations.set_bit pos (w :: u64)"
  by (rule bit_eqI) (auto simp: bit_simps)

lemma xor_unsets_bit:
  "w XOR push_bit pos (drop_bit pos w AND 1) = Bit_Operations.unset_bit pos (w :: u64)"
  by (rule bit_eqI) (auto simp: bit_simps)

lemma get_eq_bit: "(ucast (drop_bit pos w AND 1) :: u8) = of_bool (bit (w :: u64) pos)"
  by (rule bit_eqI) (auto simp: bit_simps)

lemma idx_split: "(drop_bit 6 i = drop_bit 6 j \<and> i AND 63 = j AND 63) = (i = (j :: u32))"
proof
  assume eq: "drop_bit 6 i = drop_bit 6 j \<and> i AND 63 = j AND 63"
  have m: "(63 :: u32) = mask 6" by (simp add: mask_eq_exp_minus_1)
  have "unat k = 64 * unat (drop_bit 6 k) + unat (k AND 63)" for k :: u32
    unfolding m by (simp add: word_nat)
  from this [of i] this [of j] eq show "i = j" by (simp add: word_unat_eq_iff)
qed simp


lemma bits_word_write:
  assumes "bits_write b i f = Some b'"
  shows "bits_word b' j =
    (if drop_bit 6 j = drop_bit 6 i then map_option (f (unat (i AND 63))) (bits_word b i)
     else bits_word b j)"
  using assms
  by (auto simp: bits_write_def bits_word_def Let_def nth_list_update word_unat_eq_iff
      split: option.splits if_splits)

lemma bits_get_write:
  assumes "bits_write b i f = Some b'"
    and "\<And>w p. bit (f (unat (i AND 63)) w) p = (if p = unat (i AND 63) then g (bit w p) else bit w p)"
  shows "bits_get b' j =
    (if j = i then map_option (\<lambda>w. of_bool (g (bit w (unat (i AND 63))))) (bits_word b i)
     else bits_get b j)"
proof (cases "drop_bit 6 j = drop_bit 6 i")
  case True
  then have word: "bits_word b j = bits_word b i"
    by (auto simp: bits_word_def split: option.splits)
  have "(unat (j AND 63) = unat (i AND 63)) = (j = i)"
    using True idx_split [of j i] by (simp add: word_unat_eq_iff)
  then show ?thesis
    using True by (auto simp: bits_get_def bits_word_write [OF assms(1)] get_eq_bit word assms(2)
        option.map_comp o_def intro!: option.map_cong)
next
  case False
  then have "j \<noteq> i" by auto
  with False show ?thesis by (simp add: bits_get_def bits_word_write [OF assms(1)])
qed

lemma bits_write_defined: "bits_wf b \<Longrightarrow> unat (drop_bit 6 i) < unat (ndata b) \<Longrightarrow>
   \<exists>b'. bits_write b i f = Some b' \<and> bits_wf b' \<and> nbits b' = nbits b"
  by (auto simp: bits_write_def bits_wf_def Let_def split: option.splits)

lemma bits_ndata_eq: "unat n + 63 < 2 ^ 32 \<Longrightarrow> unat (bits_ndata n) = (unat n + 63) div 64"
proof -
  assume n: "unat n + 63 < 2 ^ 32"
  have "n + 64 - 1 = n + 63" by simp
  moreover have "unat (n + 63) = unat n + 63"
    using n by (simp add: unat_word_ariths)
  moreover have "unat (64 :: u32) = 64" by simp
  ultimately show ?thesis by (simp only: bits_ndata_def unat_div_distrib)
qed

lemma bits_index_in_range:
  assumes "bits_wf b" and "unat (nbits b) + 63 < 2 ^ 32" and "i < nbits b"
  shows "unat (drop_bit 6 i) < unat (ndata b)"
proof -
  have "unat (ndata b) = (unat (nbits b) + 63) div 64"
    using assms(1) bits_ndata_eq [OF assms(2)] by (auto simp: bits_wf_def split: option.splits)
  moreover have "unat (drop_bit 6 i) = unat i div 64"
    by (simp add: word_nat)
  ultimately show ?thesis
    using assms(3) by (simp add: word_less_nat_alt)
qed

lemma bits_set_spec:
  assumes "bits_wf b" and "unat (nbits b) + 63 < 2 ^ 32" and "i < nbits b"
  shows "\<exists>b'. bits_set b i = Some b' \<and> bits_wf b' \<and> nbits b' = nbits b \<and>
           (\<forall>j. bits_get b' j = (if j = i then Some 1 else bits_get b j))"
proof -
  let ?f = "\<lambda>pos (w :: u64). w XOR push_bit pos ((drop_bit pos w AND 1) XOR 1)"
  have range: "unat (drop_bit 6 i) < unat (ndata b)"
    by (rule bits_index_in_range [OF assms])
  then obtain b' where b': "bits_write b i ?f = Some b'" "bits_wf b'" "nbits b' = nbits b"
    using bits_write_defined [OF assms(1)] by blast
  obtain w where w: "bits_word b i = Some w"
    using range assms(1) by (auto simp: bits_word_def bits_wf_def Let_def split: option.splits)
  have "bits_get b' j = (if j = i then Some 1 else bits_get b j)" for j
    by (subst bits_get_write [OF b'(1), where g = "\<lambda>_. True"])
      (auto simp: xor_sets_bit [OF and_63_lt] bit_simps w and_63_lt)
  with b' show ?thesis by (auto simp: bits_set_def)
qed

text \<open>
  on a well-formed bit vector, \<open>set\<close> of an index below the size succeeds, makes
  that bit read 1, leaves every other bit as it was, keeps the size and well-formedness;
  the guard on the size excludes the wrap-around of the word count.
\<close>

theorem bits_set_get:
  assumes "bits_wf b" and "unat (nbits b) + 63 < 2 ^ 32" and "i < nbits b"
  shows "\<exists>b'. bits_set b i = Some b' \<and> bits_wf b' \<and> nbits b' = nbits b \<and>
           (\<forall>j. bits_get b' j = (if j = i then Some 1 else bits_get b j))"
  by (rule bits_set_spec [OF assms])

theorem bits_set_get_witness:
  "\<exists>b'. bits_set (bits_clear (bits_new 4 (\<lambda>_. 77))) 2 = Some b' \<and> bits_wf b' \<and> nbits b' = 4 \<and>
     (\<forall>j. bits_get b' j =
        (if j = 2 then Some 1 else bits_get (bits_clear (bits_new 4 (\<lambda>_. 77))) j))"
  using bits_set_get [of "bits_clear (bits_new 4 (\<lambda>_. 77))" 2]
  by (simp add: bits_wf_def bits_clear_def bits_new_def bits_ndata_def)

lemma bits_clear_new:
  "bits_clear (bits_new n mem) =
     \<lparr>bits_data = Some (replicate (unat (bits_ndata n)) 0), nbits = n, ndata = bits_ndata n\<rparr>"
  by (simp add: bits_clear_def bits_new_def)

lemma bits_wf_cleared: "bits_wf (bits_clear (bits_new n mem))"
  by (simp add: bits_clear_new bits_wf_def)

lemma bits_get_cleared:
  "bits_get (bits_clear (bits_new n mem)) i = Some v \<Longrightarrow> v = 0"
  by (auto simp: bits_get_def bits_word_def bits_clear_new Let_def split: if_splits)

definition bits_enc :: "bits \<Rightarrow> bytes" where
  "bits_enc b = int_enc (nbits b) @ concat (map int_enc (the (bits_data b)))"

interpretation bitsc: codec bits_serialize bits_enc bits_unserialize bits_wf
proof unfold_locales
  fix b s assume "bits_wf b"
  then show "bits_serialize b s = ds_put_data (bits_enc b) s"
    by (auto simp: bits_serialize_def bits_wf_def bits_enc_def u64c.put_many list_all_iff
        ds_put_int split: option.splits)
next
  fix b s r assume wf: "bits_wf b" and rest: "ds_rest s = bits_enc b @ r"
  obtain d where d: "bits_data b = Some d" "length d = unat (ndata b)" "ndata b = bits_ndata (nbits b)"
    using wf by (auto simp: bits_wf_def split: option.splits)
  have rest1: "ds_rest s = int_enc (nbits b) @ concat (map int_enc d) @ r"
    using rest by (simp add: bits_enc_def d)
  have "ds_get_many ds_get (length d) (ds_skip (length (int_enc (nbits b))) s) =
      (Inr (d, ds_skip (length (concat (map int_enc d))) (ds_skip (length (int_enc (nbits b))) s))
        :: stream_error + _)"
    by (rule u64c.get_many [OF _ ds_rest_skip [OF rest1]]) (simp add: list_all_iff)
  with d show "bits_unserialize s = Inr (b, ds_skip (length (bits_enc b)) s)"
    by (simp add: bits_unserialize_def u32c.get_enc [OF _ rest1] bits_enc_def)
qed


subsection \<open>Identifiers as 256-bit words\<close>

text \<open>
  The components above the stream only compare identifiers and move them through
  streams, so they use the 256-bit number an identifier stands for; its bytes on the
  stream are those of the \<open>Blob\<close>.
\<close>

type_synonym hash = "256 word"

interpretation u256c: codec "ds_put :: hash \<Rightarrow> _" int_enc
  "ds_get :: datastream \<Rightarrow> stream_error + _" "\<lambda>_. True"
  by unfold_locales (rule ds_get_int, simp_all add: ds_put_int)

definition blob_hash :: "blob \<Rightarrow> hash" where
  "blob_hash b = word_of_nat (blob_val b)"

lemma to_le_append: "x < 256 ^ m \<Longrightarrow> to_le m x @ to_le n y = to_le (m + n) (x + 256 ^ m * y)"
proof (induction m arbitrary: x)
  case (Suc m)
  have "x div 256 < 256 ^ m" using Suc.prems by (simp add: less_mult_imp_div_less mult.commute)
  moreover have "(x + 256 * 256 ^ m * y) div 256 = x div 256 + 256 ^ m * y"
    by (simp add: mult.assoc)
  moreover have "(word_of_nat (256 * 256 ^ m * y) :: u8) = 0"
  proof -
    have "(256 :: u8) = 0" by simp
    then show ?thesis by (simp only: of_nat_mult of_nat_numeral mult_zero_left)
  qed
  ultimately show ?case using Suc.IH by simp
qed simp

lemma len256: "LENGTH(256) = 256"
  by simp

lemma blob_hash_enc: "blob_ok b \<Longrightarrow> blob_enc b = int_enc (blob_hash b)"
proof -
  assume "blob_ok b"
  then obtain x0 x1 x2 x3 where b: "bdata b = [x0, x1, x2, x3]"
    by (auto simp: blob_ok_def blob_len_def length_Suc_conv numeral_eq_Suc)
  note lt = unsigned_less [of x0, where 'a = nat] unsigned_less [of x1, where 'a = nat]
    unsigned_less [of x2, where 'a = nat] unsigned_less [of x3, where 'a = nat]
  have val: "blob_val b = unat x0 + 256 ^ 8 * (unat x1 + 256 ^ 8 * (unat x2 + 256 ^ 8 * unat x3))"
    by (simp add: blob_val_def blob_len_def sum_below_4 b)
  have "blob_enc b = to_le 8 (unat x0) @ to_le 8 (unat x1) @ to_le 8 (unat x2) @ to_le 8 (unat x3)"
    by (simp add: blob_enc_def b int_enc_def)
  also have "\<dots> = to_le 32 (blob_val b)"
    unfolding val using lt by (simp add: to_le_append)
  finally have enc: "blob_enc b = to_le 32 (blob_val b)" .
  have "blob_val b < 2 ^ 256" unfolding val using lt by simp
  then have "unat (blob_hash b) = blob_val b"
    unfolding blob_hash_def by (simp only: unat_of_nat len256 mod_less)
  then show ?thesis by (simp add: int_enc_def enc)
qed

lemma blob_serialize_hash: "blob_ok b \<Longrightarrow> blob_serialize b s = ds_put (blob_hash b) s"
  by (simp add: blobc.put_enc ds_put_int blob_hash_enc)

end
