(* ===== verification/Scalar_4x64.thy ===== *)
theory Scalar_4x64
  imports Prelude
begin

text \<open>
  Scalars modulo the group order of secp256k1, as \<open>scalar_4x64_impl.h\<close> implements
  them: four 64-bit limbs, 128-bit intermediate sums. Where the source has an
  x86-64 assembly and a C variant of a routine, the C variant is modelled. C flags
  that only take the values 0 and 1 are booleans; the \<open>int\<close> results are the numbers.
\<close>

section \<open>The representation\<close>

record scalar =
  d0 :: u64
  d1 :: u64
  d2 :: u64
  d3 :: u64

definition SECP256K1_N_0 :: u64 where "SECP256K1_N_0 = 0xBFD25E8CD0364141"
definition SECP256K1_N_1 :: u64 where "SECP256K1_N_1 = 0xBAAEDCE6AF48A03B"
definition SECP256K1_N_2 :: u64 where "SECP256K1_N_2 = 0xFFFFFFFFFFFFFFFE"
definition SECP256K1_N_3 :: u64 where "SECP256K1_N_3 = 0xFFFFFFFFFFFFFFFF"

definition SECP256K1_N_C_0 :: u64 where "SECP256K1_N_C_0 = NOT SECP256K1_N_0 + 1"
definition SECP256K1_N_C_1 :: u64 where "SECP256K1_N_C_1 = NOT SECP256K1_N_1"
definition SECP256K1_N_C_2 :: u64 where "SECP256K1_N_C_2 = 1"

definition SECP256K1_N_H_0 :: u64 where "SECP256K1_N_H_0 = 0xDFE92F46681B20A0"
definition SECP256K1_N_H_1 :: u64 where "SECP256K1_N_H_1 = 0x5D576E7357A4501D"
definition SECP256K1_N_H_2 :: u64 where "SECP256K1_N_H_2 = 0xFFFFFFFFFFFFFFFF"
definition SECP256K1_N_H_3 :: u64 where "SECP256K1_N_H_3 = 0x7FFFFFFFFFFFFFFF"

text \<open>\<open>t & 0xFFFFFFFFFFFFFFFFULL\<close> stored into a limb, for a 128-bit \<open>t\<close>.\<close>

definition lo64 :: "u128 \<Rightarrow> u64" where
  "lo64 t = ucast (t AND 0xFFFFFFFFFFFFFFFF)"

definition wide :: "u64 \<Rightarrow> u128" where
  "wide x = ucast x"

section \<open>Operations\<close>

definition secp256k1_scalar_clear :: "scalar \<Rightarrow> scalar" where
  "secp256k1_scalar_clear r = r\<lparr>d0 := 0, d1 := 0, d2 := 0, d3 := 0\<rparr>"

definition secp256k1_scalar_set_int :: "u32 \<Rightarrow> scalar" where
  "secp256k1_scalar_set_int v = \<lparr>d0 = ucast v, d1 = 0, d2 = 0, d3 = 0\<rparr>"

text \<open>\<open>a->d[i]\<close>: a read outside the four limbs is \<open>None\<close>.\<close>

definition scalar_limb :: "scalar \<Rightarrow> nat \<Rightarrow> u64 option" where
  "scalar_limb a i = (if i < 4 then Some ([d0 a, d1 a, d2 a, d3 a] ! i) else None)"

definition secp256k1_scalar_get_bits :: "scalar \<Rightarrow> nat \<Rightarrow> nat \<Rightarrow> u32 option" where
  "secp256k1_scalar_get_bits a off count =
     map_option (\<lambda>w. ucast (drop_bit (off mod 64) w AND (push_bit count 1 - 1)))
       (scalar_limb a (off div 64))"

definition secp256k1_scalar_get_bits_var :: "scalar \<Rightarrow> nat \<Rightarrow> nat \<Rightarrow> u32 option" where
  "secp256k1_scalar_get_bits_var a off count =
     (if (off + count - 1) div 64 = off div 64 then secp256k1_scalar_get_bits a off count
      else case (scalar_limb a (off div 64), scalar_limb a (off div 64 + 1)) of
             (Some lo, Some hi) \<Rightarrow>
               Some (ucast ((drop_bit (off mod 64) lo OR push_bit (64 - off mod 64) hi)
                            AND (push_bit count 1 - 1)))
           | _ \<Rightarrow> None)"

definition secp256k1_scalar_check_overflow :: "scalar \<Rightarrow> bool" where
  "secp256k1_scalar_check_overflow a =
     (let no = (d3 a < SECP256K1_N_3);
          no = (no \<or> d2 a < SECP256K1_N_2);
          yes = (d2 a > SECP256K1_N_2 \<and> \<not> no);
          no = (no \<or> d1 a < SECP256K1_N_1);
          yes = (yes \<or> (d1 a > SECP256K1_N_1 \<and> \<not> no));
          yes = (yes \<or> (d0 a \<ge> SECP256K1_N_0 \<and> \<not> no))
      in yes)"

definition secp256k1_scalar_reduce :: "scalar \<Rightarrow> u32 \<Rightarrow> scalar" where
  "secp256k1_scalar_reduce r overflow =
     (let t = wide (d0 r) + wide (ucast overflow * SECP256K1_N_C_0);
          r0 = lo64 t; t = drop_bit 64 t;
          t = t + (wide (d1 r) + wide (ucast overflow * SECP256K1_N_C_1));
          r1 = lo64 t; t = drop_bit 64 t;
          t = t + (wide (d2 r) + wide (ucast overflow * SECP256K1_N_C_2));
          r2 = lo64 t; t = drop_bit 64 t;
          t = t + wide (d3 r);
          r3 = lo64 t
      in \<lparr>d0 = r0, d1 = r1, d2 = r2, d3 = r3\<rparr>)"

text \<open>The sum of two scalars and the overflow flag the function returns.\<close>

definition secp256k1_scalar_add :: "scalar \<Rightarrow> scalar \<Rightarrow> scalar \<times> u32" where
  "secp256k1_scalar_add a b =
     (let t = wide (d0 a) + wide (d0 b);
          r0 = lo64 t; t = drop_bit 64 t;
          t = t + (wide (d1 a) + wide (d1 b));
          r1 = lo64 t; t = drop_bit 64 t;
          t = t + (wide (d2 a) + wide (d2 b));
          r2 = lo64 t; t = drop_bit 64 t;
          t = t + (wide (d3 a) + wide (d3 b));
          r3 = lo64 t; t = drop_bit 64 t;
          r = \<lparr>d0 = r0, d1 = r1, d2 = r2, d3 = r3\<rparr>;
          overflow = ucast (t + of_bool (secp256k1_scalar_check_overflow r))
      in (secp256k1_scalar_reduce r overflow, overflow))"

definition secp256k1_scalar_cadd_bit :: "scalar \<Rightarrow> u32 \<Rightarrow> bool \<Rightarrow> scalar" where
  "secp256k1_scalar_cadd_bit r pos flag =
     (let pos = pos + ((of_bool flag - 1) AND 0x100);
          add = (\<lambda>k. wide (push_bit (unat (pos AND 0x3F)) (of_bool (drop_bit 6 pos = k))));
          t = wide (d0 r) + add 0;
          r0 = lo64 t; t = drop_bit 64 t;
          t = t + (wide (d1 r) + add 1);
          r1 = lo64 t; t = drop_bit 64 t;
          t = t + (wide (d2 r) + add 2);
          r2 = lo64 t; t = drop_bit 64 t;
          t = t + (wide (d3 r) + add 3);
          r3 = lo64 t
      in \<lparr>d0 = r0, d1 = r1, d2 = r2, d3 = r3\<rparr>)"

text \<open>
  One limb of \<open>set_b32\<close>: eight bytes, most significant first, joined with shifts and \<open>|\<close>;
  and its inverse for \<open>get_b32\<close>.
\<close>

definition be_limb :: "bytes \<Rightarrow> u64" where
  "be_limb b =
     ucast (b ! 7) OR push_bit 8 (ucast (b ! 6)) OR push_bit 16 (ucast (b ! 5))
     OR push_bit 24 (ucast (b ! 4)) OR push_bit 32 (ucast (b ! 3)) OR push_bit 40 (ucast (b ! 2))
     OR push_bit 48 (ucast (b ! 1)) OR push_bit 56 (ucast (b ! 0))"

definition limb_bytes :: "u64 \<Rightarrow> bytes" where
  "limb_bytes d =
     [ucast (drop_bit 56 d), ucast (drop_bit 48 d), ucast (drop_bit 40 d), ucast (drop_bit 32 d),
      ucast (drop_bit 24 d), ucast (drop_bit 16 d), ucast (drop_bit 8 d), ucast d]"

definition secp256k1_scalar_set_b32 :: "bytes \<Rightarrow> scalar \<times> bool" where
  "secp256k1_scalar_set_b32 b32 =
     (let r = \<lparr>d0 = be_limb (take 8 (drop 24 b32)), d1 = be_limb (take 8 (drop 16 b32)),
               d2 = be_limb (take 8 (drop 8 b32)), d3 = be_limb (take 8 b32)\<rparr>;
          over = secp256k1_scalar_check_overflow r
      in (secp256k1_scalar_reduce r (of_bool over), over))"

definition secp256k1_scalar_get_b32 :: "scalar \<Rightarrow> bytes" where
  "secp256k1_scalar_get_b32 a =
     limb_bytes (d3 a) @ limb_bytes (d2 a) @ limb_bytes (d1 a) @ limb_bytes (d0 a)"

definition secp256k1_scalar_is_zero :: "scalar \<Rightarrow> bool" where
  "secp256k1_scalar_is_zero a = ((d0 a OR d1 a OR d2 a OR d3 a) = 0)"

definition secp256k1_scalar_is_one :: "scalar \<Rightarrow> bool" where
  "secp256k1_scalar_is_one a = (((d0 a XOR 1) OR d1 a OR d2 a OR d3 a) = 0)"

definition secp256k1_scalar_eq :: "scalar \<Rightarrow> scalar \<Rightarrow> bool" where
  "secp256k1_scalar_eq a b =
     (((d0 a XOR d0 b) OR (d1 a XOR d1 b) OR (d2 a XOR d2 b) OR (d3 a XOR d3 b)) = 0)"

definition secp256k1_scalar_negate :: "scalar \<Rightarrow> scalar" where
  "secp256k1_scalar_negate a =
     (let nonzero = wide (0xFFFFFFFFFFFFFFFF * of_bool (\<not> secp256k1_scalar_is_zero a));
          t = wide (NOT (d0 a)) + wide SECP256K1_N_0 + 1;
          r0 = ucast (t AND nonzero); t = drop_bit 64 t;
          t = t + (wide (NOT (d1 a)) + wide SECP256K1_N_1);
          r1 = ucast (t AND nonzero); t = drop_bit 64 t;
          t = t + (wide (NOT (d2 a)) + wide SECP256K1_N_2);
          r2 = ucast (t AND nonzero); t = drop_bit 64 t;
          t = t + (wide (NOT (d3 a)) + wide SECP256K1_N_3);
          r3 = ucast (t AND nonzero)
      in \<lparr>d0 = r0, d1 = r1, d2 = r2, d3 = r3\<rparr>)"

definition secp256k1_scalar_is_high :: "scalar \<Rightarrow> bool" where
  "secp256k1_scalar_is_high a =
     (let no = (d3 a < SECP256K1_N_H_3);
          yes = (d3 a > SECP256K1_N_H_3 \<and> \<not> no);
          no = (no \<or> (d2 a < SECP256K1_N_H_2 \<and> \<not> yes));
          no = (no \<or> (d1 a < SECP256K1_N_H_1 \<and> \<not> yes));
          yes = (yes \<or> (d1 a > SECP256K1_N_H_1 \<and> \<not> no));
          yes = (yes \<or> (d0 a > SECP256K1_N_H_0 \<and> \<not> no))
      in yes)"

definition secp256k1_scalar_cond_negate :: "scalar \<Rightarrow> bool \<Rightarrow> scalar \<times> int" where
  "secp256k1_scalar_cond_negate r flag =
     (let mask = (of_bool (\<not> flag) - 1 :: u64);
          nonzero = wide (of_bool (secp256k1_scalar_is_zero r) - 1);
          t = wide (d0 r XOR mask) + wide ((SECP256K1_N_0 + 1) AND mask);
          r0 = ucast (t AND nonzero); t = drop_bit 64 t;
          t = t + (wide (d1 r XOR mask) + wide (SECP256K1_N_1 AND mask));
          r1 = ucast (t AND nonzero); t = drop_bit 64 t;
          t = t + (wide (d2 r XOR mask) + wide (SECP256K1_N_2 AND mask));
          r2 = ucast (t AND nonzero); t = drop_bit 64 t;
          t = t + (wide (d3 r XOR mask) + wide (SECP256K1_N_3 AND mask));
          r3 = ucast (t AND nonzero)
      in (\<lparr>d0 = r0, d1 = r1, d2 = r2, d3 = r3\<rparr>, 2 * of_bool (mask = 0) - 1))"

definition secp256k1_scalar_shr_int :: "scalar \<Rightarrow> nat \<Rightarrow> scalar \<times> int" where
  "secp256k1_scalar_shr_int r n =
     (\<lparr>d0 = drop_bit n (d0 r) + push_bit (64 - n) (d1 r),
       d1 = drop_bit n (d1 r) + push_bit (64 - n) (d2 r),
       d2 = drop_bit n (d2 r) + push_bit (64 - n) (d3 r),
       d3 = drop_bit n (d3 r)\<rparr>,
      uint (d0 r AND (push_bit n 1 - 1)))"


subsection \<open>Wide multiplication\<close>

text \<open>
  The accumulator macros work on local variables \<open>(c0, c1, c2)\<close>; the top one is
  64 bits wide in \<open>reduce_512\<close> and 32 bits wide in \<open>mul_512\<close> and \<open>sqr_512\<close>,
  so its width is a parameter here.
\<close>

type_synonym 'c acc = "u64 \<times> u64 \<times> 'c word"

fun muladd :: "u64 \<Rightarrow> u64 \<Rightarrow> 'c::len acc \<Rightarrow> 'c acc" where
  "muladd a b (c0, c1, c2) =
     (let t = wide a * wide b;
          th = ucast (drop_bit 64 t); tl = ucast t;
          c0 = c0 + tl;
          th = th + (if c0 < tl then 1 else 0);
          c1 = c1 + th;
          c2 = c2 + (if c1 < th then 1 else 0)
      in (c0, c1, c2))"

fun muladd_fast :: "u64 \<Rightarrow> u64 \<Rightarrow> 'c::len acc \<Rightarrow> 'c acc" where
  "muladd_fast a b (c0, c1, c2) =
     (let t = wide a * wide b;
          th = ucast (drop_bit 64 t); tl = ucast t;
          c0 = c0 + tl;
          th = th + (if c0 < tl then 1 else 0);
          c1 = c1 + th
      in (c0, c1, c2))"

fun muladd2 :: "u64 \<Rightarrow> u64 \<Rightarrow> 'c::len acc \<Rightarrow> 'c acc" where
  "muladd2 a b (c0, c1, c2) =
     (let t = wide a * wide b;
          th = ucast (drop_bit 64 t); tl = ucast t;
          th2 = th + th;
          c2 = c2 + (if th2 < th then 1 else 0);
          tl2 = tl + tl;
          th2 = th2 + (if tl2 < tl then 1 else 0);
          c0 = c0 + tl2;
          th2 = th2 + (if c0 < tl2 then 1 else 0);
          c2 = c2 + of_bool (c0 < tl2 \<and> th2 = 0);
          c1 = c1 + th2;
          c2 = c2 + (if c1 < th2 then 1 else 0)
      in (c0, c1, c2))"

fun sumadd :: "u64 \<Rightarrow> 'c::len acc \<Rightarrow> 'c acc" where
  "sumadd a (c0, c1, c2) =
     (let c0 = c0 + a;
          over = (if c0 < a then 1 else 0);
          c1 = c1 + over;
          c2 = c2 + (if c1 < over then 1 else 0)
      in (c0, c1, c2))"

fun sumadd_fast :: "u64 \<Rightarrow> 'c::len acc \<Rightarrow> 'c acc" where
  "sumadd_fast a (c0, c1, c2) =
     (let c0 = c0 + a; c1 = c1 + (if c0 < a then 1 else 0) in (c0, c1, c2))"

fun extract32 :: "32 acc \<Rightarrow> u64 \<times> 32 acc" where
  "extract32 (c0, c1, c2) = (c0, (c1, ucast c2, 0))"

fun extract64 :: "64 acc \<Rightarrow> u64 \<times> 64 acc" where
  "extract64 (c0, c1, c2) = (c0, (c1, c2, 0))"

fun extract_fast :: "'c::len acc \<Rightarrow> u64 \<times> 'c acc" where
  "extract_fast (c0, c1, c2) = (c0, (c1, 0, c2))"

definition secp256k1_scalar_mul_512 :: "scalar \<Rightarrow> scalar \<Rightarrow> u64 list" where
  "secp256k1_scalar_mul_512 a b =
     (let c = muladd_fast (d0 a) (d0 b) (0, 0, 0);
          (l0, c) = extract_fast c;
          c = muladd (d1 a) (d0 b) (muladd (d0 a) (d1 b) c);
          (l1, c) = extract32 c;
          c = muladd (d2 a) (d0 b) (muladd (d1 a) (d1 b) (muladd (d0 a) (d2 b) c));
          (l2, c) = extract32 c;
          c = muladd (d3 a) (d0 b) (muladd (d2 a) (d1 b)
                (muladd (d1 a) (d2 b) (muladd (d0 a) (d3 b) c)));
          (l3, c) = extract32 c;
          c = muladd (d3 a) (d1 b) (muladd (d2 a) (d2 b) (muladd (d1 a) (d3 b) c));
          (l4, c) = extract32 c;
          c = muladd (d3 a) (d2 b) (muladd (d2 a) (d3 b) c);
          (l5, c) = extract32 c;
          c = muladd_fast (d3 a) (d3 b) c;
          (l6, c) = extract_fast c;
          l7 = fst c
      in [l0, l1, l2, l3, l4, l5, l6, l7])"

definition secp256k1_scalar_sqr_512 :: "scalar \<Rightarrow> u64 list" where
  "secp256k1_scalar_sqr_512 a =
     (let c = muladd_fast (d0 a) (d0 a) (0, 0, 0);
          (l0, c) = extract_fast c;
          c = muladd2 (d0 a) (d1 a) c;
          (l1, c) = extract32 c;
          c = muladd (d1 a) (d1 a) (muladd2 (d0 a) (d2 a) c);
          (l2, c) = extract32 c;
          c = muladd2 (d1 a) (d2 a) (muladd2 (d0 a) (d3 a) c);
          (l3, c) = extract32 c;
          c = muladd (d2 a) (d2 a) (muladd2 (d1 a) (d3 a) c);
          (l4, c) = extract32 c;
          c = muladd2 (d2 a) (d3 a) c;
          (l5, c) = extract32 c;
          c = muladd_fast (d3 a) (d3 a) c;
          (l6, c) = extract_fast c;
          l7 = fst c
      in [l0, l1, l2, l3, l4, l5, l6, l7])"

text \<open>
  \<open>reduce_512\<close> in its three passes: 512 bits into 385 (\<open>m\<close>), 385 into 258 (\<open>p\<close>),
  258 into 256 and a carry, then the final conditional subtraction.
\<close>

definition reduce_512_m :: "u64 list \<Rightarrow> u64 list \<times> u32" where
  "reduce_512_m l =
     (let n0 = l ! 4; n1 = l ! 5; n2 = l ! 6; n3 = l ! 7;
          c = (l ! 0, 0, 0);
          c = muladd_fast n0 SECP256K1_N_C_0 c;
          (m0, c) = extract_fast c;
          c = sumadd_fast (l ! 1) c;
          c = muladd n0 SECP256K1_N_C_1 (muladd n1 SECP256K1_N_C_0 c);
          (m1, c) = extract64 c;
          c = sumadd n0 (muladd n1 SECP256K1_N_C_1 (muladd n2 SECP256K1_N_C_0 (sumadd (l ! 2) c)));
          (m2, c) = extract64 c;
          c = sumadd n1 (muladd n2 SECP256K1_N_C_1 (muladd n3 SECP256K1_N_C_0 (sumadd (l ! 3) c)));
          (m3, c) = extract64 c;
          c = sumadd n2 (muladd n3 SECP256K1_N_C_1 c);
          (m4, c) = extract64 c;
          c = sumadd_fast n3 c;
          (m5, c) = extract_fast c;
          m6 = ucast (fst c)
      in ([m0, m1, m2, m3, m4, m5], m6))"

definition reduce_512_p :: "u64 list \<times> u32 \<Rightarrow> u64 list \<times> u32" where
  "reduce_512_p mm =
     (let (m, m6) = mm; m4 = m ! 4; m5 = m ! 5;
          c = (m ! 0, 0, 0 :: u64);
          c = muladd_fast m4 SECP256K1_N_C_0 c;
          (p0, c) = extract_fast c;
          c = sumadd_fast (m ! 1) c;
          c = muladd m4 SECP256K1_N_C_1 (muladd m5 SECP256K1_N_C_0 c);
          (p1, c) = extract64 c;
          c = sumadd m4 (muladd m5 SECP256K1_N_C_1
                (muladd (ucast m6) SECP256K1_N_C_0 (sumadd (m ! 2) c)));
          (p2, c) = extract64 c;
          c = sumadd_fast m5 (muladd_fast (ucast m6) SECP256K1_N_C_1 (sumadd_fast (m ! 3) c));
          (p3, c) = extract_fast c;
          p4 = ucast (fst c + ucast m6)
      in ([p0, p1, p2, p3], p4))"

definition reduce_512_r :: "u64 list \<times> u32 \<Rightarrow> scalar \<times> u128" where
  "reduce_512_r pp =
     (let (p, p4) = pp;
          c = wide (p ! 0) + wide SECP256K1_N_C_0 * ucast p4;
          r0 = lo64 c; c = drop_bit 64 c;
          c = c + (wide (p ! 1) + wide SECP256K1_N_C_1 * ucast p4);
          r1 = lo64 c; c = drop_bit 64 c;
          c = c + (wide (p ! 2) + ucast p4);
          r2 = lo64 c; c = drop_bit 64 c;
          c = c + wide (p ! 3);
          r3 = lo64 c; c = drop_bit 64 c
      in (\<lparr>d0 = r0, d1 = r1, d2 = r2, d3 = r3\<rparr>, c))"

definition secp256k1_scalar_reduce_512 :: "u64 list \<Rightarrow> scalar" where
  "secp256k1_scalar_reduce_512 l =
     (let (r, c) = reduce_512_r (reduce_512_p (reduce_512_m l))
      in secp256k1_scalar_reduce r (ucast (c + of_bool (secp256k1_scalar_check_overflow r))))"

definition secp256k1_scalar_mul :: "scalar \<Rightarrow> scalar \<Rightarrow> scalar" where
  "secp256k1_scalar_mul a b = secp256k1_scalar_reduce_512 (secp256k1_scalar_mul_512 a b)"

definition secp256k1_scalar_sqr :: "scalar \<Rightarrow> scalar" where
  "secp256k1_scalar_sqr a = secp256k1_scalar_reduce_512 (secp256k1_scalar_sqr_512 a)"

end
