(* ===== verification/Scalar_4x64_Correct.thy ===== *)
theory Scalar_4x64_Correct
  imports Scalar_4x64
begin

text \<open>
  What the scalar routines compute: arithmetic modulo the group order \<open>N\<close>.
  Each carry chain is read as a chain of natural numbers (\<open>carry4\<close>), each
  accumulator macro as an addition to the number its three words stand for.
\<close>

section \<open>Values\<close>

abbreviation B64 :: nat where
  "B64 \<equiv> 2 ^ 64"

definition sval :: "scalar \<Rightarrow> nat" where
  "sval a = unat (d0 a) + B64 * unat (d1 a) + B64 ^ 2 * unat (d2 a) + B64 ^ 3 * unat (d3 a)"

lemma scalar_eta [simp]: "\<lparr>d0 = d0 a, d1 = d1 a, d2 = d2 a, d3 = d3 a\<rparr> = a"
  by (cases a) simp

definition secp256k1_n :: nat where
  "secp256k1_n = 0xFFFFFFFFFFFFFFFFFFFFFFFFFFFFFFFEBAAEDCE6AF48A03BBFD25E8CD0364141"

definition scalar_ok :: "scalar \<Rightarrow> bool" where
  "scalar_ok a = (sval a < secp256k1_n)"

lemmas order_limbs = SECP256K1_N_0_def SECP256K1_N_1_def SECP256K1_N_2_def SECP256K1_N_3_def

lemma unat64_lt: "unat (x :: u64) < B64"
  using unsigned_less [of x] by simp

lemma unat_wide [word_nat]: "unat (wide x) = unat x"
proof -
  have "unat x < 2 ^ 128"
    using unat64_lt [of x] by (rule order.strict_trans) simp
  then show ?thesis by (simp add: wide_def unsigned_ucast_eq take_bit_nat_eq_self)
qed

lemma mask64: "(0xFFFFFFFFFFFFFFFF :: u128) = mask 64"
  by (simp add: mask_eq_exp_minus_1)

lemma unat_lo64 [word_nat]: "unat (lo64 t) = unat t mod B64"
  unfolding lo64_def mask64 by (simp add: unsigned_ucast_eq unat_and_mask_eq take_bit_eq_mod)

lemma sval_lt: "sval a < 2 ^ 256"
  using unat64_lt [of "d0 a"] unat64_lt [of "d1 a"] unat64_lt [of "d2 a"] unat64_lt [of "d3 a"]
  by (simp add: sval_def)

lemma unat_drop64_lt: "unat (drop_bit 64 (t :: u128)) < B64"
proof -
  have "unat t < 2 ^ 128"
    using unsigned_less [of t, where 'a=nat] by simp
  then have "unat t < B64 * B64" by simp
  then show ?thesis
    unfolding unat_drop_bit_div by (rule less_mult_imp_div_less)
qed

text \<open>A chain of four limb additions is one addition with a carry out.\<close>

lemma carry4:
  fixes B :: nat
  assumes "t1 = t0 div B + s1" and "t2 = t1 div B + s2" and "t3 = t2 div B + s3"
  shows "t0 + B * s1 + B ^ 2 * s2 + B ^ 3 * s3 =
    t0 mod B + B * (t1 mod B) + B ^ 2 * (t2 mod B) + B ^ 3 * (t3 mod B) + B ^ 4 * (t3 div B)"
proof -
  have e: "t = t mod B + B * (t div B)" for t by simp
  define q0 m0 q1 m1 q2 m2 q3 m3 where qm: "q0 = t0 div B" "m0 = t0 mod B" "q1 = t1 div B"
    "m1 = t1 mod B" "q2 = t2 div B" "m2 = t2 mod B" "q3 = t3 div B" "m3 = t3 mod B"
  have "t0 = m0 + B * q0" "q0 + s1 = m1 + B * q1" "q1 + s2 = m2 + B * q2" "q2 + s3 = m3 + B * q3"
    using e [of t0] e [of t1] e [of t2] e [of t3] assms unfolding qm by auto
  then have "t0 + B * s1 + B ^ 2 * s2 + B ^ 3 * s3 =
      m0 + B * m1 + B ^ 2 * m2 + B ^ 3 * m3 + B ^ 4 * q3"
    by algebra
  then show ?thesis unfolding qm .
qed


section \<open>Reduction and addition\<close>

lemma order_C: "unat SECP256K1_N_C_0 = 0x402DA1732FC9BEBF" "unat SECP256K1_N_C_1 = 0x4551231950B75FC4"
  "unat SECP256K1_N_C_2 = 1"
  by (simp_all add: SECP256K1_N_C_0_def SECP256K1_N_C_1_def SECP256K1_N_C_2_def order_limbs)

lemma order_sum:
  "secp256k1_n + (unat SECP256K1_N_C_0 + B64 * unat SECP256K1_N_C_1 + B64 ^ 2 * unat SECP256K1_N_C_2)
     = 2 ^ 256"
  by (simp add: order_C secp256k1_n_def)

definition n_compl :: nat where
  "n_compl = 2 ^ 256 - secp256k1_n"

lemma n_compl_eq:
  "n_compl = unat SECP256K1_N_C_0 + B64 * unat SECP256K1_N_C_1 + B64 ^ 2 * unat SECP256K1_N_C_2"
  using order_sum by (simp add: n_compl_def)

lemma unat_t_add:
  assumes "unat t < 2 ^ 127" "unat x < 2 ^ 126" "unat y < 2 ^ 126"
  shows "unat (t + (x + y) :: u128) = unat t + (unat x + unat y)"
proof -
  have "unat (x + y) = unat x + unat y"
    using assms by (intro unat_add_no_overflow) simp
  then show ?thesis
    using assms by (subst unat_add_no_overflow) simp_all
qed

text \<open>
  The chain shared by the additions: four limb sums, the low words kept, the carries passed on.
\<close>

lemma add_chain:
  fixes x0 x1 x2 x3 y0 y1 y2 y3 :: u64
  defines "t0 \<equiv> wide x0 + wide y0"
  defines "t1 \<equiv> drop_bit 64 t0 + (wide x1 + wide y1)"
  defines "t2 \<equiv> drop_bit 64 t1 + (wide x2 + wide y2)"
  defines "t3 \<equiv> drop_bit 64 t2 + (wide x3 + wide y3)"
  shows "sval \<lparr>d0 = x0, d1 = x1, d2 = x2, d3 = x3\<rparr> + sval \<lparr>d0 = y0, d1 = y1, d2 = y2, d3 = y3\<rparr> =
    sval \<lparr>d0 = lo64 t0, d1 = lo64 t1, d2 = lo64 t2, d3 = lo64 t3\<rparr> + 2 ^ 256 * unat (drop_bit 64 t3)"
proof -
  note lt = unat64_lt [of x0] unat64_lt [of y0] unat64_lt [of x1] unat64_lt [of y1]
    unat64_lt [of x2] unat64_lt [of y2] unat64_lt [of x3] unat64_lt [of y3]
  have wide_lt: "unat (wide x) < 2 ^ 126" for x
    using unat64_lt [of x] by (simp add: unat_wide)
  have shift_lt: "unat (drop_bit 64 (t :: u128)) < 2 ^ 127" for t
    using unat_drop64_lt [of t] by simp
  have u0: "unat t0 = unat x0 + unat y0"
    unfolding t0_def using lt by (subst unat_add_no_overflow) (simp_all add: unat_wide)
  have u1: "unat t1 = unat t0 div B64 + (unat x1 + unat y1)"
    unfolding t1_def by (subst unat_t_add [OF shift_lt wide_lt wide_lt]) (simp only: unat_wide unat_drop_bit_div)
  have u2: "unat t2 = unat t1 div B64 + (unat x2 + unat y2)"
    unfolding t2_def by (subst unat_t_add [OF shift_lt wide_lt wide_lt]) (simp only: unat_wide unat_drop_bit_div)
  have u3: "unat t3 = unat t2 div B64 + (unat x3 + unat y3)"
    unfolding t3_def by (subst unat_t_add [OF shift_lt wide_lt wide_lt]) (simp only: unat_wide unat_drop_bit_div)
  from carry4 [OF u1 u2 u3] show ?thesis
    by (simp add: sval_def unat_lo64 u0 unat_drop_bit_div algebra_simps)
qed


text \<open>Comparisons limb by limb: the value as a nest of digits.\<close>

lemma sval_nest: "sval a = unat (d0 a) + (unat (d1 a) + (unat (d2 a) + unat (d3 a) * B64) * B64) * B64"
  by (simp add: sval_def algebra_simps)

lemma sval_less_iff:
  "(sval a < sval b) = (if d3 a \<noteq> d3 b then d3 a < d3 b else if d2 a \<noteq> d2 b then d2 a < d2 b
     else if d1 a \<noteq> d1 b then d1 a < d1 b else d0 a < d0 b)"
  unfolding sval_nest word_less_nat_alt word_unat_eq_iff
  by (simp only: digit_less [OF unat64_lt unat64_lt] digit_eq [OF unat64_lt unat64_lt]) auto

lemma sval_inject: "(sval a = sval b) = (a = b)"
proof
  assume "sval a = sval b"
  then have "d0 a = d0 b \<and> d1 a = d1 b \<and> d2 a = d2 b \<and> d3 a = d3 b"
    unfolding sval_nest word_unat_eq_iff by (simp only: digit_eq [OF unat64_lt unat64_lt])
  then show "a = b" by (cases a, cases b) simp
qed simp

definition scalar_n :: scalar where
  "scalar_n = \<lparr>d0 = SECP256K1_N_0, d1 = SECP256K1_N_1, d2 = SECP256K1_N_2, d3 = SECP256K1_N_3\<rparr>"

lemma sval_n: "sval scalar_n = secp256k1_n"
  by (simp add: scalar_n_def sval_def order_limbs secp256k1_n_def)

lemma check_overflow_iff: "secp256k1_scalar_check_overflow a = (secp256k1_n \<le> sval a)"
proof -
  have top: "\<not> SECP256K1_N_3 < x" for x
    using unat64_lt [of x] by (simp add: SECP256K1_N_3_def word_less_nat_alt)
  have "secp256k1_scalar_check_overflow a = (\<not> sval a < sval scalar_n)"
    unfolding sval_less_iff using top [of "d3 a"]
    by (auto simp: secp256k1_scalar_check_overflow_def scalar_n_def Let_def)
  then show ?thesis by (simp add: sval_n not_less)
qed


lemma reduce_val:
  assumes "ov \<le> 1"
  shows "sval (secp256k1_scalar_reduce r ov) = (sval r + unat ov * n_compl) mod 2 ^ 256"
proof -
  define y :: scalar where "y = \<lparr>d0 = ucast ov * SECP256K1_N_C_0, d1 = ucast ov * SECP256K1_N_C_1,
    d2 = ucast ov * SECP256K1_N_C_2, d3 = 0\<rparr>"
  have ov: "ov = 0 \<or> ov = 1" using assms by (simp add: word_le_nat_alt word_unat_eq_iff) linarith
  then have y: "sval y = unat ov * n_compl"
    by (auto simp: y_def sval_def n_compl_eq)
  have "wide 0 = 0" by (simp add: wide_def)
  then obtain c where "sval r + sval y = sval (secp256k1_scalar_reduce r ov) + 2 ^ 256 * c"
    using add_chain [of "d0 r" "d1 r" "d2 r" "d3 r" "d0 y" "d1 y" "d2 y" "d3 y"]
    by (cases r) (simp add: secp256k1_scalar_reduce_def Let_def y_def)
  then show ?thesis
    using sval_lt [of "secp256k1_scalar_reduce r ov"] y by (metis mod_less mod_mult_self2)
qed

lemma n_bounds: "secp256k1_n < 2 ^ 256" "2 ^ 255 < secp256k1_n" "n_compl < 2 ^ 255"
  by (simp_all add: secp256k1_n_def n_compl_def)

lemma reduce_once:
  assumes S: "S = sval r + 2 ^ 256 * c" and lt: "S < 2 * secp256k1_n"
    and ov: "ov = of_bool (secp256k1_n \<le> S)"
  shows "sval (secp256k1_scalar_reduce r ov) = S mod secp256k1_n"
proof (cases "secp256k1_n \<le> S")
  case True
  then have mod: "S mod secp256k1_n = S - secp256k1_n"
    using lt by (simp add: le_mod_geq)
  have "sval r + n_compl = S - secp256k1_n + 2 ^ 256 \<and> c = 0 \<or>
        sval r + n_compl = S - secp256k1_n \<and> c = 1"
  proof -
    have "c < 2" using S lt n_bounds(1) by simp
    then consider "c = 0" | "c = 1" by linarith
    then show ?thesis
      using S True n_bounds by cases (simp_all add: n_compl_def)
  qed
  moreover have "S - secp256k1_n < 2 ^ 256" using lt n_bounds(1) by linarith
  ultimately have "(sval r + n_compl) mod 2 ^ 256 = S - secp256k1_n" by auto
  then show ?thesis
    using True mod by (simp add: reduce_val ov)
next
  case False
  then have "c = 0" using S n_bounds(1) by (cases c) simp_all
  then show ?thesis
    using False S sval_lt [of r] by (simp add: reduce_val ov)
qed

lemma carry_flag:
  assumes S: "S = sval r + 2 ^ 256 * unat c" and lt: "S < 2 * secp256k1_n"
  shows "(ucast (c + of_bool (secp256k1_scalar_check_overflow r) :: u128) :: u32)
           = of_bool (secp256k1_n \<le> S)"
proof -
  have "unat c < 2" using S lt n_bounds(1) by simp
  then consider "c = 0" | "c = 1"
    by (metis One_nat_def less_2_cases unat_0 unat_1 word_unat_eq_iff)
  then show ?thesis
  proof cases
    case 1
    then show ?thesis using S by (simp add: check_overflow_iff)
  next
    case 2
    then have "S = sval r + 2 ^ 256" using S by simp
    moreover from this have "sval r < secp256k1_n" using lt n_bounds by linarith
    ultimately show ?thesis using 2 n_bounds(1) by (simp add: check_overflow_iff not_le)
  qed
qed

text \<open>
  scalar addition: for inputs below the group order the result is the sum modulo the
  order, again below the order, and the returned flag says whether a reduction took place.
\<close>

theorem scalar_add_correct:
  assumes "scalar_ok a" and "scalar_ok b"
  shows "sval (fst (secp256k1_scalar_add a b)) = (sval a + sval b) mod secp256k1_n \<and>
         scalar_ok (fst (secp256k1_scalar_add a b)) \<and>
         snd (secp256k1_scalar_add a b) = of_bool (secp256k1_n \<le> sval a + sval b)"
proof -
  have lt: "sval a + sval b < 2 * secp256k1_n"
    using assms by (simp add: scalar_ok_def)
  define t0 where "t0 = wide (d0 a) + wide (d0 b)"
  define t1 where "t1 = drop_bit 64 t0 + (wide (d1 a) + wide (d1 b))"
  define t2 where "t2 = drop_bit 64 t1 + (wide (d2 a) + wide (d2 b))"
  define t3 where "t3 = drop_bit 64 t2 + (wide (d3 a) + wide (d3 b))"
  define r where "r = \<lparr>d0 = lo64 t0, d1 = lo64 t1, d2 = lo64 t2, d3 = lo64 t3\<rparr>"
  define c where "c = drop_bit 64 t3"
  have add: "secp256k1_scalar_add a b =
      (secp256k1_scalar_reduce r (ucast (c + of_bool (secp256k1_scalar_check_overflow r))),
       ucast (c + of_bool (secp256k1_scalar_check_overflow r)))"
    by (simp add: secp256k1_scalar_add_def Let_def r_def c_def t3_def t2_def t1_def t0_def)
  have S: "sval a + sval b = sval r + 2 ^ 256 * unat c"
    using add_chain [of "d0 a" "d1 a" "d2 a" "d3 a" "d0 b" "d1 b" "d2 b" "d3 b",
        folded t0_def, folded t1_def, folded t2_def, folded t3_def, folded r_def c_def]
    by simp
  have ov: "(ucast (c + of_bool (secp256k1_scalar_check_overflow r) :: u128) :: u32)
      = of_bool (secp256k1_n \<le> sval a + sval b)"
    by (rule carry_flag [OF S lt])
  have "sval (fst (secp256k1_scalar_add a b)) = (sval a + sval b) mod secp256k1_n"
    unfolding add fst_conv by (rule reduce_once [OF S lt ov])
  moreover have "(sval a + sval b) mod secp256k1_n < secp256k1_n"
    by (rule mod_less_divisor) (simp add: secp256k1_n_def)
  ultimately show ?thesis by (simp add: scalar_ok_def add ov)
qed


theorem scalar_add_correct_witness:
  "sval (fst (secp256k1_scalar_add \<lparr>d0 = 5, d1 = 0, d2 = 0, d3 = 1\<rparr> \<lparr>d0 = 7, d1 = 1, d2 = 0, d3 = 0\<rparr>)) =
     (sval \<lparr>d0 = 5, d1 = 0, d2 = 0, d3 = 1\<rparr> + sval \<lparr>d0 = 7, d1 = 1, d2 = 0, d3 = 0\<rparr>) mod secp256k1_n"
  by (rule conjunct1 [OF scalar_add_correct]) (simp_all add: scalar_ok_def sval_def secp256k1_n_def)

section \<open>Predicates and negation\<close>

lemma scalar_is_zero_iff: "secp256k1_scalar_is_zero a = (sval a = 0)"
  by (auto simp: secp256k1_scalar_is_zero_def sval_def or_eq_0_iff unat_eq_zero)

lemma scalar_is_one_iff: "secp256k1_scalar_is_one a = (sval a = 1)"
proof -
  have "(sval a = 1) = (a = \<lparr>d0 = 1, d1 = 0, d2 = 0, d3 = 0\<rparr>)"
    by (subst sval_inject [symmetric]) (simp add: sval_def)
  then show ?thesis
    by (cases a) (auto simp: secp256k1_scalar_is_one_def or_eq_0_iff word_xor_eq_0_iff)
qed

lemma scalar_eq_iff: "secp256k1_scalar_eq a b = (sval a = sval b)"
  unfolding sval_inject by (cases a, cases b)
    (auto simp: secp256k1_scalar_eq_def or_eq_0_iff word_xor_eq_0_iff)

definition scalar_half :: scalar where
  "scalar_half = \<lparr>d0 = SECP256K1_N_H_0, d1 = SECP256K1_N_H_1, d2 = SECP256K1_N_H_2,
     d3 = SECP256K1_N_H_3\<rparr>"

lemma sval_half: "sval scalar_half = secp256k1_n div 2"
  by (simp add: scalar_half_def sval_def secp256k1_n_def SECP256K1_N_H_0_def SECP256K1_N_H_1_def
      SECP256K1_N_H_2_def SECP256K1_N_H_3_def)

text \<open>
  \<open>secp256k1_scalar_is_high\<close>, which the signer uses to choose the low-S form,
  says exactly that the scalar is above half of the group order.
\<close>

theorem scalar_is_high_correct: "secp256k1_scalar_is_high a = (secp256k1_n div 2 < sval a)"
proof -
  have top: "\<not> SECP256K1_N_H_2 < x" for x
    using unat64_lt [of x] by (simp add: SECP256K1_N_H_2_def word_less_nat_alt)
  have "secp256k1_scalar_is_high a = (sval scalar_half < sval a)"
    unfolding sval_less_iff using top [of "d2 a"]
    by (auto simp: secp256k1_scalar_is_high_def scalar_half_def Let_def)
  then show ?thesis by (simp add: sval_half)
qed


text \<open>Complementing every limb subtracts from \<open>2 ^ 256 - 1\<close>.\<close>

lemma unat_not: "unat (NOT x :: u64) = B64 - 1 - unat x"
proof -
  have m1: "unat (- 1 :: u64) = B64 - 1" by (simp add: unsigned_minus_1_eq_mask mask_eq_exp_minus_1)
  have "NOT x = - 1 - x" by (simp add: not_eq_complement)
  moreover have "unat (- 1 - x) = unat (- 1 :: u64) - unat x"
    by (rule unat_sub_no_underflow) (use unat64_lt [of x] m1 in simp)
  ultimately show ?thesis using m1 by simp
qed

lemma sval_not:
  "sval \<lparr>d0 = NOT (d0 a), d1 = NOT (d1 a), d2 = NOT (d2 a), d3 = NOT (d3 a)\<rparr> + sval a = 2 ^ 256 - 1"
  using unat64_lt [of "d0 a"] unat64_lt [of "d1 a"] unat64_lt [of "d2 a"] unat64_lt [of "d3 a"]
  by (simp add: sval_def unat_not)

lemma and_all_ones: "(ucast (t AND wide 0xFFFFFFFFFFFFFFFF) :: u64) = lo64 t"
  by (simp add: lo64_def wide_def)


lemma and_zero: "(ucast (t AND wide 0) :: u64) = 0"
  by (simp add: wide_def)

definition scalar_n1 :: scalar where
  "scalar_n1 = \<lparr>d0 = SECP256K1_N_0 + 1, d1 = SECP256K1_N_1, d2 = SECP256K1_N_2, d3 = SECP256K1_N_3\<rparr>"

lemma sval_n1: "sval scalar_n1 = secp256k1_n + 1"
  by (simp add: scalar_n1_def sval_def order_limbs secp256k1_n_def)

lemma wide_n0: "wide (NOT x) + wide SECP256K1_N_0 + 1 = wide (NOT x) + wide (SECP256K1_N_0 + 1)"
  by (simp add: wide_def order_limbs)

text \<open>The complement chain: adding \<open>N + 1\<close> to the complement leaves \<open>N - a\<close>.\<close>

lemma negate_chain:
  assumes "sval a \<le> secp256k1_n"
  defines "t0 \<equiv> wide (NOT (d0 a)) + wide (SECP256K1_N_0 + 1)"
  defines "t1 \<equiv> drop_bit 64 t0 + (wide (NOT (d1 a)) + wide SECP256K1_N_1)"
  defines "t2 \<equiv> drop_bit 64 t1 + (wide (NOT (d2 a)) + wide SECP256K1_N_2)"
  defines "t3 \<equiv> drop_bit 64 t2 + (wide (NOT (d3 a)) + wide SECP256K1_N_3)"
  shows "sval \<lparr>d0 = lo64 t0, d1 = lo64 t1, d2 = lo64 t2, d3 = lo64 t3\<rparr> = secp256k1_n - sval a"
proof -
  let ?na = "\<lparr>d0 = NOT (d0 a), d1 = NOT (d1 a), d2 = NOT (d2 a), d3 = NOT (d3 a)\<rparr>"
  let ?r = "\<lparr>d0 = lo64 t0, d1 = lo64 t1, d2 = lo64 t2, d3 = lo64 t3\<rparr>"
  have chain: "sval ?na + sval scalar_n1 = sval ?r + 2 ^ 256 * unat (drop_bit 64 t3)"
    using add_chain [of "NOT (d0 a)" "NOT (d1 a)" "NOT (d2 a)" "NOT (d3 a)" "SECP256K1_N_0 + 1"
        SECP256K1_N_1 SECP256K1_N_2 SECP256K1_N_3, folded t0_def, folded t1_def, folded t2_def,
        folded t3_def]
    by (simp add: scalar_n1_def)
  have "sval ?na + sval scalar_n1 = 2 ^ 256 + (secp256k1_n - sval a)"
    using sval_not [of a] assms(1) sval_lt [of a] by (simp add: sval_n1)
  then have "sval ?r + 2 ^ 256 * unat (drop_bit 64 t3) = 2 ^ 256 + (secp256k1_n - sval a)"
    using chain by simp
  then have "sval ?r mod 2 ^ 256 = (secp256k1_n - sval a) mod 2 ^ 256"
    by (metis mod_add_self1 mod_mult_self2)
  moreover have "secp256k1_n - sval a < 2 ^ 256" using n_bounds(1) by linarith
  ultimately show ?thesis using sval_lt [of ?r] by simp
qed

text \<open>
  scalar negation: the result is the additive inverse modulo the group order, and
  zero stays zero.
\<close>

theorem scalar_negate_correct:
  assumes "scalar_ok a"
  shows "sval (secp256k1_scalar_negate a) = (secp256k1_n - sval a) mod secp256k1_n \<and>
         (sval a + sval (secp256k1_scalar_negate a)) mod secp256k1_n = 0"
proof -
  have "sval (secp256k1_scalar_negate a) = (secp256k1_n - sval a) mod secp256k1_n"
  proof (cases "sval a = 0")
    case True
    then have "secp256k1_scalar_is_zero a" by (simp add: scalar_is_zero_iff)
    then show ?thesis
      using True by (simp add: secp256k1_scalar_negate_def Let_def and_zero sval_def)
  next
    case False
    then have nz: "\<not> secp256k1_scalar_is_zero a" by (simp add: scalar_is_zero_iff)
    have le: "sval a \<le> secp256k1_n" using assms by (simp add: scalar_ok_def)
    have "sval (secp256k1_scalar_negate a) = secp256k1_n - sval a"
      using negate_chain [OF le] nz
      by (simp add: secp256k1_scalar_negate_def Let_def and_all_ones wide_n0)
    moreover have "secp256k1_n - sval a < secp256k1_n"
      using False le by linarith
    ultimately show ?thesis by simp
  qed
  moreover have "(sval a + (secp256k1_n - sval a) mod secp256k1_n) mod secp256k1_n = 0"
    using assms by (simp add: scalar_ok_def mod_add_right_eq)
  ultimately show ?thesis by simp
qed

theorem scalar_negate_correct_witness:
  "sval (secp256k1_scalar_negate \<lparr>d0 = 5, d1 = 0, d2 = 0, d3 = 0\<rparr>) =
     (secp256k1_n - sval \<lparr>d0 = 5, d1 = 0, d2 = 0, d3 = 0\<rparr>) mod secp256k1_n"
  by (rule conjunct1 [OF scalar_negate_correct]) (simp add: scalar_ok_def sval_def secp256k1_n_def)


section \<open>Conversion to and from 32 bytes\<close>

lemma list_8: "length b = 8 \<Longrightarrow> b = [b ! 0, b ! 1, b ! 2, b ! 3, b ! 4, b ! 5, b ! 6, b ! 7]"
  by (intro nth_equalityI) (auto simp: less_Suc_eq numeral_eq_Suc)

lemma be_limb_val:
  assumes "length b = 8"
  shows "unat (be_limb b) = of_be b"
proof -
  have "be_limb b = fold (\<lambda>b x. push_bit 8 x OR ucast b) b 0"
    by (subst (2) list_8 [OF assms]) (simp add: be_limb_def push_bit_or ac_simps)
  then have "be_limb b = word_of_nat (of_be b)" by (simp only: fold_shift_or_be)
  moreover have "of_be b < B64" using of_be_bound [of b] assms by simp
  ultimately show ?thesis by (simp add: unat_of_nat)
qed

lemma ucast_byte: "(ucast (drop_bit k (d :: u64)) :: u8) = word_of_nat (unat d div 2 ^ k)"
  by (rule unsigned_word_eqI [where 'a=nat])
    (simp add: unsigned_ucast_eq unat_drop_bit_div unat_of_nat take_bit_eq_mod)

lemma limb_bytes_be: "limb_bytes d = to_be 8 (unat d)"
  using ucast_byte [of 0 d] by (simp add: limb_bytes_def to_be_def to_le_8 ucast_byte)

lemma get_b32_val: "of_be (secp256k1_scalar_get_b32 a) = sval a"
  using unat64_lt [of "d0 a"] unat64_lt [of "d1 a"] unat64_lt [of "d2 a"] unat64_lt [of "d3 a"]
  by (simp add: secp256k1_scalar_get_b32_def limb_bytes_be of_be_append of_be_to_be sval_def)

lemma length_get_b32: "length (secp256k1_scalar_get_b32 a) = 32"
  by (simp add: secp256k1_scalar_get_b32_def limb_bytes_def)

lemma split_32:
  assumes "length b = 32"
  shows "b = take 8 b @ take 8 (drop 8 b) @ take 8 (drop 16 b) @ take 8 (drop 24 b)"
  using append_take_drop_id [of 8 b] append_take_drop_id [of 8 "drop 8 b"]
    append_take_drop_id [of 8 "drop 16 b"] assms by simp

lemma set_b32_raw:
  assumes "length b = 32"
  shows "sval \<lparr>d0 = be_limb (take 8 (drop 24 b)), d1 = be_limb (take 8 (drop 16 b)),
     d2 = be_limb (take 8 (drop 8 b)), d3 = be_limb (take 8 b)\<rparr> = of_be b"
proof -
  have "of_be b = of_be (take 8 b @ take 8 (drop 8 b) @ take 8 (drop 16 b) @ take 8 (drop 24 b))"
    using split_32 [OF assms] by simp
  then show ?thesis
    using assms by (simp add: sval_def be_limb_val of_be_append)
qed

lemma set_b32_val:
  assumes "length b = 32"
  shows "sval (fst (secp256k1_scalar_set_b32 b)) = of_be b mod secp256k1_n \<and>
         scalar_ok (fst (secp256k1_scalar_set_b32 b)) \<and>
         snd (secp256k1_scalar_set_b32 b) = (secp256k1_n \<le> of_be b)"
proof -
  define r where "r = \<lparr>d0 = be_limb (take 8 (drop 24 b)), d1 = be_limb (take 8 (drop 16 b)),
     d2 = be_limb (take 8 (drop 8 b)), d3 = be_limb (take 8 b)\<rparr>"
  have r: "sval r = of_be b" unfolding r_def by (rule set_b32_raw [OF assms])
  have eq: "secp256k1_scalar_set_b32 b =
      (secp256k1_scalar_reduce r (of_bool (secp256k1_n \<le> of_be b)), secp256k1_n \<le> of_be b)"
    by (simp add: secp256k1_scalar_set_b32_def r_def [symmetric] check_overflow_iff r)
  have "sval (secp256k1_scalar_reduce r (of_bool (secp256k1_n \<le> of_be b))) = of_be b mod secp256k1_n"
    by (rule reduce_once [of _ r 0]) (use r sval_lt [of r] n_bounds in simp_all)
  moreover have "of_be b mod secp256k1_n < secp256k1_n"
    by (rule mod_less_divisor) (simp add: secp256k1_n_def)
  ultimately show ?thesis by (simp add: eq scalar_ok_def)
qed

text \<open>
  parsing 32 big-endian bytes: the scalar is the number they encode modulo the group
  order, below the order, and the overflow flag says whether the number reached the order.
\<close>

theorem scalar_set_b32_correct:
  assumes "length b = 32"
  shows "sval (fst (secp256k1_scalar_set_b32 b)) = of_be b mod secp256k1_n \<and>
         scalar_ok (fst (secp256k1_scalar_set_b32 b)) \<and>
         snd (secp256k1_scalar_set_b32 b) = (secp256k1_n \<le> of_be b)"
  using assms by (rule set_b32_val)

theorem scalar_set_b32_correct_witness:
  "snd (secp256k1_scalar_set_b32 (replicate 32 255)) = (secp256k1_n \<le> of_be (replicate 32 255))"
  using scalar_set_b32_correct [of "replicate 32 255"] by simp

text \<open>
  writing a scalar below the group order as 32 bytes and parsing them gives the scalar
  back with no overflow.
\<close>

theorem scalar_b32_roundtrip:
  assumes "scalar_ok a"
  shows "secp256k1_scalar_set_b32 (secp256k1_scalar_get_b32 a) = (a, False)"
proof -
  note set = set_b32_val [OF length_get_b32, of a]
  have "sval (fst (secp256k1_scalar_set_b32 (secp256k1_scalar_get_b32 a))) = sval a"
    using set assms by (simp add: get_b32_val scalar_ok_def)
  then have "fst (secp256k1_scalar_set_b32 (secp256k1_scalar_get_b32 a)) = a"
    by (simp only: sval_inject)
  moreover have "\<not> snd (secp256k1_scalar_set_b32 (secp256k1_scalar_get_b32 a))"
    using set assms by (simp add: get_b32_val scalar_ok_def)
  ultimately show ?thesis by (simp add: prod_eq_iff)
qed

theorem scalar_b32_roundtrip_witness:
  "secp256k1_scalar_set_b32 (secp256k1_scalar_get_b32 \<lparr>d0 = 5, d1 = 6, d2 = 7, d3 = 8\<rparr>)
     = (\<lparr>d0 = 5, d1 = 6, d2 = 7, d3 = 8\<rparr>, False)"
  by (rule scalar_b32_roundtrip) (simp add: scalar_ok_def sval_def secp256k1_n_def)


section \<open>Multiplication\<close>

fun accval :: "'c::len acc \<Rightarrow> nat" where
  "accval (c0, c1, c2) = unat c0 + B64 * unat c1 + B64 ^ 2 * unat c2"

text \<open>Unsigned wrap-around detected by comparing with an operand.\<close>

lemma carry_detect:
  fixes x y :: "'a::len word"
  shows "unat (x + y) + 2 ^ LENGTH('a) * (if x + y < y then 1 else 0) = unat x + unat y"
proof (cases "unat x + unat y < 2 ^ LENGTH('a)")
  case True
  then have "unat (x + y) = unat x + unat y" by (rule unat_add_no_overflow)
  then show ?thesis by (simp add: word_less_nat_alt)
next
  case False
  have "unat x < 2 ^ LENGTH('a)" "unat y < 2 ^ LENGTH('a)" by (rule unsigned_less)+
  then have "unat x + unat y - 2 ^ LENGTH('a) < 2 ^ LENGTH('a)" by linarith
  then have "unat (x + y) = unat x + unat y - 2 ^ LENGTH('a)"
    using False by (simp only: unat_word_ariths le_mod_geq not_less mod_less)
  moreover have "unat x + unat y - 2 ^ LENGTH('a) < unat y"
    using False \<open>unat x < 2 ^ LENGTH('a)\<close> by linarith
  ultimately show ?thesis
    using False by (simp add: word_less_nat_alt)
qed

lemma mult_bound: "x < B64 \<Longrightarrow> y < B64 \<Longrightarrow> x * y + 2 * (B64 - 1) < B64 * B64"
proof -
  assume "x < B64" "y < B64"
  then have "x * y \<le> (B64 - 1) * (B64 - 1)"
    by (intro mult_le_mono) simp_all
  moreover have "(B64 - 1) * (B64 - 1) + 2 * (B64 - 1) < B64 * B64" by simp
  ultimately show ?thesis by linarith
qed

lemma unat_wide_mult: "unat (wide a * wide b) = unat a * unat b"
proof -
  have "B64 * B64 = 2 ^ LENGTH(128)" by simp
  then have "unat (wide a) * unat (wide b) < 2 ^ LENGTH(128)"
    using mult_bound [OF unat64_lt [of a] unat64_lt [of b]] unfolding unat_wide by linarith
  then show ?thesis by (simp only: unat_mult_no_overflow unat_wide)
qed

lemma unat_lo: "unat (ucast (t :: u128) :: u64) = unat t mod B64"
  by (simp add: unsigned_ucast_eq take_bit_eq_mod)

lemma unat_hi: "unat (ucast (drop_bit 64 (t :: u128)) :: u64) = unat t div B64"
  unfolding unat_lo using unat_drop64_lt [of t] by (simp only: mod_less unat_drop_bit_div)

lemma product_split:
  fixes a b :: u64
  shows "unat (ucast (wide a * wide b) :: u64) + B64 * unat (ucast (drop_bit 64 (wide a * wide b)) :: u64)
           = unat a * unat b"
    and "unat (ucast (drop_bit 64 (wide a * wide b)) :: u64) + 1 < B64"
proof -
  show "unat (ucast (wide a * wide b) :: u64) + B64 * unat (ucast (drop_bit 64 (wide a * wide b)) :: u64)
      = unat a * unat b"
    using unat_hi [of "wide a * wide b"] unat_lo [of "wide a * wide b"] unat_wide_mult [of a b]
    by (simp only: mod_mult_div_eq)
  have "unat a * unat b + B64 < B64 * B64"
    using mult_bound [OF unat64_lt [of a] unat64_lt [of b]] by simp
  then have "(unat a * unat b + B64) div B64 < B64"
    by (rule less_mult_imp_div_less)
  then show "unat (ucast (drop_bit 64 (wide a * wide b)) :: u64) + 1 < B64"
    unfolding unat_hi unat_wide_mult by simp
qed

lemma acc_top_zero: "accval (c0, c1, c2) < B64 ^ 2 \<Longrightarrow> c2 = 0"
proof (rule ccontr)
  assume lt: "accval (c0, c1, c2) < B64 ^ 2" and nz: "c2 \<noteq> 0"
  from nz have "unat c2 \<noteq> 0" by (simp add: unat_eq_zero)
  then have "1 \<le> unat c2" by linarith
  then have "B64 ^ 2 * 1 \<le> B64 ^ 2 * unat c2" by (rule mult_le_mono2)
  then show False using lt by simp
qed

lemma unat_add_flag:
  "unat w + 1 < 2 ^ LENGTH('a) \<or> (unat w + (if P then 1 else 0) < 2 ^ LENGTH('a)) \<Longrightarrow>
   unat (w + (if P then 1 else 0) :: 'a::len word) = unat w + (if P then 1 else 0)"
  by (auto simp: unat_word_ariths)

text \<open>Adding a two-word number to the accumulator with carries.\<close>

lemma acc_add:
  fixes c0 c1 tl th :: u64 and c2 :: "'c::len word"
  assumes th: "unat th + 1 < B64"
    and bound: "accval (c0, c1, c2) + unat tl + B64 * unat th < B64 ^ 2 * 2 ^ LENGTH('c)"
  defines "th' \<equiv> th + (if c0 + tl < tl then 1 else 0)"
  shows "accval (c0 + tl, c1 + th', c2 + (if c1 + th' < th' then 1 else 0)) =
           accval (c0, c1, c2) + unat tl + B64 * unat th"
proof -
  let ?k0 = "if c0 + tl < tl then 1 else 0 :: nat" and ?k1 = "if c1 + th' < th' then 1 else 0 :: nat"
  have e0: "unat (c0 + tl) + B64 * ?k0 = unat c0 + unat tl"
    using carry_detect [of c0 tl] by simp
  have th': "unat th' = unat th + ?k0"
    unfolding th'_def using th by (subst unat_add_flag) auto
  have e1: "unat (c1 + th') + B64 * ?k1 = unat c1 + unat th'"
    using carry_detect [of c1 th'] by simp
  have sum: "unat (c0 + tl) + B64 * unat (c1 + th') + B64 ^ 2 * (unat c2 + ?k1) =
      accval (c0, c1, c2) + unat tl + B64 * unat th"
    using e0 e1 th' by (simp only: accval.simps) algebra
  then have "B64 ^ 2 * (unat c2 + ?k1) < B64 ^ 2 * 2 ^ LENGTH('c)"
    using bound by linarith
  then have "unat c2 + ?k1 < 2 ^ LENGTH('c)" by simp
  then have "unat (c2 + (if c1 + th' < th' then 1 else 0)) = unat c2 + ?k1"
    by (subst unat_add_flag) auto
  then show ?thesis using sum by simp
qed

lemma muladd_val:
  fixes c :: "'c::len acc"
  assumes "accval c + unat a * unat b < B64 ^ 2 * 2 ^ LENGTH('c)"
  shows "accval (muladd a b c) = accval c + unat a * unat b"
proof -
  obtain c0 c1 c2 where c: "c = (c0, c1, c2)" by (cases c)
  note ps = product_split [of a b]
  show ?thesis
    using acc_add [OF ps(2), of c0 c1 c2] assms ps(1) by (simp add: c Let_def)
qed

lemma sumadd_val:
  fixes c :: "'c::len acc"
  assumes "accval c + unat a < B64 ^ 2 * 2 ^ LENGTH('c)"
  shows "accval (sumadd a c) = accval c + unat a"
proof -
  obtain c0 c1 c2 where c: "c = (c0, c1, c2)" by (cases c)
  show ?thesis
    using acc_add [of 0 c0 c1 c2 a] assms by (simp add: c Let_def)
qed

lemma muladd_fast_val:
  fixes c :: "'c::len acc"
  assumes "accval c + unat a * unat b < B64 ^ 2"
  shows "accval (muladd_fast a b c) = accval c + unat a * unat b \<and>
         snd (snd (muladd_fast a b c)) = 0"
proof -
  obtain c0 c1 c2 where c: "c = (c0, c1, c2)" by (cases c)
  have c2: "c2 = 0" using assms by (intro acc_top_zero [of c0 c1]) (simp add: c)
  have full: "accval (muladd a b c) = accval c + unat a * unat b"
    by (rule muladd_val) (rule order.strict_trans2 [OF assms], simp)
  obtain e0 e1 e2 where m: "muladd a b c = (e0, e1, e2)" by (cases "muladd a b c")
  have "e2 = 0" using full assms by (intro acc_top_zero [of e0 e1]) (simp add: m)
  moreover have "muladd_fast a b c = (e0, e1, c2)"
    using m by (auto simp: c Let_def)
  ultimately show ?thesis using full m by (simp add: c2)
qed

lemma sumadd_fast_val:
  fixes c :: "'c::len acc"
  assumes "accval c + unat a < B64 ^ 2"
  shows "accval (sumadd_fast a c) = accval c + unat a \<and> snd (snd (sumadd_fast a c)) = 0"
proof -
  obtain c0 c1 c2 where c: "c = (c0, c1, c2)" by (cases c)
  have c2: "c2 = 0" using assms by (intro acc_top_zero [of c0 c1]) (simp add: c)
  have full: "accval (sumadd a c) = accval c + unat a"
    by (rule sumadd_val) (rule order.strict_trans2 [OF assms], simp)
  obtain e0 e1 e2 where m: "sumadd a c = (e0, e1, e2)" by (cases "sumadd a c")
  have "e2 = 0" using full assms by (intro acc_top_zero [of e0 e1]) (simp add: m)
  moreover have "sumadd_fast a c = (e0, e1, c2)"
    using m by (auto simp: c Let_def)
  ultimately show ?thesis using full m by (simp add: c2)
qed


lemma digit_split: "x < B \<Longrightarrow> (x + B * y) mod B = x \<and> (x + B * y) div B = y" for x y B :: nat
  by simp

lemma acc_digits:
  "accval (c0, c1, c2) mod B64 = unat c0" "accval (c0, c1, c2) div B64 = unat c1 + B64 * unat c2"
proof -
  have eq: "accval (c0, c1, c2) = unat c0 + B64 * (unat c1 + B64 * unat c2)" by simp
  show "accval (c0, c1, c2) mod B64 = unat c0" "accval (c0, c1, c2) div B64 = unat c1 + B64 * unat c2"
    unfolding eq using digit_split [OF unat64_lt [of c0]] by blast+
qed

lemma extract32_val:
  "unat (fst (extract32 c)) = accval c mod B64 \<and> accval (snd (extract32 c)) = accval c div B64"
proof -
  obtain c0 c1 c2 where c: "c = (c0, c1, c2)" by (cases c)
  have "unat c2 < 2 ^ 32" using unsigned_less [of c2, where 'a=nat] by simp
  then have "unat (ucast c2 :: u64) = unat c2"
    by (simp add: unsigned_ucast_eq take_bit_nat_eq_self)
  then have "accval (c1, ucast c2, 0 :: u32) = unat c1 + B64 * unat c2" by simp
  then show ?thesis
    by (simp only: c acc_digits extract32.simps fst_conv snd_conv)
qed

lemma extract64_val:
  "unat (fst (extract64 c)) = accval c mod B64 \<and> accval (snd (extract64 c)) = accval c div B64"
proof -
  obtain c0 c1 c2 where c: "c = (c0, c1, c2)" by (cases c)
  have "accval (c1, c2, 0 :: u64) = unat c1 + B64 * unat c2" by simp
  then show ?thesis
    by (simp only: c acc_digits extract64.simps fst_conv snd_conv)
qed

lemma extract_fast_val:
  "snd (snd c) = (0 :: 'c::len word) \<Longrightarrow> unat (fst (extract_fast c)) = accval c mod B64 \<and>
     accval (snd (extract_fast c)) = accval c div B64"
proof -
  assume top: "snd (snd c) = (0 :: 'c word)"
  obtain c0 c1 where c: "c = (c0, c1, 0)" using top by (cases c) simp
  have "accval (c1, 0, 0 :: 'c word) = unat c1 + B64 * unat (0 :: 'c word)" by simp
  then show ?thesis
    by (simp only: c acc_digits extract_fast.simps fst_conv snd_conv)
qed

definition lval :: "u64 list \<Rightarrow> nat" where
  "lval l = unat (l ! 0) + B64 * unat (l ! 1) + B64 ^ 2 * unat (l ! 2) + B64 ^ 3 * unat (l ! 3)
     + B64 ^ 4 * unat (l ! 4) + B64 ^ 5 * unat (l ! 5) + B64 ^ 6 * unat (l ! 6) + B64 ^ 7 * unat (l ! 7)"

text \<open>Seven columns of a long multiplication with their carries.\<close>

lemma columns7:
  fixes B :: nat
  assumes "v1 = v0 div B + s1" "v2 = v1 div B + s2" "v3 = v2 div B + s3" "v4 = v3 div B + s4"
    "v5 = v4 div B + s5" "v6 = v5 div B + s6"
  shows "v0 + B * s1 + B ^ 2 * s2 + B ^ 3 * s3 + B ^ 4 * s4 + B ^ 5 * s5 + B ^ 6 * s6 =
    v0 mod B + B * (v1 mod B) + B ^ 2 * (v2 mod B) + B ^ 3 * (v3 mod B) + B ^ 4 * (v4 mod B) +
    B ^ 5 * (v5 mod B) + B ^ 6 * v6"
proof -
  have e: "v mod B + B * (v div B) = v" for v by simp
  define q0 m0 q1 m1 q2 m2 q3 m3 q4 m4 q5 m5 where qm: "q0 = v0 div B" "m0 = v0 mod B"
    "q1 = v1 div B" "m1 = v1 mod B" "q2 = v2 div B" "m2 = v2 mod B" "q3 = v3 div B"
    "m3 = v3 mod B" "q4 = v4 div B" "m4 = v4 mod B" "q5 = v5 div B" "m5 = v5 mod B"
  have "v0 = m0 + B * q0" "q0 + s1 = m1 + B * q1" "q1 + s2 = m2 + B * q2" "q2 + s3 = m3 + B * q3"
    "q3 + s4 = m4 + B * q4" "q4 + s5 = m5 + B * q5" "q5 + s6 = v6"
    using e [of v0] e [of v1] e [of v2] e [of v3] e [of v4] e [of v5] assms unfolding qm by auto
  then have "v0 + B * s1 + B ^ 2 * s2 + B ^ 3 * s3 + B ^ 4 * s4 + B ^ 5 * s5 + B ^ 6 * s6 =
      m0 + B * m1 + B ^ 2 * m2 + B ^ 3 * m3 + B ^ 4 * m4 + B ^ 5 * m5 + B ^ 6 * v6"
    by algebra
  then show ?thesis unfolding qm .
qed


lemma prod_lt: "unat (a :: u64) * unat (b :: u64) < B64 ^ 2"
  using mult_bound [OF unat64_lt [of a] unat64_lt [of b]] by simp

lemma div64_lt: "v < B64 ^ 2 * 2 ^ 32 \<Longrightarrow> v div B64 < B64 * 2 ^ 32"
  by (rule less_mult_imp_div_less) simp

lemma sval_mult_lt: "sval a * sval b < B64 ^ 8"
proof -
  have "sval a * sval b < 2 ^ 256 * 2 ^ 256"
    by (rule mult_strict_mono) (use sval_lt [of a] sval_lt [of b] in simp_all)
  then show ?thesis by simp
qed

text \<open>One column: the carry plus up to four products stays far below the accumulator's range.\<close>

lemma muladd_small:
  fixes c :: "32 acc"
  assumes "accval c < B64 * 2 ^ 32 + k * B64 ^ 2" and "k \<le> 8"
  shows "accval (muladd a b c) = accval c + unat a * unat b"
    and "accval (muladd a b c) < B64 * 2 ^ 32 + (k + 1) * B64 ^ 2"
proof -
  have "k * B64 ^ 2 \<le> 8 * B64 ^ 2" using assms(2) by (rule mult_le_mono1)
  then have "accval c + unat a * unat b < B64 ^ 2 * 2 ^ LENGTH(32)"
    using assms prod_lt [of a b] by simp
  then show eq: "accval (muladd a b c) = accval c + unat a * unat b" by (rule muladd_val)
  show "accval (muladd a b c) < B64 * 2 ^ 32 + (k + 1) * B64 ^ 2"
    unfolding eq using assms(1) prod_lt [of a b] by (simp add: distrib_right)
qed


declare muladd.simps [simp del] muladd_fast.simps [simp del] muladd2.simps [simp del]
  sumadd.simps [simp del] sumadd_fast.simps [simp del]
  extract32.simps [simp del] extract64.simps [simp del] extract_fast.simps [simp del]

lemma next_carry:
  assumes "accval e < B64 * 2 ^ 32 + k * B64 ^ 2" and "k \<le> 8"
  shows "accval (snd (extract32 e)) < B64 * 2 ^ 32 + 0 * B64 ^ 2"
proof -
  have "k * B64 ^ 2 \<le> 8 * B64 ^ 2" using assms(2) by (rule mult_le_mono1)
  then have "accval e < B64 ^ 2 * 2 ^ 32" using assms(1) by simp
  then show ?thesis using extract32_val [of e] div64_lt by simp
qed

abbreviation carry_ok :: "32 acc \<Rightarrow> bool" where
  "carry_ok c \<equiv> accval c < B64 * 2 ^ 32 + 0 * B64 ^ 2"

lemma column2:
  assumes "carry_ok c"
  shows "accval (muladd a2 b2 (muladd a1 b1 c)) = accval c + (unat a1 * unat b1 + unat a2 * unat b2) \<and>
         carry_ok (snd (extract32 (muladd a2 b2 (muladd a1 b1 c))))"
proof -
  note m1 = muladd_small [OF assms, of a1 b1]
  note m2 = muladd_small [OF m1(2), of a2 b2]
  show ?thesis using m1(1) m2(1) next_carry [OF m2(2)] by simp
qed

lemma column3:
  assumes "carry_ok c"
  shows "accval (muladd a3 b3 (muladd a2 b2 (muladd a1 b1 c))) =
           accval c + (unat a1 * unat b1 + unat a2 * unat b2 + unat a3 * unat b3) \<and>
         carry_ok (snd (extract32 (muladd a3 b3 (muladd a2 b2 (muladd a1 b1 c)))))"
proof -
  note m1 = muladd_small [OF assms, of a1 b1]
  note m2 = muladd_small [OF m1(2), of a2 b2]
  note m3 = muladd_small [OF m2(2), of a3 b3]
  show ?thesis using m1(1) m2(1) m3(1) next_carry [OF m3(2)] by simp
qed

lemma column4:
  assumes "carry_ok c"
  shows "accval (muladd a4 b4 (muladd a3 b3 (muladd a2 b2 (muladd a1 b1 c)))) =
           accval c + (unat a1 * unat b1 + unat a2 * unat b2 + unat a3 * unat b3 + unat a4 * unat b4) \<and>
         carry_ok (snd (extract32 (muladd a4 b4 (muladd a3 b3 (muladd a2 b2 (muladd a1 b1 c))))))"
proof -
  note m1 = muladd_small [OF assms, of a1 b1]
  note m2 = muladd_small [OF m1(2), of a2 b2]
  note m3 = muladd_small [OF m2(2), of a3 b3]
  note m4 = muladd_small [OF m3(2), of a4 b4]
  show ?thesis using m1(1) m2(1) m3(1) m4(1) next_carry [OF m4(2)] by simp
qed

lemma mult_columns:
  fixes B :: nat
  shows "(a0 + B * a1 + B ^ 2 * a2 + B ^ 3 * a3) * (b0 + B * b1 + B ^ 2 * b2 + B ^ 3 * b3) =
    a0 * b0 + B * (a0 * b1 + a1 * b0) + B ^ 2 * (a0 * b2 + a1 * b1 + a2 * b0) +
    B ^ 3 * (a0 * b3 + a1 * b2 + a2 * b1 + a3 * b0) + B ^ 4 * (a1 * b3 + a2 * b2 + a3 * b1) +
    B ^ 5 * (a2 * b3 + a3 * b2) + B ^ 6 * (a3 * b3)"
  by algebra

lemma mul_512_val: "lval (secp256k1_scalar_mul_512 a b) = sval a * sval b"
proof -
  define e0 :: "32 acc" where "e0 = muladd_fast (d0 a) (d0 b) (0, 0, 0)"
  define e1 where "e1 = muladd (d1 a) (d0 b) (muladd (d0 a) (d1 b) (snd (extract_fast e0)))"
  define e2 where "e2 = muladd (d2 a) (d0 b) (muladd (d1 a) (d1 b) (muladd (d0 a) (d2 b) (snd (extract32 e1))))"
  define e3 where "e3 = muladd (d3 a) (d0 b) (muladd (d2 a) (d1 b) (muladd (d1 a) (d2 b)
    (muladd (d0 a) (d3 b) (snd (extract32 e2)))))"
  define e4 where "e4 = muladd (d3 a) (d1 b) (muladd (d2 a) (d2 b) (muladd (d1 a) (d3 b) (snd (extract32 e3))))"
  define e5 where "e5 = muladd (d3 a) (d2 b) (muladd (d2 a) (d3 b) (snd (extract32 e4)))"
  define e6 where "e6 = muladd_fast (d3 a) (d3 b) (snd (extract32 e5))"
  have model: "secp256k1_scalar_mul_512 a b = [fst (extract_fast e0), fst (extract32 e1),
      fst (extract32 e2), fst (extract32 e3), fst (extract32 e4), fst (extract32 e5),
      fst (extract_fast e6), fst (snd (extract_fast e6))]"
    by (simp add: secp256k1_scalar_mul_512_def Let_def case_prod_beta
        e0_def e1_def e2_def e3_def e4_def e5_def e6_def)
  let ?a0 = "unat (d0 a)" and ?a1 = "unat (d1 a)" and ?a2 = "unat (d2 a)" and ?a3 = "unat (d3 a)"
  let ?b0 = "unat (d0 b)" and ?b1 = "unat (d1 b)" and ?b2 = "unat (d2 b)" and ?b3 = "unat (d3 b)"
  have v0: "accval e0 = ?a0 * ?b0" and t0: "snd (snd e0) = 0"
    using muladd_fast_val [of "(0, 0, 0 :: u32)" "d0 a" "d0 b"] prod_lt [of "d0 a" "d0 b"]
    by (simp_all add: e0_def)
  have k0: "carry_ok (snd (extract_fast e0))"
    using extract_fast_val [OF t0] v0 prod_lt [of "d0 a" "d0 b"] div64_lt [of "accval e0"] by simp
  have c1: "accval e1 = accval e0 div B64 + (?a0 * ?b1 + ?a1 * ?b0)" "carry_ok (snd (extract32 e1))"
    using column2 [OF k0] extract_fast_val [OF t0] by (simp_all add: e1_def)
  have c2: "accval e2 = accval e1 div B64 + (?a0 * ?b2 + ?a1 * ?b1 + ?a2 * ?b0)"
      "carry_ok (snd (extract32 e2))"
    using column3 [OF c1(2)] extract32_val [of e1] by (simp_all add: e2_def)
  have c3: "accval e3 = accval e2 div B64 + (?a0 * ?b3 + ?a1 * ?b2 + ?a2 * ?b1 + ?a3 * ?b0)"
      "carry_ok (snd (extract32 e3))"
    using column4 [OF c2(2)] extract32_val [of e2] by (simp_all add: e3_def)
  have c4: "accval e4 = accval e3 div B64 + (?a1 * ?b3 + ?a2 * ?b2 + ?a3 * ?b1)"
      "carry_ok (snd (extract32 e4))"
    using column3 [OF c3(2)] extract32_val [of e3] by (simp_all add: e4_def)
  have c5: "accval e5 = accval e4 div B64 + (?a2 * ?b3 + ?a3 * ?b2)" "carry_ok (snd (extract32 e5))"
    using column2 [OF c4(2)] extract32_val [of e4] by (simp_all add: e5_def)
  define v6 where "v6 = accval e5 div B64 + ?a3 * ?b3"
  have total: "sval a * sval b = accval e0 mod B64 + B64 * (accval e1 mod B64) +
      B64 ^ 2 * (accval e2 mod B64) + B64 ^ 3 * (accval e3 mod B64) + B64 ^ 4 * (accval e4 mod B64) +
      B64 ^ 5 * (accval e5 mod B64) + B64 ^ 6 * v6"
    unfolding sval_def mult_columns v0 [symmetric]
    by (rule columns7 [OF c1(1) c2(1) c3(1) c4(1) c5(1) v6_def])
  then have "B64 ^ 6 * v6 < B64 ^ 6 * B64 ^ 2"
    using sval_mult_lt [of a b] by simp
  then have "v6 < B64 ^ 2" by simp
  then have v6: "accval e6 = v6" "snd (snd e6) = 0"
    using muladd_fast_val [of "snd (extract32 e5)" "d3 a" "d3 b"] extract32_val [of e5]
    by (simp_all add: e6_def v6_def)
  have "unat (fst (extract_fast e6)) + B64 * unat (fst (snd (extract_fast e6))) = v6"
  proof -
    obtain x0 x1 where x: "e6 = (x0, x1, 0)" using v6(2) by (cases e6) simp
    then show ?thesis using v6(1) by (simp add: extract_fast.simps)
  qed
  then show ?thesis
    unfolding model total lval_def using extract_fast_val [OF t0] extract32_val [of e1]
      extract32_val [of e2] extract32_val [of e3] extract32_val [of e4] extract32_val [of e5]
    by simp
qed


section \<open>Reduction of 512-bit products\<close>

abbreviation small :: "64 acc \<Rightarrow> bool" where
  "small c \<equiv> accval c < 8 * B64"

lemma prod_le: "unat (a :: u64) * unat (b :: u64) + 2 * B64 \<le> B64 ^ 2 + 1"
  using mult_bound [OF unat64_lt [of a] unat64_lt [of b]] by simp

lemma small_extract: "accval c < 8 * B64 ^ 2 \<Longrightarrow> small (snd (extract64 c))"
proof -
  assume "accval c < 8 * B64 ^ 2"
  then have "accval c < 8 * B64 * B64" by simp
  then have "accval c div B64 < 8 * B64" by (rule less_mult_imp_div_less)
  then show ?thesis using extract64_val [of c] by simp
qed

lemma muladd64_val:
  fixes c :: "64 acc"
  shows "accval c < 16 * B64 ^ 2 \<Longrightarrow> accval (muladd a b c) = accval c + unat a * unat b"
  by (rule muladd_val) (use prod_lt [of a b] in simp)

lemma sumadd64_val:
  fixes c :: "64 acc"
  shows "accval c < 16 * B64 ^ 2 \<Longrightarrow> accval (sumadd a c) = accval c + unat a"
  by (rule sumadd_val) (use unat64_lt [of a] in simp)

text \<open>The columns of the reduction: limbs added, products with the limbs of \<open>2 ^ 256 - N\<close>.\<close>

lemma column_smms:
  fixes a1 b1 a2 b2 y z :: u64
  assumes "small c"
  defines "e \<equiv> sumadd z (muladd a2 b2 (muladd a1 b1 (sumadd y c)))"
  shows "accval e = accval c + (unat y + unat a1 * unat b1 + unat a2 * unat b2 + unat z)"
    and "small (snd (extract64 e))"
proof -
  note b = prod_lt [of a1 b1] prod_lt [of a2 b2] unat64_lt [of y] unat64_lt [of z] assms(1)
  have 1: "accval (sumadd y c) = accval c + unat y"
    by (rule sumadd64_val) (use b in simp)
  have 2: "accval (muladd a1 b1 (sumadd y c)) = accval c + unat y + unat a1 * unat b1"
    by (subst muladd64_val) (use b in \<open>simp_all add: 1\<close>)
  have 3: "accval (muladd a2 b2 (muladd a1 b1 (sumadd y c))) =
      accval c + unat y + unat a1 * unat b1 + unat a2 * unat b2"
    by (subst muladd64_val) (use b in \<open>simp_all add: 2\<close>)
  show 4: "accval e = accval c + (unat y + unat a1 * unat b1 + unat a2 * unat b2 + unat z)"
    unfolding e_def by (subst sumadd64_val) (use b in \<open>simp_all add: 3\<close>)
  show "small (snd (extract64 e))"
    by (rule small_extract) (use b 4 in simp)
qed

lemma column_fmm:
  fixes a1 b1 a2 b2 y :: u64
  assumes "small c"
  defines "e \<equiv> muladd a2 b2 (muladd a1 b1 (sumadd_fast y c))"
  shows "accval e = accval c + (unat y + unat a1 * unat b1 + unat a2 * unat b2)"
    and "small (snd (extract64 e))"
proof -
  note b = prod_lt [of a1 b1] prod_lt [of a2 b2] unat64_lt [of y] assms(1)
  have 1: "accval (sumadd_fast y c) = accval c + unat y"
    by (rule conjunct1 [OF sumadd_fast_val]) (use b in simp)
  have 2: "accval (muladd a1 b1 (sumadd_fast y c)) = accval c + unat y + unat a1 * unat b1"
    by (subst muladd64_val) (use b in \<open>simp_all add: 1\<close>)
  show 3: "accval e = accval c + (unat y + unat a1 * unat b1 + unat a2 * unat b2)"
    unfolding e_def by (subst muladd64_val) (use b in \<open>simp_all add: 2\<close>)
  show "small (snd (extract64 e))"
    by (rule small_extract) (use b 3 in simp)
qed

lemma column_ms:
  fixes a1 b1 z :: u64
  assumes "small c"
  defines "e \<equiv> sumadd z (muladd a1 b1 c)"
  shows "accval e = accval c + (unat a1 * unat b1 + unat z)" and "small (snd (extract64 e))"
proof -
  note b = prod_lt [of a1 b1] unat64_lt [of z] assms(1)
  have 1: "accval (muladd a1 b1 c) = accval c + unat a1 * unat b1"
    by (rule muladd64_val) (use b in simp)
  show 2: "accval e = accval c + (unat a1 * unat b1 + unat z)"
    unfolding e_def by (subst sumadd64_val) (use b in \<open>simp_all add: 1\<close>)
  show "small (snd (extract64 e))"
    by (rule small_extract) (use b 2 in simp)
qed

lemma column_start:
  fixes x a1 b1 :: u64
  defines "e \<equiv> muladd_fast a1 b1 (x, 0, 0 :: u64)"
  shows "accval e = unat x + unat a1 * unat b1" and "snd (snd e) = 0"
    and "small (snd (extract_fast e))"
proof -
  have lt: "accval (x, 0, 0 :: u64) + unat a1 * unat b1 < B64 ^ 2"
    using prod_le [of a1 b1] unat64_lt [of x] by simp
  show 1: "accval e = unat x + unat a1 * unat b1" and 2: "snd (snd e) = 0"
    using muladd_fast_val [OF lt] by (simp_all add: e_def)
  have "accval e < B64 * B64" using lt 1 by simp
  then have "accval e div B64 < B64" by (rule less_mult_imp_div_less)
  then show "small (snd (extract_fast e))"
    using extract_fast_val [OF 2] by simp
qed


lemma fold_columns_m:
  fixes B :: nat
  shows "(l0 + B * l1 + B ^ 2 * l2 + B ^ 3 * l3) +
      (n0 + B * n1 + B ^ 2 * n2 + B ^ 3 * n3) * (c0 + B * c1 + B ^ 2 * 1) =
    (l0 + n0 * c0) + B * (l1 + n1 * c0 + n0 * c1) + B ^ 2 * (l2 + n2 * c0 + n1 * c1 + n0) +
    B ^ 3 * (l3 + n3 * c0 + n2 * c1 + n1) + B ^ 4 * (n3 * c1 + n2) + B ^ 5 * n3 + B ^ 6 * 0"
  by algebra

definition lo256 :: "u64 list \<Rightarrow> nat" where
  "lo256 l = unat (l ! 0) + B64 * unat (l ! 1) + B64 ^ 2 * unat (l ! 2) + B64 ^ 3 * unat (l ! 3)"

definition hi256 :: "u64 list \<Rightarrow> nat" where
  "hi256 l = unat (l ! 4) + B64 * unat (l ! 5) + B64 ^ 2 * unat (l ! 6) + B64 ^ 3 * unat (l ! 7)"

lemma four_limbs_lt:
  "unat (a :: u64) + B64 * unat (b :: u64) + B64 ^ 2 * unat (c :: u64) + B64 ^ 3 * unat (d :: u64) < 2 ^ 256"
  using unat64_lt [of a] unat64_lt [of b] unat64_lt [of c] unat64_lt [of d] by simp

lemma lval_split: "lval l = lo256 l + 2 ^ 256 * hi256 l"
  by (simp add: lval_def lo256_def hi256_def)

definition mval :: "u64 list \<times> u32 \<Rightarrow> nat" where
  "mval mm = (case mm of (m, m6) \<Rightarrow> lo256 m + 2 ^ 256 * (unat (m ! 4) + B64 * unat (m ! 5) + B64 ^ 2 * unat m6))"

lemma mval_list: "mval ([m0, m1, m2, m3, m4, m5], m6) = unat m0 + B64 * unat m1 + B64 ^ 2 * unat m2 +
    B64 ^ 3 * unat m3 + B64 ^ 4 * unat m4 + B64 ^ 5 * unat m5 + B64 ^ 6 * unat m6"
  by (simp add: mval_def lo256_def)

lemma n_compl_digits: "n_compl = unat SECP256K1_N_C_0 + B64 * unat SECP256K1_N_C_1 + B64 ^ 2 * 1"
  by (simp add: n_compl_eq order_C)

lemma small_to_u32: "x < 2 ^ 32 \<Longrightarrow> unat (w :: u64) = x \<Longrightarrow> unat (ucast w :: u32) = x"
  by (simp add: unsigned_ucast_eq take_bit_nat_eq_self)

lemma reduce_512_m_val: "mval (reduce_512_m l) = lo256 l + hi256 l * n_compl"
proof -
  let ?C0 = "SECP256K1_N_C_0" and ?C1 = "SECP256K1_N_C_1"
  define e0 where "e0 = muladd_fast (l ! 4) ?C0 (l ! 0, 0, 0 :: u64)"
  define e1 where "e1 = muladd (l ! 4) ?C1 (muladd (l ! 5) ?C0 (sumadd_fast (l ! 1) (snd (extract_fast e0))))"
  define e2 where "e2 = sumadd (l ! 4) (muladd (l ! 5) ?C1 (muladd (l ! 6) ?C0 (sumadd (l ! 2) (snd (extract64 e1)))))"
  define e3 where "e3 = sumadd (l ! 5) (muladd (l ! 6) ?C1 (muladd (l ! 7) ?C0 (sumadd (l ! 3) (snd (extract64 e2)))))"
  define e4 where "e4 = sumadd (l ! 6) (muladd (l ! 7) ?C1 (snd (extract64 e3)))"
  define e5 where "e5 = sumadd_fast (l ! 7) (snd (extract64 e4))"
  have model: "reduce_512_m l = ([fst (extract_fast e0), fst (extract64 e1), fst (extract64 e2),
      fst (extract64 e3), fst (extract64 e4), fst (extract_fast e5)], ucast (fst (snd (extract_fast e5))))"
    by (simp add: reduce_512_m_def Let_def case_prod_beta e0_def e1_def e2_def e3_def e4_def e5_def)
  note c0 = column_start [of "l ! 4" ?C0 "l ! 0", folded e0_def]
  note x0 = extract_fast_val [OF c0(2)]
  note c1 = column_fmm [OF c0(3), of "l ! 4" ?C1 "l ! 5" ?C0 "l ! 1", folded e1_def]
  note c2 = column_smms [OF c1(2), of "l ! 4" "l ! 5" ?C1 "l ! 6" ?C0 "l ! 2", folded e2_def]
  note c3 = column_smms [OF c2(2), of "l ! 5" "l ! 6" ?C1 "l ! 7" ?C0 "l ! 3", folded e3_def]
  note c4 = column_ms [OF c3(2), of "l ! 6" "l ! 7" ?C1, folded e4_def]
  have e5_lt: "accval (snd (extract64 e4)) + unat (l ! 7) < 9 * B64"
    using c4(2) unat64_lt [of "l ! 7"] by simp
  then have c5: "accval e5 = accval e4 div B64 + unat (l ! 7)" "snd (snd e5) = 0"
    using sumadd_fast_val [of "snd (extract64 e4)" "l ! 7"] extract64_val [of e4]
    by (simp_all add: e5_def)
  have lt5: "accval e5 < 9 * B64" using e5_lt c5 extract64_val [of e4] by simp
  obtain y0 y1 where y: "e5 = (y0, y1, 0)" using c5(2) by (cases e5) simp
  have y1: "unat y1 = accval e5 div B64" using acc_digits(2) [of y0 y1 "0 :: u64"] by (simp add: y)
  have top: "fst (snd (extract_fast e5)) = y1" by (simp add: y extract_fast.simps)
  have "accval e5 div B64 < 9" by (rule less_mult_imp_div_less [OF lt5])
  then have "accval e5 div B64 < 2 ^ 32" by (rule order.strict_trans) simp
  from small_to_u32 [OF this y1]
  have m6: "unat (ucast (fst (snd (extract_fast e5))) :: u32) = accval e5 div B64 + 0"
    by (simp only: top)
  have total: "lo256 l + hi256 l * n_compl = accval e0 mod B64 + B64 * (accval e1 mod B64) +
      B64 ^ 2 * (accval e2 mod B64) + B64 ^ 3 * (accval e3 mod B64) + B64 ^ 4 * (accval e4 mod B64) +
      B64 ^ 5 * (accval e5 mod B64) + B64 ^ 6 * (accval e5 div B64 + 0)"
    unfolding lo256_def hi256_def n_compl_digits fold_columns_m c0(1) [symmetric]
    by (rule columns7) (simp_all only: c1(1) c2(1) c3(1) c4(1) c5(1) x0 extract64_val)
  show ?thesis
    by (simp only: model mval_list m6 x0 extract64_val extract_fast_val [OF c5(2)] total)
qed


definition mhi :: "u64 list \<times> u32 \<Rightarrow> nat" where
  "mhi mm = (case mm of (m, m6) \<Rightarrow> unat (m ! 4) + B64 * unat (m ! 5) + B64 ^ 2 * unat m6)"

definition pval :: "u64 list \<times> u32 \<Rightarrow> nat" where
  "pval pp = (case pp of (p, p4) \<Rightarrow> lo256 p + 2 ^ 256 * unat p4)"

lemma pval_list: "pval ([p0, p1, p2, p3], p4) = unat p0 + B64 * unat p1 + B64 ^ 2 * unat p2 +
    B64 ^ 3 * unat p3 + B64 ^ 4 * unat p4"
  by (simp add: pval_def lo256_def)

lemma fold_columns_p:
  fixes B :: nat
  shows "(m0 + B * m1 + B ^ 2 * m2 + B ^ 3 * m3) + (m4 + B * m5 + B ^ 2 * m6) * (c0 + B * c1 + B ^ 2 * 1) =
    (m0 + m4 * c0) + B * (m1 + m5 * c0 + m4 * c1) + B ^ 2 * (m2 + m6 * c0 + m5 * c1 + m4) +
    B ^ 3 * (m3 + m6 * c1 + m5) + B ^ 4 * m6"
  by algebra

lemma columns3:
  fixes B :: nat
  assumes "v1 = v0 div B + s1" "v2 = v1 div B + s2" "v3 = v2 div B + s3"
  shows "v0 + B * s1 + B ^ 2 * s2 + B ^ 3 * s3 + B ^ 4 * s4 =
    v0 mod B + B * (v1 mod B) + B ^ 2 * (v2 mod B) + B ^ 3 * (v3 mod B) + B ^ 4 * (v3 div B + s4)"
  using carry4 [OF assms] by (simp add: distrib_left)

lemma column_fff:
  fixes m3 m5 m6 c1 :: u64
  assumes "small c" and "unat m6 \<le> 1"
  defines "e \<equiv> sumadd_fast m5 (muladd_fast m6 c1 (sumadd_fast m3 c))"
  shows "accval e = accval c + (unat m3 + unat m6 * unat c1 + unat m5)"
    and "snd (snd e) = 0" and "accval e < 11 * B64"
proof -
  have p: "unat m6 * unat c1 < B64"
    using mult_le_mono1 [OF assms(2), of "unat c1"] unat64_lt [of c1] by linarith
  note b = p unat64_lt [of m3] unat64_lt [of m5] assms(1)
  have 1: "accval (sumadd_fast m3 c) = accval c + unat m3"
    by (rule conjunct1 [OF sumadd_fast_val]) (use b in simp)
  have 2: "accval (muladd_fast m6 c1 (sumadd_fast m3 c)) = accval c + unat m3 + unat m6 * unat c1"
    by (subst conjunct1 [OF muladd_fast_val]) (use b in \<open>simp_all add: 1\<close>)
  have "accval e = accval (muladd_fast m6 c1 (sumadd_fast m3 c)) + unat m5 \<and> snd (snd e) = 0"
    unfolding e_def by (rule sumadd_fast_val) (use b 2 in simp)
  then show 3: "accval e = accval c + (unat m3 + unat m6 * unat c1 + unat m5)" and "snd (snd e) = 0"
    using 2 by simp_all
  show "accval e < 11 * B64" unfolding 3 using b by simp
qed

lemma reduce_512_p_val:
  assumes "unat m6 \<le> 1"
  shows "pval (reduce_512_p (m, m6)) = lo256 m + mhi (m, m6) * n_compl"
proof -
  let ?C0 = "SECP256K1_N_C_0" and ?C1 = "SECP256K1_N_C_1"
  define w6 :: u64 where "w6 = ucast m6"
  have w6: "unat w6 = unat m6"
    using assms by (simp add: w6_def unsigned_ucast_eq take_bit_nat_eq_self)
  define e0 where "e0 = muladd_fast (m ! 4) ?C0 (m ! 0, 0, 0 :: u64)"
  define e1 where "e1 = muladd (m ! 4) ?C1 (muladd (m ! 5) ?C0 (sumadd_fast (m ! 1) (snd (extract_fast e0))))"
  define e2 where "e2 = sumadd (m ! 4) (muladd (m ! 5) ?C1 (muladd w6 ?C0 (sumadd (m ! 2) (snd (extract64 e1)))))"
  define e3 where "e3 = sumadd_fast (m ! 5) (muladd_fast w6 ?C1 (sumadd_fast (m ! 3) (snd (extract64 e2))))"
  have model: "reduce_512_p (m, m6) = ([fst (extract_fast e0), fst (extract64 e1), fst (extract64 e2),
      fst (extract_fast e3)], ucast (fst (snd (extract_fast e3)) + w6))"
    by (simp add: reduce_512_p_def Let_def case_prod_beta e0_def e1_def e2_def e3_def w6_def)
  note c0 = column_start [of "m ! 4" ?C0 "m ! 0", folded e0_def]
  note x0 = extract_fast_val [OF c0(2)]
  note c1 = column_fmm [OF c0(3), of "m ! 4" ?C1 "m ! 5" ?C0 "m ! 1", folded e1_def]
  note c2 = column_smms [OF c1(2), of "m ! 4" "m ! 5" ?C1 w6 ?C0 "m ! 2", folded e2_def]
  note c3 = column_fff [OF c2(2), of w6 "m ! 5" ?C1 "m ! 3", folded e3_def, unfolded w6, OF assms]
  obtain y0 y1 where y: "e3 = (y0, y1, 0)" using c3(2) by (cases e3) simp
  have y1: "unat y1 = accval e3 div B64" using acc_digits(2) [of y0 y1 "0 :: u64"] by (simp add: y)
  have top: "fst (snd (extract_fast e3)) = y1" by (simp add: y extract_fast.simps)
  have lt: "accval e3 div B64 < 11" by (rule less_mult_imp_div_less [OF c3(3)])
  then have sum: "unat (y1 + w6) = accval e3 div B64 + unat m6"
    using assms y1 w6 by (subst unat_add_no_overflow) simp_all
  have "accval e3 div B64 + unat m6 < 2 ^ 32" using lt assms by simp
  from small_to_u32 [OF this sum]
  have p4: "unat (ucast (fst (snd (extract_fast e3)) + w6) :: u32) = accval e3 div B64 + unat m6"
    by (simp only: top)
  have total: "lo256 m + mhi (m, m6) * n_compl = accval e0 mod B64 + B64 * (accval e1 mod B64) +
      B64 ^ 2 * (accval e2 mod B64) + B64 ^ 3 * (accval e3 mod B64) + B64 ^ 4 * (accval e3 div B64 + unat m6)"
    unfolding lo256_def mhi_def prod.case n_compl_digits fold_columns_p c0(1) [symmetric]
    by (rule columns3) (simp_all only: c1(1) c2(1) c3(1) x0 extract64_val w6)
  show ?thesis
    by (simp only: model pval_list p4 x0 extract64_val extract_fast_val [OF c3(2)] total)
qed

lemma mval_mhi: "mval (m, m6) = lo256 m + 2 ^ 256 * mhi (m, m6)"
  by (simp add: mval_def mhi_def)

lemma n_compl_square: "n_compl * n_compl < 2 * 2 ^ 256" "2 * n_compl < 2 ^ 130" "n_compl < 2 * B64 ^ 2"
  by (simp_all add: n_compl_def secp256k1_n_def)

lemma lo256_lt: "lo256 l < 2 ^ 256"
  unfolding lo256_def by (rule four_limbs_lt)

lemma hi256_lt: "hi256 l < 2 ^ 256"
  unfolding hi256_def by (rule four_limbs_lt)

text \<open>The high part of the first pass is at most \<open>2 ^ 256 - N\<close>, so its top word is a bit.\<close>

lemma reduce_512_m_bound:
  assumes "reduce_512_m l = (m, m6)"
  shows "mhi (m, m6) \<le> n_compl" and "unat m6 \<le> 1"
proof -
  have "2 ^ 256 * mhi (m, m6) \<le> lo256 l + hi256 l * n_compl"
    using reduce_512_m_val [of l] by (simp add: assms mval_mhi)
  also have "\<dots> < 2 ^ 256 + 2 ^ 256 * n_compl"
    using lo256_lt [of l] mult_le_mono1 [OF less_imp_le [OF hi256_lt [of l]], of n_compl] by linarith
  finally have "2 ^ 256 * mhi (m, m6) < 2 ^ 256 * (n_compl + 1)" by simp
  then show le: "mhi (m, m6) \<le> n_compl" by simp
  have "B64 ^ 2 * unat m6 \<le> mhi (m, m6)" by (simp add: mhi_def)
  then have "B64 ^ 2 * unat m6 < B64 ^ 2 * 2" using le n_compl_square(3) by linarith
  then show "unat m6 \<le> 1" by simp
qed

lemma reduce_512_p_bound:
  assumes "mhi (m, m6) \<le> n_compl" and "unat m6 \<le> 1" and "reduce_512_p (m, m6) = (p, p4)"
  shows "unat p4 \<le> 2"
proof -
  have "2 ^ 256 * unat p4 \<le> lo256 m + mhi (m, m6) * n_compl"
    using reduce_512_p_val [OF assms(2), of m] by (simp add: assms(3) pval_def)
  also have "\<dots> < 2 ^ 256 + 2 * 2 ^ 256"
    using lo256_lt [of m] mult_le_mono1 [OF assms(1), of n_compl] n_compl_square(1) by linarith
  finally have "2 ^ 256 * unat p4 < 2 ^ 256 * 3" by simp
  then show ?thesis by simp
qed

lemma carry_step:
  fixes t x y :: u128
  assumes "unat x < B64" "unat y \<le> 2 * B64"
  shows "unat (drop_bit 64 t + (x + y)) = unat t div B64 + (unat x + unat y)"
proof -
  have "unat (drop_bit 64 t) < 2 ^ 127" using unat_drop64_lt [of t] by simp
  then have "unat (drop_bit 64 t + (x + y)) = unat (drop_bit 64 t) + (unat x + unat y)"
    by (rule unat_t_add) (use assms in simp_all)
  then show ?thesis by (simp only: unat_drop_bit_div)
qed

lemma unat_small_mult:
  assumes "unat p \<le> 2"
  shows "unat (wide x * ucast (p :: u32)) = unat x * unat p" and "unat (wide x * ucast p) \<le> 2 * B64"
proof -
  have u: "unat (ucast p :: u128) = unat p"
    using assms by (simp add: unsigned_ucast_eq take_bit_nat_eq_self)
  have le: "unat x * unat p \<le> 2 * B64"
    using mult_le_mono [OF less_imp_le [OF unat64_lt [of x]] assms] by simp
  show eq: "unat (wide x * ucast p) = unat x * unat p"
    by (subst unat_mult_no_overflow) (use le in \<open>simp_all add: u unat_wide\<close>)
  show "unat (wide x * ucast p) \<le> 2 * B64" unfolding eq by (rule le)
qed

lemma fold_columns_r:
  fixes B :: nat
  shows "(p0 + B * p1 + B ^ 2 * p2 + B ^ 3 * p3) + (c0 + B * c1 + B ^ 2 * 1) * k =
    (p0 + c0 * k) + B * (p1 + c1 * k) + B ^ 2 * (p2 + k) + B ^ 3 * p3"
  by algebra

lemma reduce_512_r_val:
  assumes "unat p4 \<le> 2" and "reduce_512_r (p, p4) = (r, c)"
  shows "sval r + 2 ^ 256 * unat c = lo256 p + n_compl * unat p4"
proof -
  define t0 where "t0 = wide (p ! 0) + wide SECP256K1_N_C_0 * ucast p4"
  define t1 where "t1 = drop_bit 64 t0 + (wide (p ! 1) + wide SECP256K1_N_C_1 * ucast p4)"
  define t2 where "t2 = drop_bit 64 t1 + (wide (p ! 2) + ucast p4)"
  define t3 where "t3 = drop_bit 64 t2 + wide (p ! 3)"
  have u4: "unat (ucast p4 :: u128) = unat p4"
    using assms(1) by (simp add: unsigned_ucast_eq take_bit_nat_eq_self)
  have w: "unat (wide x) < B64" for x using unat64_lt [of x] by (simp only: unat_wide)
  have u0: "unat t0 = unat (p ! 0) + unat SECP256K1_N_C_0 * unat p4"
    using carry_step [OF w unat_small_mult(2) [OF assms(1)], of 0 "p ! 0" SECP256K1_N_C_0]
    by (simp add: t0_def unat_wide unat_small_mult(1) [OF assms(1)])
  have u1: "unat t1 = unat t0 div B64 + (unat (p ! 1) + unat SECP256K1_N_C_1 * unat p4)"
    unfolding t1_def carry_step [OF w unat_small_mult(2) [OF assms(1)]]
    by (simp only: unat_wide unat_small_mult(1) [OF assms(1)])
  have u2: "unat t2 = unat t1 div B64 + (unat (p ! 2) + unat p4)"
    unfolding t2_def by (subst carry_step [OF w]) (use assms(1) in \<open>simp_all add: u4 unat_wide\<close>)
  have u3: "unat t3 = unat t2 div B64 + unat (p ! 3)"
    using carry_step [OF w, of 0 t2 "p ! 3"] by (simp add: t3_def unat_wide)
  have rc: "r = \<lparr>d0 = lo64 t0, d1 = lo64 t1, d2 = lo64 t2, d3 = lo64 t3\<rparr>" "c = drop_bit 64 t3"
    using assms(2) by (simp_all add: reduce_512_r_def Let_def t0_def t1_def t2_def t3_def)
  have "lo256 p + n_compl * unat p4 = unat t0 + B64 * (unat (p ! 1) + unat SECP256K1_N_C_1 * unat p4) +
      B64 ^ 2 * (unat (p ! 2) + unat p4) + B64 ^ 3 * unat (p ! 3)"
    unfolding lo256_def n_compl_digits fold_columns_r u0 ..
  also note carry4 [OF u1 u2 u3]
  finally show ?thesis by (simp add: rc sval_def unat_lo64 unat_drop_bit_div)
qed

lemma fold_mod_n: "(x + 2 ^ 256 * y) mod secp256k1_n = (x + y * n_compl) mod secp256k1_n"
proof -
  have "2 ^ 256 = secp256k1_n + n_compl" using n_bounds(1) by (simp add: n_compl_def)
  moreover have "x + (secp256k1_n + n_compl) * y = x + y * n_compl + secp256k1_n * y" by algebra
  ultimately have "x + 2 ^ 256 * y = x + y * n_compl + secp256k1_n * y" by (simp only:)
  then show ?thesis by (simp only: mod_mult_self2)
qed

lemma reduce_512_val: "sval (secp256k1_scalar_reduce_512 l) = lval l mod secp256k1_n"
proof -
  obtain m m6 where m: "reduce_512_m l = (m, m6)" by fastforce
  obtain p p4 where p: "reduce_512_p (m, m6) = (p, p4)" by fastforce
  obtain r c where r: "reduce_512_r (p, p4) = (r, c)" by fastforce
  note mb = reduce_512_m_bound [OF m]
  note pb = reduce_512_p_bound [OF mb p]
  define S where "S = lo256 p + n_compl * unat p4"
  have S: "S = sval r + 2 ^ 256 * unat c" unfolding S_def using reduce_512_r_val [OF pb r] by simp
  have "S \<le> lo256 p + n_compl * 2" unfolding S_def using pb by simp
  then have lt: "S < 2 * secp256k1_n"
    using lo256_lt [of p] by (simp add: n_compl_def secp256k1_n_def)
  have "sval (secp256k1_scalar_reduce_512 l) = S mod secp256k1_n"
    unfolding secp256k1_scalar_reduce_512_def m p r prod.case Let_def
    by (rule reduce_once [OF S lt carry_flag [OF S lt]])
  also have "\<dots> = (lo256 p + 2 ^ 256 * unat p4) mod secp256k1_n"
    unfolding S_def fold_mod_n by (simp add: mult.commute)
  also have "lo256 p + 2 ^ 256 * unat p4 = lo256 m + mhi (m, m6) * n_compl"
    using reduce_512_p_val [OF mb(2), of m] by (simp add: p pval_def)
  also have "\<dots> mod secp256k1_n = mval (m, m6) mod secp256k1_n"
    unfolding mval_mhi fold_mod_n ..
  also have "mval (m, m6) = lo256 l + hi256 l * n_compl" using reduce_512_m_val [of l] m by simp
  also have "\<dots> mod secp256k1_n = lval l mod secp256k1_n" unfolding lval_split fold_mod_n ..
  finally show ?thesis .
qed

lemma mul_val: "sval (secp256k1_scalar_mul a b) = sval a * sval b mod secp256k1_n"
  by (simp add: secp256k1_scalar_mul_def reduce_512_val mul_512_val)

text \<open>
  C4: scalar multiplication: the 512-bit schoolbook product and its three-pass reduction
  compute the product modulo the group order, for all limb values.
\<close>

theorem scalar_mul_correct:
  "sval (secp256k1_scalar_mul a b) = sval a * sval b mod secp256k1_n"
  by (rule mul_val)

section \<open>Squaring\<close>

lemma carry_detect64:
  fixes x y :: u64
  shows "unat (x + y) + B64 * of_bool (x + y < y) = unat x + unat y"
  using carry_detect [of x y] by (cases "x + y < y") simp_all

lemma double_even:
  fixes x :: u64
  shows "unat (x + x) + 1 < B64"
proof -
  have "unat (x + x) + B64 * (if x + x < x then 1 else 0) = 2 * unat x"
    using carry_detect [of x x] by simp
  then have "unat (x + x) + 1 \<noteq> B64" by (cases "x + x < x") (simp; presburger)+
  then show ?thesis using unat64_lt [of "x + x"] by linarith
qed

lemma unat_inc_wrap:
  fixes w :: u64
  shows "unat (w + (if P then 1 else 0)) + B64 * of_bool (P \<and> w + (if P then 1 else 0) = 0) =
    unat w + (if P then 1 else 0)"
proof (cases "P \<and> unat w + 1 = B64")
  case True
  then have "unat (w + 1) = 0" by (simp add: unat_word_ariths)
  then have "w + 1 = 0" by (simp add: unat_eq_zero)
  then show ?thesis using True by simp
next
  case False
  show ?thesis
  proof (cases P)
    case True
    then have "unat (w + 1) = unat w + 1"
      using False unat64_lt [of w] by (simp add: unat_word_ariths)
    then have "w + 1 \<noteq> 0" by (metis Suc_eq_plus1 nat.distinct(1) unat_0)
    then show ?thesis using True \<open>unat (w + 1) = unat w + 1\<close> by simp
  qed simp
qed

lemma unat_add_flags:
  fixes w x y z :: "'a::len word"
  assumes "x = of_bool P" "y = of_bool Q" "z = of_bool R"
    and "unat w + of_bool P + of_bool Q + of_bool R < 2 ^ LENGTH('a)"
  shows "unat (w + x + y + z) = unat w + of_bool P + of_bool Q + of_bool R"
proof -
  have step: "unat v + of_bool S < 2 ^ LENGTH('a) \<Longrightarrow> unat (v + of_bool S) = unat v + of_bool S"
    for v :: "'a word" and S by (cases S) (auto simp: unat_word_ariths)
  have 1: "unat (w + x) = unat w + of_bool P" using assms by (simp add: step)
  have 2: "unat (w + x + y) = unat w + of_bool P + of_bool Q" using assms 1 by (simp add: step)
  show ?thesis using assms 2 by (simp add: step)
qed

lemma if_of_bool: "(if P then 1 else 0) = of_bool P"
  by simp

lemma double_columns:
  fixes B :: nat
  assumes "h2 + B * k1 = h + h" "l2 + B * k2 = l + l" "h3 = h2 + k2" "z0 + B * k3 = c0 + l2"
    "h4 + B * k5 = h3 + k3" "z1 + B * k4 = c1 + h4"
  shows "z0 + B * z1 + B ^ 2 * (c2 + k1 + k5 + k4) = c0 + B * c1 + B ^ 2 * c2 + 2 * (l + B * h)"
  using assms by algebra

lemma muladd2_val:
  fixes c :: "'c::len acc"
  assumes bound: "accval c + 2 * (unat a * unat b) < B64 ^ 2 * 2 ^ LENGTH('c)"
  shows "accval (muladd2 a b c) = accval c + 2 * (unat a * unat b)"
proof -
  obtain c0 c1 c2 where c: "c = (c0, c1, c2)" by (cases c)
  define h l where "h = (ucast (drop_bit 64 (wide a * wide b)) :: u64)" and "l = (ucast (wide a * wide b) :: u64)"
  define h3 where "h3 = h + h + (if l + l < l then 1 else 0)"
  define z0 where "z0 = c0 + (l + l)"
  define h4 where "h4 = h3 + (if z0 < l + l then 1 else 0)"
  define z1 where "z1 = c1 + h4"
  have model: "muladd2 a b c = (z0, z1, c2 + (if h + h < h then 1 else 0)
      + of_bool (z0 < l + l \<and> h4 = 0) + (if z1 < h4 then 1 else 0))"
    by (simp add: c muladd2.simps Let_def h_def l_def h3_def z0_def h4_def z1_def)
  have e1: "unat (h + h) + B64 * of_bool (h + h < h) = unat h + unat h"
    by (rule carry_detect64)
  have e2: "unat (l + l) + B64 * of_bool (l + l < l) = unat l + unat l"
    by (rule carry_detect64)
  have e3: "unat h3 = unat (h + h) + of_bool (l + l < l)"
    unfolding h3_def using double_even [of h] by (subst unat_add_flag) auto
  have e4: "unat z0 + B64 * of_bool (z0 < l + l) = unat c0 + unat (l + l)"
    using carry_detect64 [of c0 "l + l"] by (simp add: z0_def)
  have e5: "unat h4 + B64 * of_bool (z0 < l + l \<and> h4 = 0) = unat h3 + of_bool (z0 < l + l)"
    using unat_inc_wrap [of h3 "z0 < l + l"] by (simp add: h4_def)
  have e6: "unat z1 + B64 * of_bool (z1 < h4) = unat c1 + unat h4"
    using carry_detect64 [of c1 h4] by (simp add: z1_def)
  have sum: "unat z0 + B64 * unat z1 + B64 ^ 2 * (unat c2 + of_bool (h + h < h)
      + of_bool (z0 < l + l \<and> h4 = 0) + of_bool (z1 < h4)) = accval c + 2 * (unat a * unat b)"
    unfolding c accval.simps product_split(1) [of a b, folded h_def l_def, symmetric]
    by (rule double_columns [OF e1 e2 e3 e4 e5 e6])
  then have "B64 ^ 2 * (unat c2 + of_bool (h + h < h) + of_bool (z0 < l + l \<and> h4 = 0)
      + of_bool (z1 < h4)) < B64 ^ 2 * 2 ^ LENGTH('c)"
    using bound by linarith
  then have "unat c2 + of_bool (h + h < h) + of_bool (z0 < l + l \<and> h4 = 0) + of_bool (z1 < h4)
      < 2 ^ LENGTH('c)" by simp
  from unat_add_flags [OF refl refl refl this]
  show ?thesis using sum by (simp only: model if_of_bool accval.simps)
qed

lemma muladd2_small:
  fixes c :: "32 acc"
  assumes "accval c < B64 * 2 ^ 32 + k * B64 ^ 2" and "k \<le> 7"
  shows "accval (muladd2 a b c) = accval c + 2 * (unat a * unat b)"
    and "accval (muladd2 a b c) < B64 * 2 ^ 32 + (k + 2) * B64 ^ 2"
proof -
  have "k * B64 ^ 2 \<le> 7 * B64 ^ 2" using assms(2) by (rule mult_le_mono1)
  then have "accval c + 2 * (unat a * unat b) < B64 ^ 2 * 2 ^ LENGTH(32)"
    using assms prod_lt [of a b] by simp
  then show eq: "accval (muladd2 a b c) = accval c + 2 * (unat a * unat b)" by (rule muladd2_val)
  show "accval (muladd2 a b c) < B64 * 2 ^ 32 + (k + 2) * B64 ^ 2"
    unfolding eq using assms(1) prod_lt [of a b] by (simp add: distrib_right)
qed

lemma column_d:
  assumes "carry_ok c"
  shows "accval (muladd2 a1 b1 c) = accval c + 2 * (unat a1 * unat b1) \<and>
         carry_ok (snd (extract32 (muladd2 a1 b1 c)))"
proof -
  note m1 = muladd2_small [OF assms, of a1 b1]
  show ?thesis using m1(1) next_carry [OF m1(2)] by simp
qed

lemma column_dm:
  assumes "carry_ok c"
  shows "accval (muladd a2 b2 (muladd2 a1 b1 c)) = accval c + (2 * (unat a1 * unat b1) + unat a2 * unat b2) \<and>
         carry_ok (snd (extract32 (muladd a2 b2 (muladd2 a1 b1 c))))"
proof -
  note m1 = muladd2_small [OF assms, of a1 b1]
  note m2 = muladd_small [OF m1(2), of a2 b2]
  show ?thesis using m1(1) m2(1) next_carry [OF m2(2)] by simp
qed

lemma column_dd:
  assumes "carry_ok c"
  shows "accval (muladd2 a2 b2 (muladd2 a1 b1 c)) =
           accval c + (2 * (unat a1 * unat b1) + 2 * (unat a2 * unat b2)) \<and>
         carry_ok (snd (extract32 (muladd2 a2 b2 (muladd2 a1 b1 c))))"
proof -
  note m1 = muladd2_small [OF assms, of a1 b1]
  note m2 = muladd2_small [OF m1(2), of a2 b2]
  show ?thesis using m1(1) m2(1) next_carry [OF m2(2)] by simp
qed

lemma square_columns:
  fixes B :: nat
  shows "(a0 + B * a1 + B ^ 2 * a2 + B ^ 3 * a3) * (a0 + B * a1 + B ^ 2 * a2 + B ^ 3 * a3) =
    a0 * a0 + B * (2 * (a0 * a1)) + B ^ 2 * (2 * (a0 * a2) + a1 * a1) +
    B ^ 3 * (2 * (a0 * a3) + 2 * (a1 * a2)) + B ^ 4 * (2 * (a1 * a3) + a2 * a2) +
    B ^ 5 * (2 * (a2 * a3)) + B ^ 6 * (a3 * a3)"
  by algebra

lemma sqr_512_val: "lval (secp256k1_scalar_sqr_512 a) = sval a * sval a"
proof -
  define e0 :: "32 acc" where "e0 = muladd_fast (d0 a) (d0 a) (0, 0, 0)"
  define e1 where "e1 = muladd2 (d0 a) (d1 a) (snd (extract_fast e0))"
  define e2 where "e2 = muladd (d1 a) (d1 a) (muladd2 (d0 a) (d2 a) (snd (extract32 e1)))"
  define e3 where "e3 = muladd2 (d1 a) (d2 a) (muladd2 (d0 a) (d3 a) (snd (extract32 e2)))"
  define e4 where "e4 = muladd (d2 a) (d2 a) (muladd2 (d1 a) (d3 a) (snd (extract32 e3)))"
  define e5 where "e5 = muladd2 (d2 a) (d3 a) (snd (extract32 e4))"
  define e6 where "e6 = muladd_fast (d3 a) (d3 a) (snd (extract32 e5))"
  have model: "secp256k1_scalar_sqr_512 a = [fst (extract_fast e0), fst (extract32 e1),
      fst (extract32 e2), fst (extract32 e3), fst (extract32 e4), fst (extract32 e5),
      fst (extract_fast e6), fst (snd (extract_fast e6))]"
    by (simp add: secp256k1_scalar_sqr_512_def Let_def case_prod_beta
        e0_def e1_def e2_def e3_def e4_def e5_def e6_def)
  let ?a0 = "unat (d0 a)" and ?a1 = "unat (d1 a)" and ?a2 = "unat (d2 a)" and ?a3 = "unat (d3 a)"
  have v0: "accval e0 = ?a0 * ?a0" and t0: "snd (snd e0) = 0"
    using muladd_fast_val [of "(0, 0, 0 :: u32)" "d0 a" "d0 a"] prod_lt [of "d0 a" "d0 a"]
    by (simp_all add: e0_def)
  have k0: "carry_ok (snd (extract_fast e0))"
    using extract_fast_val [OF t0] v0 prod_lt [of "d0 a" "d0 a"] div64_lt [of "accval e0"] by simp
  have c1: "accval e1 = accval e0 div B64 + 2 * (?a0 * ?a1)" "carry_ok (snd (extract32 e1))"
    using column_d [OF k0] extract_fast_val [OF t0] by (simp_all add: e1_def)
  have c2: "accval e2 = accval e1 div B64 + (2 * (?a0 * ?a2) + ?a1 * ?a1)" "carry_ok (snd (extract32 e2))"
    using column_dm [OF c1(2)] extract32_val [of e1] by (simp_all add: e2_def)
  have c3: "accval e3 = accval e2 div B64 + (2 * (?a0 * ?a3) + 2 * (?a1 * ?a2))"
      "carry_ok (snd (extract32 e3))"
    using column_dd [OF c2(2)] extract32_val [of e2] by (simp_all add: e3_def)
  have c4: "accval e4 = accval e3 div B64 + (2 * (?a1 * ?a3) + ?a2 * ?a2)" "carry_ok (snd (extract32 e4))"
    using column_dm [OF c3(2)] extract32_val [of e3] by (simp_all add: e4_def)
  have c5: "accval e5 = accval e4 div B64 + 2 * (?a2 * ?a3)" "carry_ok (snd (extract32 e5))"
    using column_d [OF c4(2)] extract32_val [of e4] by (simp_all add: e5_def)
  define v6 where "v6 = accval e5 div B64 + ?a3 * ?a3"
  have total: "sval a * sval a = accval e0 mod B64 + B64 * (accval e1 mod B64) +
      B64 ^ 2 * (accval e2 mod B64) + B64 ^ 3 * (accval e3 mod B64) + B64 ^ 4 * (accval e4 mod B64) +
      B64 ^ 5 * (accval e5 mod B64) + B64 ^ 6 * v6"
    unfolding sval_def square_columns v0 [symmetric]
    by (rule columns7 [OF c1(1) c2(1) c3(1) c4(1) c5(1) v6_def])
  then have "B64 ^ 6 * v6 < B64 ^ 6 * B64 ^ 2"
    using sval_mult_lt [of a a] by simp
  then have "v6 < B64 ^ 2" by simp
  then have v6: "accval e6 = v6" "snd (snd e6) = 0"
    using muladd_fast_val [of "snd (extract32 e5)" "d3 a" "d3 a"] extract32_val [of e5]
    by (simp_all add: e6_def v6_def)
  have "unat (fst (extract_fast e6)) + B64 * unat (fst (snd (extract_fast e6))) = v6"
  proof -
    obtain x0 x1 where x: "e6 = (x0, x1, 0)" using v6(2) by (cases e6) simp
    then show ?thesis using v6(1) by (simp add: extract_fast.simps)
  qed
  then show ?thesis
    unfolding model total lval_def using extract_fast_val [OF t0] extract32_val [of e1]
      extract32_val [of e2] extract32_val [of e3] extract32_val [of e4] extract32_val [of e5]
    by simp
qed

lemma sqr_val: "sval (secp256k1_scalar_sqr a) = sval a * sval a mod secp256k1_n"
  by (simp add: secp256k1_scalar_sqr_def reduce_512_val sqr_512_val)

text \<open>
  the dedicated squaring routine, with its doubled cross products, is the
  multiplication of a scalar by itself.
\<close>

theorem scalar_sqr_is_mul: "secp256k1_scalar_sqr a = secp256k1_scalar_mul a a"
proof -
  have "sval (secp256k1_scalar_sqr a) = sval (secp256k1_scalar_mul a a)"
    by (simp add: sqr_val mul_val)
  then show ?thesis by (simp only: sval_inject)
qed

end
