(* ===== verification/Certs.thy ===== *)
theory Certs
  imports Stream_Codec Scalar_4x64_Correct
begin

text \<open>
  Signatures and certificates (\<open>include/hotstuff/crypto.h\<close>, \<open>src/crypto.cpp\<close>) and the
  replica configuration (\<open>include/hotstuff/entity.h\<close>). A signature is the pair of scalars
  that \<open>secp256k1_ecdsa_signature\<close> holds; the group operation behind signing and verifying
  is a parameter: \<open>ver pk h g\<close> is \<open>secp256k1_ecdsa_verify\<close> and \<open>sign h\<close> is
  \<open>secp256k1_ecdsa_sign\<close> under the private key of the replica.
\<close>

type_synonym rid = u16

datatype cert_error =
    StreamError stream_error
  | IllFormedSignature      \<comment> \<open>\<open>std::invalid_argument("ill-formed signature")\<close>\<close>
  | PartCertMismatch        \<comment> \<open>\<open>std::invalid_argument("PartCert does match the block hash")\<close>\<close>
  | RidNotFound             \<comment> \<open>\<open>HotStuffError("rid %s not found")\<close>\<close>
  | SigMissing              \<comment> \<open>\<open>std::out_of_range\<close> of \<open>sigs.at\<close>, or an indeterminate signature from \<open>sigs[i]\<close>\<close>
  | NullPointer             \<comment> \<open>dereference of an empty certificate handle\<close>
  | BitsAccess              \<comment> \<open>access outside the words of a bit vector\<close>

section \<open>Signatures\<close>

record signature =
  sig_r :: scalar
  sig_s :: scalar

definition secp256k1_ecdsa_signature_parse_compact :: "bytes \<Rightarrow> signature option" where
  "secp256k1_ecdsa_signature_parse_compact input64 =
     (let (r, overflow) = secp256k1_scalar_set_b32 (take 32 input64);
          ret = (\<not> overflow);
          (s, overflow) = secp256k1_scalar_set_b32 (take 32 (drop 32 input64));
          ret = (ret \<and> \<not> overflow)
      in if ret then Some \<lparr>sig_r = r, sig_s = s\<rparr> else None)"

definition secp256k1_ecdsa_signature_serialize_compact :: "signature \<Rightarrow> bytes" where
  "secp256k1_ecdsa_signature_serialize_compact g =
     secp256k1_scalar_get_b32 (sig_r g) @ secp256k1_scalar_get_b32 (sig_s g)"

definition sig_serialize :: "signature \<Rightarrow> datastream \<Rightarrow> datastream" where
  "sig_serialize g s = ds_put_data (secp256k1_ecdsa_signature_serialize_compact g) s"

definition sig_unserialize :: "datastream \<Rightarrow> cert_error + (signature \<times> datastream)" where
  "sig_unserialize s =
     (case ds_get_data_inplace 64 s of
        (Inl _, _) \<Rightarrow> Inl IllFormedSignature
      | (Inr bs, s') \<Rightarrow>
          (case secp256k1_ecdsa_signature_parse_compact bs of
             None \<Rightarrow> Inl IllFormedSignature
           | Some g \<Rightarrow> Inr (g, s')))"

definition sig_ok :: "signature \<Rightarrow> bool" where
  "sig_ok g = (scalar_ok (sig_r g) \<and> scalar_ok (sig_s g))"

lemma set_get_b32: "scalar_ok a \<Longrightarrow> secp256k1_scalar_set_b32 (secp256k1_scalar_get_b32 a) = (a, False)"
  using set_b32_val [OF length_get_b32, of a]
  by (cases "secp256k1_scalar_set_b32 (secp256k1_scalar_get_b32 a)")
    (simp add: get_b32_val scalar_ok_def sval_inject)

lemma length_compact [simp]: "length (secp256k1_ecdsa_signature_serialize_compact g) = 64"
  by (simp add: secp256k1_ecdsa_signature_serialize_compact_def length_get_b32)

lemma parse_serialize_compact:
  "sig_ok g \<Longrightarrow> secp256k1_ecdsa_signature_parse_compact (secp256k1_ecdsa_signature_serialize_compact g) = Some g"
  by (simp add: secp256k1_ecdsa_signature_parse_compact_def sig_ok_def set_get_b32 length_get_b32
      secp256k1_ecdsa_signature_serialize_compact_def)

interpretation sigc: codec sig_serialize secp256k1_ecdsa_signature_serialize_compact sig_unserialize sig_ok
proof unfold_locales
  fix g s r
  assume ok: "sig_ok g" and rest: "ds_rest s = secp256k1_ecdsa_signature_serialize_compact g @ r"
  have "secp256k1_ecdsa_signature_serialize_compact g \<noteq> []"
    using length_compact [of g] by (metis list.size(3) zero_neq_numeral)
  from rest_fits [OF rest this] have "offset s + 64 \<le> length (buffer s)" by simp
  moreover have "take 64 (drop (offset s) (buffer s)) = secp256k1_ecdsa_signature_serialize_compact g"
    using rest by (simp add: ds_rest_def)
  ultimately show "sig_unserialize s =
      Inr (g, ds_skip (length (secp256k1_ecdsa_signature_serialize_compact g)) s)"
    using parse_serialize_compact [OF ok]
    by (simp add: sig_unserialize_def ds_get_data_inplace_def Let_def ds_skip_def)
qed (simp add: sig_serialize_def)

section \<open>Replica configuration\<close>

record 'pk replica_info =
  ri_id :: rid
  peer_id :: hash
  pubkey :: 'pk

record 'pk replica_config =
  replica_map :: "rid \<rightharpoonup> 'pk replica_info"
  nreplicas :: u64
  nmajority :: u64

definition config_new :: "'pk replica_config" where
  "config_new = \<lparr>replica_map = Map.empty, nreplicas = 0, nmajority = 0\<rparr>"

text \<open>\<open>unordered_map::insert\<close> keeps an entry that is there; the count grows either way.\<close>

definition config_add_replica :: "rid \<Rightarrow> 'pk replica_info \<Rightarrow> 'pk replica_config \<Rightarrow> 'pk replica_config" where
  "config_add_replica r info c =
     c\<lparr>replica_map := (if r \<in> dom (replica_map c) then replica_map c else (replica_map c)(r \<mapsto> info)),
       nreplicas := nreplicas c + 1\<rparr>"

definition get_info :: "'pk replica_config \<Rightarrow> rid \<Rightarrow> cert_error + 'pk replica_info" where
  "get_info c r = (case replica_map c r of None \<Rightarrow> Inl RidNotFound | Some i \<Rightarrow> Inr i)"

definition get_pubkey :: "'pk replica_config \<Rightarrow> rid \<Rightarrow> cert_error + 'pk" where
  "get_pubkey c r = sbind (get_info c r) (\<lambda>i. Inr (pubkey i))"

definition get_peer_id :: "'pk replica_config \<Rightarrow> rid \<Rightarrow> cert_error + hash" where
  "get_peer_id c r = sbind (get_info c r) (\<lambda>i. Inr (peer_id i))"

section \<open>Partial certificates\<close>

record part_cert =
  pc_obj_hash :: hash
  pc_sig :: signature

definition create_part_cert :: "(hash \<Rightarrow> signature) \<Rightarrow> hash \<Rightarrow> part_cert" where
  "create_part_cert sign h = \<lparr>pc_obj_hash = h, pc_sig = sign h\<rparr>"

definition pc_verify :: "('pk \<Rightarrow> hash \<Rightarrow> signature \<Rightarrow> bool) \<Rightarrow> 'pk \<Rightarrow> part_cert \<Rightarrow> bool" where
  "pc_verify ver pk pc = ver pk (pc_obj_hash pc) (pc_sig pc)"

definition pc_serialize :: "part_cert \<Rightarrow> datastream \<Rightarrow> datastream" where
  "pc_serialize pc s = sig_serialize (pc_sig pc) (ds_put (pc_obj_hash pc) s)"

definition pc_unserialize :: "datastream \<Rightarrow> cert_error + (part_cert \<times> datastream)" where
  "pc_unserialize s =
     sbind (map_err StreamError (ds_get s)) (\<lambda>(h, s1).
     sbind (sig_unserialize s1) (\<lambda>(g, s2). Inr (\<lparr>pc_obj_hash = h, pc_sig = g\<rparr>, s2)))"

definition pc_enc :: "part_cert \<Rightarrow> bytes" where
  "pc_enc pc = int_enc (pc_obj_hash pc) @ secp256k1_ecdsa_signature_serialize_compact (pc_sig pc)"

interpretation pcc: codec pc_serialize pc_enc pc_unserialize "\<lambda>pc. sig_ok (pc_sig pc)"
proof unfold_locales
  fix pc s r
  assume ok: "sig_ok (pc_sig pc)" and rest: "ds_rest s = pc_enc pc @ r"
  have rest1: "ds_rest s = int_enc (pc_obj_hash pc) @
      secp256k1_ecdsa_signature_serialize_compact (pc_sig pc) @ r"
    using rest by (simp add: pc_enc_def)
  show "pc_unserialize s = Inr (pc, ds_skip (length (pc_enc pc)) s)"
    using u256c.get_enc [OF _ rest1] sigc.get_enc [OF ok ds_rest_skip [OF rest1]]
    by (simp add: pc_unserialize_def pc_enc_def)
qed (simp add: pc_serialize_def pc_enc_def ds_put_int sigc.put_enc)

section \<open>Quorum certificates\<close>

record qc_secp =
  qc_hash :: hash
  rids :: bits
  sigs :: "rid \<rightharpoonup> signature"

text \<open>
  The class hierarchy of \<open>QuorumCert\<close>: the genesis block is constructed with a
  \<open>QuorumCertDummy\<close>, everything else uses \<open>QuorumCertSecp256k1\<close>.
\<close>

datatype quorum_cert = QuorumCertDummy hash | QuorumCertSecp256k1 qc_secp

fun qc_get_obj_hash :: "quorum_cert \<Rightarrow> hash" where
  "qc_get_obj_hash (QuorumCertDummy h) = h"
| "qc_get_obj_hash (QuorumCertSecp256k1 q) = qc_hash q"

text \<open>\<open>rids(config.nreplicas)\<close> narrows \<open>size_t\<close> to \<open>uint32_t\<close>; \<open>clear\<close> makes the words zero.\<close>

definition create_quorum_cert :: "'pk replica_config \<Rightarrow> hash \<Rightarrow> quorum_cert" where
  "create_quorum_cert c h = QuorumCertSecp256k1
     \<lparr>qc_hash = h, rids = bits_clear (bits_new (ucast (nreplicas c)) (\<lambda>_. 0)), sigs = Map.empty\<rparr>"

fun qc_add_part :: "rid \<Rightarrow> part_cert \<Rightarrow> quorum_cert \<Rightarrow> cert_error + quorum_cert" where
  "qc_add_part r pc (QuorumCertDummy h) = Inr (QuorumCertDummy h)"
| "qc_add_part r pc (QuorumCertSecp256k1 q) =
     (if pc_obj_hash pc \<noteq> qc_hash q then Inl PartCertMismatch
      else case bits_set (rids q) (ucast r) of
             None \<Rightarrow> Inl BitsAccess
           | Some b \<Rightarrow> Inr (QuorumCertSecp256k1 (q\<lparr>
               sigs := (if r \<in> dom (sigs q) then sigs q else (sigs q)(r \<mapsto> pc_sig pc)),
               rids := b\<rparr>)))"

text \<open>The loop of \<open>QuorumCertSecp256k1::verify\<close> over the indices of the bit vector.\<close>

fun qc_verify_loop ::
  "('pk \<Rightarrow> hash \<Rightarrow> signature \<Rightarrow> bool) \<Rightarrow> 'pk replica_config \<Rightarrow> qc_secp \<Rightarrow> nat list \<Rightarrow> cert_error + bool"
where
  "qc_verify_loop ver c q [] = Inr True"
| "qc_verify_loop ver c q (i # is) =
     (case bits_get (rids q) (word_of_nat i) of
        None \<Rightarrow> Inl BitsAccess
      | Some v \<Rightarrow>
          if v = 0 then qc_verify_loop ver c q is
          else sbind (get_pubkey c (word_of_nat i)) (\<lambda>pk.
            case sigs q (word_of_nat i) of
              None \<Rightarrow> Inl SigMissing
            | Some g \<Rightarrow> if ver pk (qc_hash q) g then qc_verify_loop ver c q is else Inr False))"

fun qc_verify ::
  "('pk \<Rightarrow> hash \<Rightarrow> signature \<Rightarrow> bool) \<Rightarrow> 'pk replica_config \<Rightarrow> quorum_cert \<Rightarrow> cert_error + bool"
where
  "qc_verify ver c (QuorumCertDummy h) = Inr True"
| "qc_verify ver c (QuorumCertSecp256k1 q) =
     (if card (dom (sigs q)) < unat (nmajority c) then Inr False
      else qc_verify_loop ver c q [0..<unat (nbits (rids q))])"

text \<open>
  The asynchronous variant first queues one task per set bit (\<open>vpool.verify\<close>) and then
  conjoins the results (\<open>promise::all\<close>).
\<close>

fun qc_verify_tasks :: "'pk replica_config \<Rightarrow> qc_secp \<Rightarrow> nat list \<Rightarrow> cert_error + ('pk \<times> signature) list" where
  "qc_verify_tasks c q [] = Inr []"
| "qc_verify_tasks c q (i # is) =
     (case bits_get (rids q) (word_of_nat i) of
        None \<Rightarrow> Inl BitsAccess
      | Some v \<Rightarrow>
          if v = 0 then qc_verify_tasks c q is
          else sbind (get_pubkey c (word_of_nat i)) (\<lambda>pk.
            case sigs q (word_of_nat i) of
              None \<Rightarrow> Inl SigMissing
            | Some g \<Rightarrow> sbind (qc_verify_tasks c q is) (\<lambda>ts. Inr ((pk, g) # ts))))"

fun qc_verify_async ::
  "('pk \<Rightarrow> hash \<Rightarrow> signature \<Rightarrow> bool) \<Rightarrow> 'pk replica_config \<Rightarrow> quorum_cert \<Rightarrow> cert_error + bool"
where
  "qc_verify_async ver c (QuorumCertDummy h) = Inr True"
| "qc_verify_async ver c (QuorumCertSecp256k1 q) =
     (if card (dom (sigs q)) < unat (nmajority c) then Inr False
      else sbind (qc_verify_tasks c q [0..<unat (nbits (rids q))]) (\<lambda>ts.
        Inr (list_all (\<lambda>(pk, g). ver pk (qc_hash q) g) ts)))"

fun qc_put_sigs :: "qc_secp \<Rightarrow> nat list \<Rightarrow> datastream \<Rightarrow> cert_error + datastream" where
  "qc_put_sigs q [] s = Inr s"
| "qc_put_sigs q (i # is) s =
     (case bits_get (rids q) (word_of_nat i) of
        None \<Rightarrow> Inl BitsAccess
      | Some v \<Rightarrow>
          if v = 0 then qc_put_sigs q is s
          else case sigs q (word_of_nat i) of
                 None \<Rightarrow> Inl SigMissing
               | Some g \<Rightarrow> qc_put_sigs q is (sig_serialize g s))"

fun qc_serialize :: "quorum_cert \<Rightarrow> datastream \<Rightarrow> cert_error + datastream" where
  "qc_serialize (QuorumCertDummy h) s = Inr (ds_put h (ds_put (1 :: u32) s))"
| "qc_serialize (QuorumCertSecp256k1 q) s =
     qc_put_sigs q [0..<unat (nbits (rids q))] (bits_serialize (rids q) (ds_put (qc_hash q) s))"

fun qc_get_sigs ::
  "bits \<Rightarrow> nat list \<Rightarrow> (rid \<rightharpoonup> signature) \<Rightarrow> datastream \<Rightarrow> cert_error + ((rid \<rightharpoonup> signature) \<times> datastream)"
where
  "qc_get_sigs b [] m s = Inr (m, s)"
| "qc_get_sigs b (i # is) m s =
     (case bits_get b (word_of_nat i) of
        None \<Rightarrow> Inl BitsAccess
      | Some v \<Rightarrow>
          if v = 0 then qc_get_sigs b is m s
          else sbind (sig_unserialize s) (\<lambda>(g, s'). qc_get_sigs b is (m(word_of_nat i \<mapsto> g)) s'))"

text \<open>\<open>parse_quorum_cert\<close> of the secp256k1 instance.\<close>

definition parse_quorum_cert :: "datastream \<Rightarrow> cert_error + (quorum_cert \<times> datastream)" where
  "parse_quorum_cert s =
     sbind (map_err StreamError (ds_get s)) (\<lambda>(h, s1).
     sbind (map_err StreamError (bits_unserialize s1)) (\<lambda>(b, s2).
     sbind (qc_get_sigs b [0..<unat (nbits b)] Map.empty s2) (\<lambda>(m, s3).
       Inr (QuorumCertSecp256k1 \<lparr>qc_hash = h, rids = b, sigs = m\<rparr>, s3))))"

subsection \<open>Round trip\<close>

definition qc_signed :: "bits \<Rightarrow> nat \<Rightarrow> bool" where
  "qc_signed b i = (case bits_get b (word_of_nat i) of None \<Rightarrow> False | Some v \<Rightarrow> v \<noteq> 0)"

definition qc_secp_ok :: "qc_secp \<Rightarrow> bool" where
  "qc_secp_ok q =
     (bits_wf (rids q) \<and> unat (nbits (rids q)) \<le> 65536 \<and>
      dom (sigs q) = word_of_nat ` set (filter (qc_signed (rids q)) [0..<unat (nbits (rids q))]) \<and>
      (\<forall>g\<in>ran (sigs q). sig_ok g))"

fun qc_ok :: "quorum_cert \<Rightarrow> bool" where
  "qc_ok (QuorumCertDummy h) = False"
| "qc_ok (QuorumCertSecp256k1 q) = qc_secp_ok q"

definition qc_sig_enc :: "qc_secp \<Rightarrow> nat list \<Rightarrow> bytes" where
  "qc_sig_enc q is = concat (map (\<lambda>i. secp256k1_ecdsa_signature_serialize_compact
     (the (sigs q (word_of_nat i)))) (filter (qc_signed (rids q)) is))"

fun qc_enc :: "quorum_cert \<Rightarrow> bytes" where
  "qc_enc (QuorumCertDummy h) = int_enc (1 :: u32) @ int_enc h"
| "qc_enc (QuorumCertSecp256k1 q) =
     int_enc (qc_hash q) @ bits_enc (rids q) @ qc_sig_enc q [0..<unat (nbits (rids q))]"

lemma bits_get_defined:
  assumes "bits_wf b" and "unat (nbits b) \<le> 65536" and "i < unat (nbits b)"
  shows "\<exists>v. bits_get b (word_of_nat i) = Some v"
proof -
  have "unat (word_of_nat i :: u32) = i"
    using assms by (simp add: unat_of_nat)
  then have "unat (drop_bit 6 (word_of_nat i :: u32)) < unat (ndata b)"
    by (intro bits_index_in_range) (use assms in \<open>simp_all add: word_less_nat_alt\<close>)
  then show ?thesis
    using assms(1) by (auto simp: bits_get_def bits_word_def bits_wf_def Let_def split: option.splits)
qed

lemma qc_signed_iff: "bits_get b (word_of_nat i) = Some v \<Longrightarrow> qc_signed b i = (v \<noteq> 0)"
  by (simp add: qc_signed_def)

definition qc_loop_ok :: "qc_secp \<Rightarrow> nat list \<Rightarrow> bool" where
  "qc_loop_ok q is = (\<forall>i\<in>set is. bits_get (rids q) (word_of_nat i) \<noteq> None \<and>
     (qc_signed (rids q) i \<longrightarrow> (\<exists>g. sigs q (word_of_nat i) = Some g \<and> sig_ok g)))"

lemma qc_loop_ok_Cons:
  "qc_loop_ok q (i # is) \<Longrightarrow> qc_loop_ok q is \<and> (\<exists>v. bits_get (rids q) (word_of_nat i) = Some v \<and>
     (v = 0 \<or> (\<exists>g. sigs q (word_of_nat i) = Some g \<and> sig_ok g)))"
  by (auto simp: qc_loop_ok_def qc_signed_def)

lemma qc_put_sigs_enc: "qc_loop_ok q is \<Longrightarrow> qc_put_sigs q is s = Inr (ds_put_data (qc_sig_enc q is) s)"
proof (induction "is" arbitrary: s)
  case (Cons i "is")
  then show ?case
    using qc_loop_ok_Cons [OF Cons.prems]
    by (auto simp: qc_sig_enc_def qc_signed_def sigc.put_enc)
qed (simp add: qc_sig_enc_def)

lemma qc_get_sigs_enc:
  "qc_loop_ok q is \<Longrightarrow> ds_rest s = qc_sig_enc q is @ r \<Longrightarrow>
   qc_get_sigs (rids q) is m s =
     Inr (m ++ (sigs q |` (word_of_nat ` set (filter (qc_signed (rids q)) is))),
          ds_skip (length (qc_sig_enc q is)) s)"
proof (induction "is" arbitrary: s m)
  case (Cons i "is")
  obtain v where v: "bits_get (rids q) (word_of_nat i) = Some v" and ok: "qc_loop_ok q is"
    and g: "v = 0 \<or> (\<exists>g. sigs q (word_of_nat i) = Some g \<and> sig_ok g)"
    using qc_loop_ok_Cons [OF Cons.prems(1)] by blast
  show ?case
  proof (cases "v = 0")
    case True
    then show ?thesis using Cons.IH [OF ok, of s m] Cons.prems(2) v
      by (simp add: qc_sig_enc_def qc_signed_def)
  next
    case False
    with g obtain g where g: "sigs q (word_of_nat i) = Some g" "sig_ok g" by blast
    let ?e = "secp256k1_ecdsa_signature_serialize_compact g"
    have enc: "qc_sig_enc q (i # is) = ?e @ qc_sig_enc q is"
      using v False g by (simp add: qc_sig_enc_def qc_signed_def)
    have rest: "ds_rest s = ?e @ qc_sig_enc q is @ r" using Cons.prems(2) enc by simp
    let ?D = "word_of_nat ` set (filter (qc_signed (rids q)) is) :: rid set"
    have upd: "m(word_of_nat i \<mapsto> g) ++ (sigs q |` ?D) = m ++ (sigs q |` insert (word_of_nat i) ?D)"
      using g(1) by (auto simp: fun_eq_iff map_add_def restrict_map_def split: option.splits)
    have signed: "qc_signed (rids q) i" using v False by (simp add: qc_signed_def)
    have "qc_get_sigs (rids q) (i # is) m s =
        qc_get_sigs (rids q) is (m(word_of_nat i \<mapsto> g)) (ds_skip (length ?e) s)"
      using sigc.get_enc [OF g(2) rest] v False by simp
    also note Cons.IH [OF ok ds_rest_skip [OF rest], of "m(word_of_nat i \<mapsto> g)"]
    finally show ?thesis
      by (simp only: upd enc signed filter.simps if_True list.set image_insert ds_skip_skip length_append)
  qed
qed (simp add: qc_sig_enc_def)

lemma qc_secp_ok_loop: "qc_secp_ok q \<Longrightarrow> qc_loop_ok q [0..<unat (nbits (rids q))]"
proof -
  assume ok: "qc_secp_ok q"
  have "\<exists>g. sigs q (word_of_nat i) = Some g \<and> sig_ok g"
    if "i < unat (nbits (rids q))" "qc_signed (rids q) i" for i
  proof -
    have "word_of_nat i \<in> dom (sigs q)" using ok that by (auto simp: qc_secp_ok_def)
    then show ?thesis using ok by (auto simp: qc_secp_ok_def ran_def)
  qed
  then show ?thesis
    using ok bits_get_defined by (fastforce simp: qc_loop_ok_def qc_secp_ok_def)
qed

interpretation qcc: fcodec qc_serialize qc_enc parse_quorum_cert qc_ok
proof unfold_locales
  fix x s assume "qc_ok x"
  then obtain q where x: "x = QuorumCertSecp256k1 q" and ok: "qc_secp_ok q" by (cases x) auto
  have wf: "bits_wf (rids q)" using ok by (simp add: qc_secp_ok_def)
  show "qc_serialize x s = Inr (ds_put_data (qc_enc x) s)"
    by (simp add: x qc_put_sigs_enc [OF qc_secp_ok_loop [OF ok]] bitsc.put_enc [OF wf] ds_put_int)
next
  fix x s r assume "qc_ok x" and rest: "ds_rest s = qc_enc x @ r"
  then obtain q where x: "x = QuorumCertSecp256k1 q" and ok: "qc_secp_ok q" by (cases x) auto
  let ?is = "[0..<unat (nbits (rids q))]"
  have wf: "bits_wf (rids q)" using ok by (simp add: qc_secp_ok_def)
  have rest0: "ds_rest s = int_enc (qc_hash q) @ bits_enc (rids q) @ qc_sig_enc q ?is @ r"
    using rest by (simp add: x)
  note rest1 = ds_rest_skip [OF rest0]
  note rest2 = ds_rest_skip [OF rest1]
  have dom: "word_of_nat ` set (filter (qc_signed (rids q)) ?is) = dom (sigs q)"
    using ok by (simp only: qc_secp_ok_def)
  have get: "qc_get_sigs (rids q) ?is Map.empty (ds_skip (length (bits_enc (rids q))) (ds_skip (length (int_enc (qc_hash q))) s))
      = Inr (sigs q, ds_skip (length (qc_sig_enc q ?is)) (ds_skip (length (bits_enc (rids q))) (ds_skip (length (int_enc (qc_hash q))) s)))"
    unfolding qc_get_sigs_enc [OF qc_secp_ok_loop [OF ok] rest2] dom
    by (auto simp: fun_eq_iff restrict_map_def map_add_def dom_def split: option.splits)
  show "parse_quorum_cert s = Inr (x, ds_skip (length (qc_enc x)) s)"
    using u256c.get_enc [OF _ rest0] bitsc.get_enc [OF wf rest1] get
    by (simp add: parse_quorum_cert_def x add.assoc)
qed

text \<open>
  C19: a quorum certificate whose bit vector names exactly the replicas with a signature
  (and all signatures are pairs of reduced scalars) is written without an error, and
  parsing the bytes in front of any suffix gives back the same certificate with the
  read offset just behind it.
\<close>

theorem quorum_cert_roundtrip:
  assumes "qc_ok q"
  shows "\<exists>s. qc_serialize q ds_new = Inr s \<and>
    parse_quorum_cert (ds_of_bytes (buffer s @ r)) =
      Inr (q, ds_skip (length (buffer s)) (ds_of_bytes (buffer s @ r)))"
  by (rule qcc.froundtrip [OF assms])

subsection \<open>What an accepted certificate proves\<close>

lemma qc_verify_loop_accepts:
  "qc_verify_loop ver c q is = Inr True \<Longrightarrow> i \<in> set is \<Longrightarrow> qc_signed (rids q) i \<Longrightarrow>
   \<exists>info g. replica_map c (word_of_nat i) = Some info \<and> sigs q (word_of_nat i) = Some g \<and>
     ver (pubkey info) (qc_hash q) g"
  by (induction ver c q "is" rule: qc_verify_loop.induct)
    (auto simp: qc_signed_def get_pubkey_def get_info_def sbind_eq_Inr
      split: option.splits if_splits)

lemma qc_get_sigs_dom:
  "qc_get_sigs b is m s = Inr (m', s') \<Longrightarrow>
   dom m' = dom m \<union> word_of_nat ` set (filter (qc_signed b) is)"
proof (induction "is" arbitrary: m s)
  case (Cons i "is")
  obtain v where v: "bits_get b (word_of_nat i) = Some v"
    using Cons.prems by (cases "bits_get b (word_of_nat i)") auto
  show ?case
  proof (cases "v = 0")
    case True
    then show ?thesis using Cons.IH [of m s] Cons.prems v by (simp add: qc_signed_iff)
  next
    case False
    then obtain g s1 where "qc_get_sigs b is (m(word_of_nat i \<mapsto> g)) s1 = Inr (m', s')"
      using Cons.prems v by (auto simp: sbind_eq_Inr)
    from Cons.IH [OF this] show ?thesis using v False by (auto simp: qc_signed_iff split: if_splits)
  qed
qed simp

lemma parse_quorum_cert_dom:
  assumes "parse_quorum_cert s = Inr (x, s')"
  shows "\<exists>q. x = QuorumCertSecp256k1 q \<and>
    dom (sigs q) = word_of_nat ` set (filter (qc_signed (rids q)) [0..<unat (nbits (rids q))])"
  using assms by (auto simp: parse_quorum_cert_def sbind_eq_Inr split: prod.splits dest: qc_get_sigs_dom)

definition qc_valid_signers ::
  "('pk \<Rightarrow> hash \<Rightarrow> signature \<Rightarrow> bool) \<Rightarrow> 'pk replica_config \<Rightarrow> qc_secp \<Rightarrow> rid set"
where
  "qc_valid_signers ver c q = {r. \<exists>info g. replica_map c r = Some info \<and> sigs q r = Some g \<and>
     ver (pubkey info) (qc_hash q) g}"

lemma qc_verify_quorum:
  assumes "dom (sigs q) = word_of_nat ` set (filter (qc_signed (rids q)) [0..<unat (nbits (rids q))])"
    and "qc_verify ver c (QuorumCertSecp256k1 q) = Inr True"
  shows "unat (nmajority c) \<le> card (qc_valid_signers ver c q)"
proof -
  have loop: "qc_verify_loop ver c q [0..<unat (nbits (rids q))] = Inr True"
    and le: "unat (nmajority c) \<le> card (dom (sigs q))"
    using assms(2) by (auto split: if_splits)
  have "dom (sigs q) \<subseteq> qc_valid_signers ver c q"
    unfolding assms(1) qc_valid_signers_def
    using qc_verify_loop_accepts [OF loop] by auto
  then have "card (dom (sigs q)) \<le> card (qc_valid_signers ver c q)"
    by (rule card_mono [rotated]) simp
  with le show ?thesis by linarith
qed

text \<open>
  C5: a certificate that comes off the wire and that \<open>verify\<close> accepts carries valid
  signatures on its object hash from at least \<open>nmajority\<close> distinct replicas of the
  configuration: neither repeated indices nor indices that wrap around the 16-bit
  replica id can stand in for a missing signer.
\<close>

theorem accepted_qc_has_quorum:
  assumes "parse_quorum_cert s = Inr (QuorumCertSecp256k1 q, s')"
    and "qc_verify ver c (QuorumCertSecp256k1 q) = Inr True"
  shows "unat (nmajority c) \<le> card {r. \<exists>info g. replica_map c r = Some info \<and> sigs q r = Some g \<and>
           ver (pubkey info) (qc_hash q) g}"
  using parse_quorum_cert_dom [OF assms(1)] qc_verify_quorum [OF _ assms(2)]
  by (simp add: qc_valid_signers_def)

lemma qc_verify_tasks_loop:
  "qc_verify_tasks c q is = Inr ts \<Longrightarrow>
   qc_verify_loop ver c q is = Inr (list_all (\<lambda>(pk, g). ver pk (qc_hash q) g) ts)"
proof (induction "is" arbitrary: ts)
  case (Cons i "is")
  then show ?case
    by (cases "bits_get (rids q) (word_of_nat i)"; cases "sigs q (word_of_nat i)")
      (auto simp: sbind_eq_Inr split: if_splits)
qed simp

lemma qc_verify_loop_tasks:
  "qc_verify_loop ver c q is = Inr True \<Longrightarrow> \<exists>ts. qc_verify_tasks c q is = Inr ts"
  by (induction ver c q "is" rule: qc_verify_loop.induct)
    (auto simp: sbind_eq_Inr split: option.splits if_splits)

text \<open>
  the pooled verification that queues one task per signer and conjoins the results
  accepts exactly the certificates the sequential loop accepts.
\<close>

theorem qc_verify_async_equiv:
  "(qc_verify_async ver c x = Inr True) = (qc_verify ver c x = Inr True)"
proof (cases x)
  case (QuorumCertSecp256k1 q)
  let ?is = "[0..<unat (nbits (rids q))]"
  show ?thesis
  proof (cases "qc_verify_tasks c q ?is")
    case (Inl e)
    then have "qc_verify_loop ver c q ?is \<noteq> Inr True" using qc_verify_loop_tasks by fastforce
    with Inl show ?thesis by (simp add: QuorumCertSecp256k1)
  next
    case (Inr ts)
    then show ?thesis
      using qc_verify_tasks_loop [OF Inr, of ver] by (simp add: QuorumCertSecp256k1)
  qed
qed simp

subsection \<open>Building a certificate from votes\<close>

lemma qc_new_ok: "unat (ucast (nreplicas c) :: u32) \<le> 65536 \<Longrightarrow> qc_ok (create_quorum_cert c h)"
  using bits_get_cleared [of "ucast (nreplicas c)" "\<lambda>_. 0"] bits_wf_cleared [of "ucast (nreplicas c)" "\<lambda>_. 0"]
  by (auto simp: create_quorum_cert_def qc_secp_ok_def qc_signed_def bits_clear_new split: option.splits)

lemma qc_signed_cong: "(\<And>i. i < n \<Longrightarrow> qc_signed b' i = P i) \<Longrightarrow>
   set (filter (qc_signed b') [0..<n]) = {i. i < n \<and> P i}"
  by auto

lemma unat_rid32: "unat (ucast (r :: rid) :: u32) = unat r"
proof -
  have "unat r < 2 ^ 16" using unsigned_less [of r, where 'a = nat] by simp
  then show ?thesis by (simp add: unsigned_ucast_eq take_bit_nat_eq_self)
qed

lemma qc_add_part_ok:
  assumes ok: "qc_secp_ok q" and r: "unat r < unat (nbits (rids q))"
    and pc: "pc_obj_hash pc = qc_hash q" "sig_ok (pc_sig pc)"
  shows "\<exists>q'. qc_add_part r pc (QuorumCertSecp256k1 q) = Inr (QuorumCertSecp256k1 q') \<and> qc_secp_ok q' \<and>
    qc_hash q' = qc_hash q \<and> nbits (rids q') = nbits (rids q) \<and>
    sigs q' = (if r \<in> dom (sigs q) then sigs q else (sigs q)(r \<mapsto> pc_sig pc))"
proof -
  let ?n = "unat (nbits (rids q))"
  have wf: "bits_wf (rids q)" and n: "?n \<le> 65536" using ok by (simp_all add: qc_secp_ok_def)
  have "?n + 63 < 2 ^ 32" "(ucast r :: u32) < nbits (rids q)"
    using n r by (simp_all add: word_less_nat_alt unat_rid32)
  from bits_set_spec [OF wf this] obtain b' where
    b': "bits_set (rids q) (ucast r) = Some b'" "bits_wf b'" "nbits b' = nbits (rids q)"
      "\<And>j. bits_get b' j = (if j = ucast r then Some 1 else bits_get (rids q) j)" by blast
  have idx: "((word_of_nat i :: u32) = ucast r) = (i = unat r)" if "i < ?n" for i
    using that n unat_rid32 [of r] by (auto simp: word_unat_eq_iff unat_of_nat)
  have "qc_signed b' i = (i = unat r \<or> qc_signed (rids q) i)" if "i < ?n" for i
    using idx [OF that] by (simp add: qc_signed_def b'(4))
  then have "set (filter (qc_signed b') [0..<?n]) = insert (unat r) (set (filter (qc_signed (rids q)) [0..<?n]))"
    using r by auto
  then have dom: "word_of_nat ` set (filter (qc_signed b') [0..<?n]) = insert r (dom (sigs q))"
    using ok by (simp add: qc_secp_ok_def word_nat)
  let ?m = "if r \<in> dom (sigs q) then sigs q else (sigs q)(r \<mapsto> pc_sig pc)"
  have "\<forall>g\<in>ran ?m. sig_ok g"
    using ok pc(2) by (auto simp: qc_secp_ok_def ran_def)
  moreover have "dom ?m = insert r (dom (sigs q))" by auto
  ultimately have "qc_secp_ok (q\<lparr>sigs := ?m, rids := b'\<rparr>)"
    using b' n dom by (auto simp: qc_secp_ok_def)
  then show ?thesis using b' pc(1) by (intro exI [of _ "q\<lparr>sigs := ?m, rids := b'\<rparr>"]) auto
qed

text \<open>A certificate over four replicas signed by replicas 0, 1 and 3.\<close>

definition sample_sig :: signature where
  "sample_sig = \<lparr>sig_r = \<lparr>d0 = 5, d1 = 0, d2 = 0, d3 = 0\<rparr>, sig_s = \<lparr>d0 = 7, d1 = 0, d2 = 0, d3 = 0\<rparr>\<rparr>"

definition sample_qc :: qc_secp where
  "sample_qc = \<lparr>qc_hash = 42, rids = \<lparr>bits_data = Some [11], nbits = 4, ndata = 1\<rparr>,
     sigs = [0 \<mapsto> sample_sig, 1 \<mapsto> sample_sig, 3 \<mapsto> sample_sig]\<rparr>"

definition sample_config :: "unit replica_config" where
  "sample_config = \<lparr>replica_map = (\<lambda>r. if r < 4 then Some \<lparr>ri_id = r, peer_id = 0, pubkey = ()\<rparr> else None),
     nreplicas = 4, nmajority = 3\<rparr>"

lemma sample_bits: "[0..<unat (nbits (rids sample_qc))] = [0, 1, 2, 3]"
  "bits_get (rids sample_qc) 0 = Some 1" "bits_get (rids sample_qc) 1 = Some 1"
  "bits_get (rids sample_qc) 2 = Some 0" "bits_get (rids sample_qc) 3 = Some 1"
  by (simp_all add: sample_qc_def bits_get_def bits_word_def upt_rec)

lemma sample_signed: "filter (qc_signed (rids sample_qc)) [0..<unat (nbits (rids sample_qc))] = [0, 1, 3]"
  by (simp only: sample_bits(1)) (simp add: qc_signed_def sample_bits)

lemma sample_qc_ok: "qc_ok (QuorumCertSecp256k1 sample_qc)"
proof -
  have ok: "sig_ok sample_sig"
    by (simp add: sig_ok_def sample_sig_def scalar_ok_def sval_def secp256k1_n_def)
  have "bits_wf (rids sample_qc)" by (simp add: sample_qc_def bits_wf_def bits_ndata_def)
  moreover have "\<forall>g\<in>ran (sigs sample_qc). sig_ok g"
    using ok by (auto simp: sample_qc_def ran_def split: if_splits)
  moreover have "dom (sigs sample_qc) = {0, 1, 3}" by (auto simp: sample_qc_def split: if_splits)
  ultimately show ?thesis
    by (simp only: qc_ok.simps qc_secp_ok_def sample_signed) (simp add: sample_qc_def)
qed

theorem quorum_cert_roundtrip_witness:
  "\<exists>s. qc_serialize (QuorumCertSecp256k1 sample_qc) ds_new = Inr s \<and>
    parse_quorum_cert (ds_of_bytes (buffer s @ [1, 2])) =
      Inr (QuorumCertSecp256k1 sample_qc, ds_skip (length (buffer s)) (ds_of_bytes (buffer s @ [1, 2])))"
  by (rule quorum_cert_roundtrip [OF sample_qc_ok])

theorem accepted_qc_has_quorum_witness:
  "unat (nmajority sample_config) \<le> card {r. \<exists>info g. replica_map sample_config r = Some info \<and>
     sigs sample_qc r = Some g \<and> (\<lambda>pk h g. h = 42 \<and> g = sample_sig) (pubkey info) (qc_hash sample_qc) g}"
proof (rule accepted_qc_has_quorum)
  show "parse_quorum_cert (ds_of_bytes (qc_enc (QuorumCertSecp256k1 sample_qc) @ [])) =
      Inr (QuorumCertSecp256k1 sample_qc, ds_skip (length (qc_enc (QuorumCertSecp256k1 sample_qc)))
        (ds_of_bytes (qc_enc (QuorumCertSecp256k1 sample_qc) @ [])))"
    by (rule qcc.get_of_bytes [OF sample_qc_ok])
  have "dom (sigs sample_qc) = {0, 1, 3}" by (auto simp: sample_qc_def split: if_splits)
  then have card: "card (dom (sigs sample_qc)) = 3" by simp
  have sigs: "sigs sample_qc 0 = Some sample_sig" "sigs sample_qc 1 = Some sample_sig"
    "sigs sample_qc 3 = Some sample_sig" "qc_hash sample_qc = 42"
    by (simp_all add: sample_qc_def)
  show "qc_verify (\<lambda>pk h g. h = 42 \<and> g = sample_sig) sample_config (QuorumCertSecp256k1 sample_qc) = Inr True"
    by (simp only: qc_verify.simps sample_bits(1) card)
      (simp add: sample_bits sigs get_pubkey_def get_info_def sample_config_def)
qed

end
