(* ===== verification/Entity.thy ===== *)
theory Entity
  imports Certs
begin

text \<open>
  Blocks, commands and the entity storage (\<open>include/hotstuff/entity.h\<close>,
  \<open>src/entity.cpp\<close>, the dummy command of \<open>include/hotstuff/client.h\<close>). A handle
  \<open>block_t\<close> is represented by the identifier of the block it points to: every block
  object enters the program through \<open>add_blk\<close>, which returns the cached object of that
  identifier, and leaves the cache only when no other handle is left, so at any time
  there is one object per identifier. SHA-256 (OpenSSL) is the parameter \<open>sha\<close>.
\<close>

section \<open>Blocks\<close>

record block =
  parent_hashes :: "hash list"
  cmds :: "hash list"
  qc :: "quorum_cert option"
  extra :: bytes
  blk_hash :: hash
  parents :: "hash list"
  qc_ref :: "hash option"
  self_qc :: "quorum_cert option"
  height :: u32
  delivered :: bool
  decision :: u8
  voted :: "rid set"

definition block_new :: block where
  "block_new = \<lparr>parent_hashes = [], cmds = [], qc = None, extra = [], blk_hash = 0, parents = [],
     qc_ref = None, self_qc = None, height = 0, delivered = False, decision = 0, voted = {}\<rparr>"

definition block_serialize :: "block \<Rightarrow> datastream \<Rightarrow> cert_error + datastream" where
  "block_serialize b s =
     (let s = ds_put (word_of_nat (length (parent_hashes b)) :: u32) s;
          s = fold ds_put (parent_hashes b) s;
          s = ds_put (word_of_nat (length (cmds b)) :: u32) s;
          s = fold ds_put (cmds b) s
      in case qc b of
           None \<Rightarrow> Inl NullPointer
         | Some q \<Rightarrow> sbind (qc_serialize q s) (\<lambda>s.
             Inr (ds_put_data (extra b) (ds_put (word_of_nat (length (extra b)) :: u32) s))))"

definition block_get_hash :: "(bytes \<Rightarrow> hash) \<Rightarrow> block \<Rightarrow> cert_error + hash" where
  "block_get_hash sha b = sbind (block_serialize b ds_new) (\<lambda>s. Inr (ds_get_hash sha s))"

definition get_u32 :: "datastream \<Rightarrow> cert_error + (u32 \<times> datastream)" where
  "get_u32 s = map_err StreamError (ds_get s)"

definition get_hashes_from :: "u32 \<Rightarrow> datastream \<Rightarrow> cert_error + (hash list \<times> datastream)" where
  "get_hashes_from n s = map_err StreamError (ds_get_many ds_get (unat n) s)"

definition get_extra :: "u32 \<Rightarrow> datastream \<Rightarrow> cert_error + (bytes \<times> datastream)" where
  "get_extra n s =
     (if n = 0 then Inr ([], s)
      else case ds_get_data_inplace (unat n) s of
             (Inl e, _) \<Rightarrow> Inl (StreamError e)
           | (Inr bs, s') \<Rightarrow> Inr (bs, s'))"

definition block_unserialize :: "(bytes \<Rightarrow> hash) \<Rightarrow> datastream \<Rightarrow> cert_error + (block \<times> datastream)" where
  "block_unserialize sha s =
     sbind (get_u32 s) (\<lambda>(n, s).
     sbind (get_hashes_from n s) (\<lambda>(phs, s).
     sbind (get_u32 s) (\<lambda>(n, s).
     sbind (get_hashes_from n s) (\<lambda>(cs, s).
     sbind (parse_quorum_cert s) (\<lambda>(q, s).
     sbind (get_u32 s) (\<lambda>(n, s).
     sbind (get_extra n s) (\<lambda>(ex, s).
     let b = block_new\<lparr>parent_hashes := phs, cmds := cs, qc := Some q, extra := ex\<rparr> in
     sbind (block_get_hash sha b) (\<lambda>h. Inr (b\<lparr>blk_hash := h\<rparr>, s)))))))))"

text \<open>The constructors: \<open>Block(bool, int8_t)\<close> for genesis, and the one \<open>on_propose\<close> uses.\<close>

definition block_genesis :: "(bytes \<Rightarrow> hash) \<Rightarrow> block" where
  "block_genesis sha =
     (let b = block_new\<lparr>qc := Some (QuorumCertDummy 0), delivered := True, decision := 1\<rparr>
      in case block_get_hash sha b of Inl _ \<Rightarrow> b | Inr h \<Rightarrow> b\<lparr>blk_hash := h\<rparr>)"

definition block_make ::
  "(bytes \<Rightarrow> hash) \<Rightarrow> hash list \<Rightarrow> hash list \<Rightarrow> quorum_cert \<Rightarrow> bytes \<Rightarrow> u32 \<Rightarrow> hash option \<Rightarrow> cert_error + block"
where
  "block_make sha ps cs q ex ht qref =
     (let b = block_new\<lparr>parent_hashes := ps, cmds := cs, qc := Some q, extra := ex, parents := ps,
                qc_ref := qref, height := ht\<rparr>
      in sbind (block_get_hash sha b) (\<lambda>h. Inr (b\<lparr>blk_hash := h\<rparr>)))"

definition block_verify ::
  "('pk \<Rightarrow> hash \<Rightarrow> signature \<Rightarrow> bool) \<Rightarrow> hash \<Rightarrow> 'pk replica_config \<Rightarrow> block \<Rightarrow> cert_error + bool"
where
  "block_verify ver genesis c b =
     (case qc b of
        None \<Rightarrow> Inl NullPointer
      | Some q \<Rightarrow> if qc_get_obj_hash q = genesis then Inr True else qc_verify ver c q)"

definition block_verify_async ::
  "('pk \<Rightarrow> hash \<Rightarrow> signature \<Rightarrow> bool) \<Rightarrow> hash \<Rightarrow> 'pk replica_config \<Rightarrow> block \<Rightarrow> cert_error + bool"
where
  "block_verify_async ver genesis c b =
     (case qc b of
        None \<Rightarrow> Inl NullPointer
      | Some q \<Rightarrow> if qc_get_obj_hash q = genesis then Inr True else qc_verify_async ver c q)"

text \<open>\<open>BlockHeightCmp\<close>.\<close>

definition block_height_cmp :: "block \<Rightarrow> block \<Rightarrow> bool" where
  "block_height_cmp a b = (height a < height b)"

section \<open>Commands\<close>

record command =
  cid :: u32
  cmd_n :: u32
  cmd_hash :: hash

definition command_serialize :: "command \<Rightarrow> datastream \<Rightarrow> datastream" where
  "command_serialize c s = ds_put (cmd_n c) (ds_put (cid c) s)"

definition command_new :: "(bytes \<Rightarrow> hash) \<Rightarrow> u32 \<Rightarrow> u32 \<Rightarrow> command" where
  "command_new sha i k =
     (let c = \<lparr>cid = i, cmd_n = k, cmd_hash = 0\<rparr>
      in c\<lparr>cmd_hash := ds_get_hash sha (command_serialize c ds_new)\<rparr>)"

definition command_unserialize :: "(bytes \<Rightarrow> hash) \<Rightarrow> datastream \<Rightarrow> stream_error + (command \<times> datastream)" where
  "command_unserialize sha s =
     sbind (ds_get s) (\<lambda>(i, s). sbind (ds_get s) (\<lambda>(k, s). Inr (command_new sha i k, s)))"

section \<open>Entity storage\<close>

record entity_storage =
  blk_cache :: "hash \<rightharpoonup> block"
  cmd_cache :: "hash \<rightharpoonup> command"

definition storage_new :: entity_storage where
  "storage_new = \<lparr>blk_cache = Map.empty, cmd_cache = Map.empty\<rparr>"

definition is_blk_delivered :: "entity_storage \<Rightarrow> hash \<Rightarrow> bool" where
  "is_blk_delivered st h = (case blk_cache st h of None \<Rightarrow> False | Some b \<Rightarrow> delivered b)"

definition is_blk_fetched :: "entity_storage \<Rightarrow> hash \<Rightarrow> bool" where
  "is_blk_fetched st h = (h \<in> dom (blk_cache st))"

text \<open>\<open>insert\<close> keeps an entry that is there and the handle returned points to it.\<close>

definition add_blk :: "block \<Rightarrow> entity_storage \<Rightarrow> hash \<times> entity_storage" where
  "add_blk b st =
     (blk_hash b, if blk_hash b \<in> dom (blk_cache st) then st
                  else st\<lparr>blk_cache := (blk_cache st)(blk_hash b \<mapsto> b)\<rparr>)"

definition find_blk :: "entity_storage \<Rightarrow> hash \<Rightarrow> hash option" where
  "find_blk st h = (if h \<in> dom (blk_cache st) then Some h else None)"

definition is_cmd_fetched :: "entity_storage \<Rightarrow> hash \<Rightarrow> bool" where
  "is_cmd_fetched st h = (h \<in> dom (cmd_cache st))"

definition add_cmd :: "command \<Rightarrow> entity_storage \<Rightarrow> command \<times> entity_storage" where
  "add_cmd c st =
     (case cmd_cache st (cmd_hash c) of
        Some c' \<Rightarrow> (c', st)
      | None \<Rightarrow> (c, st\<lparr>cmd_cache := (cmd_cache st)(cmd_hash c \<mapsto> c)\<rparr>))"

definition find_cmd :: "entity_storage \<Rightarrow> hash \<Rightarrow> command option" where
  "find_cmd st h = cmd_cache st h"

definition get_cmd_cache_size :: "entity_storage \<Rightarrow> nat" where
  "get_cmd_cache_size st = card (dom (cmd_cache st))"

definition get_blk_cache_size :: "entity_storage \<Rightarrow> nat" where
  "get_blk_cache_size st = card (dom (blk_cache st))"

text \<open>The releases ask the reference count \<open>cnt\<close> of the handle (2: caller and cache).\<close>

definition try_release_cmd :: "nat \<Rightarrow> command \<Rightarrow> entity_storage \<Rightarrow> bool \<times> entity_storage" where
  "try_release_cmd cnt c st =
     (if cnt = 2 then (True, st\<lparr>cmd_cache := (cmd_cache st)(cmd_hash c := None)\<rparr>) else (False, st))"

definition try_release_blk :: "nat \<Rightarrow> hash \<Rightarrow> entity_storage \<Rightarrow> bool \<times> entity_storage" where
  "try_release_blk cnt h st =
     (if cnt = 2 then (True, st\<lparr>blk_cache := (blk_cache st)(h := None)\<rparr>) else (False, st))"

section \<open>The block codec\<close>

definition block_ok :: "block \<Rightarrow> bool" where
  "block_ok b = ((\<exists>q. qc b = Some q \<and> qc_ok q) \<and> length (parent_hashes b) < 2 ^ 32 \<and>
     length (cmds b) < 2 ^ 32 \<and> length (extra b) < 2 ^ 32)"

definition len_enc :: "'a list \<Rightarrow> bytes" where
  "len_enc xs = int_enc (word_of_nat (length xs) :: u32)"

definition block_enc :: "block \<Rightarrow> bytes" where
  "block_enc b = len_enc (parent_hashes b) @ concat (map int_enc (parent_hashes b)) @
     len_enc (cmds b) @ concat (map int_enc (cmds b)) @ qc_enc (the (qc b)) @
     len_enc (extra b) @ extra b"

text \<open>What a receiver makes of the bytes: the content, with the derived fields fresh.\<close>

definition block_fresh :: "(bytes \<Rightarrow> hash) \<Rightarrow> block \<Rightarrow> block" where
  "block_fresh sha b = block_new\<lparr>parent_hashes := parent_hashes b, cmds := cmds b, qc := qc b,
     extra := extra b, blk_hash := sha (block_enc b)\<rparr>"

lemma block_serialize_enc: "block_ok b \<Longrightarrow> block_serialize b s = Inr (ds_put_data (block_enc b) s)"
  by (auto simp: block_ok_def block_serialize_def block_enc_def len_enc_def ds_put_int
      u256c.put_many list_all_iff qcc.fput_enc)

lemma block_get_hash_enc: "block_ok b \<Longrightarrow> block_get_hash sha b = Inr (sha (block_enc b))"
  by (simp add: block_get_hash_def block_serialize_enc ds_get_hash_def ds_rest_def ds_put_data_def ds_new_def)

lemma get_u32_enc: "ds_rest s = len_enc xs @ r \<Longrightarrow>
    get_u32 s = Inr (word_of_nat (length xs), ds_skip (length (len_enc xs)) s)"
  unfolding get_u32_def len_enc_def by (subst u32c.get_enc) auto

lemma get_hashes_enc: "length xs < 2 ^ 32 \<Longrightarrow> ds_rest s = concat (map int_enc xs) @ r \<Longrightarrow>
    get_hashes_from (word_of_nat (length xs)) s = Inr (xs, ds_skip (length (concat (map int_enc xs))) s)"
  using u256c.get_many [of xs s r] by (simp add: get_hashes_from_def unat_of_nat list_all_iff)

lemma get_extra_enc: "length bs < 2 ^ 32 \<Longrightarrow> ds_rest s = bs @ r \<Longrightarrow>
    get_extra (word_of_nat (length bs)) s = Inr (bs, ds_skip (length bs) s)"
proof (cases "bs = []")
  case False
  assume len: "length bs < 2 ^ 32" and rest: "ds_rest s = bs @ r"
  have n: "unat (word_of_nat (length bs) :: u32) = length bs" using len by (simp add: unat_of_nat)
  then have "(word_of_nat (length bs) :: u32) \<noteq> 0" using False by (metis length_0_conv unat_0)
  moreover have "offset s + length bs \<le> length (buffer s)" by (rule rest_fits [OF rest False])
  moreover have "take (length bs) (drop (offset s) (buffer s)) = bs" using rest by (simp add: ds_rest_def)
  ultimately show ?thesis
    by (simp add: get_extra_def n ds_get_data_inplace_def Let_def ds_skip_def)
qed (simp add: get_extra_def)

lemma block_unserialize_enc:
  assumes ok: "block_ok b" and rest: "ds_rest s = block_enc b @ r"
  shows "block_unserialize sha s = Inr (block_fresh sha b, ds_skip (length (block_enc b)) s)"
proof -
  obtain q where q: "qc b = Some q" "qc_ok q" using ok by (auto simp: block_ok_def)
  have len: "length (parent_hashes b) < 2 ^ 32" "length (cmds b) < 2 ^ 32" "length (extra b) < 2 ^ 32"
    using ok by (auto simp: block_ok_def)
  have r0: "ds_rest s = len_enc (parent_hashes b) @ concat (map int_enc (parent_hashes b)) @
     len_enc (cmds b) @ concat (map int_enc (cmds b)) @ qc_enc q @ len_enc (extra b) @ extra b @ r"
    using rest by (simp add: block_enc_def q)
  note r1 = ds_rest_skip [OF r0] note r2 = ds_rest_skip [OF r1] note r3 = ds_rest_skip [OF r2]
  note r4 = ds_rest_skip [OF r3] note r5 = ds_rest_skip [OF r4] note r6 = ds_rest_skip [OF r5]
  let ?b = "block_new\<lparr>parent_hashes := parent_hashes b, cmds := cmds b, qc := Some q, extra := extra b\<rparr>"
  have okb: "block_ok ?b" using ok q by (simp add: block_ok_def)
  have encb: "block_enc ?b = block_enc b" by (simp add: block_enc_def q)
  show ?thesis
    by (simp only: block_unserialize_def sbind_simps prod.case Let_def get_u32_enc [OF r0]
        get_hashes_enc [OF len(1) r1] get_u32_enc [OF r2] get_hashes_enc [OF len(2) r3]
        qcc.get_enc [OF q(2) r4] get_u32_enc [OF r5] get_extra_enc [OF len(3) r6]
        block_get_hash_enc [OF okb] encb)
      (simp add: block_fresh_def block_enc_def q block_new_def add.assoc)
qed

text \<open>
  C18: a block sent over the wire is rebuilt by the receiver from the bytes alone: the same
  parents, commands, certificate and payload, every derived field (delivery, decision,
  height, votes) fresh, and the identifier recomputed as the hash of exactly those bytes.
\<close>

theorem block_roundtrip:
  assumes "block_ok b"
  shows "\<exists>s. block_serialize b ds_new = Inr s \<and>
    block_unserialize sha (ds_of_bytes (buffer s @ r)) =
      Inr (block_new\<lparr>parent_hashes := parent_hashes b, cmds := cmds b, qc := qc b, extra := extra b,
             blk_hash := sha (buffer s)\<rparr>, ds_skip (length (buffer s)) (ds_of_bytes (buffer s @ r)))"
  using block_unserialize_enc [OF assms, of "ds_of_bytes (block_enc b @ r)" r sha]
  by (simp add: block_serialize_enc [OF assms] block_fresh_def)

lemma block_enc_inject:
  assumes "block_ok a" "block_ok b" "block_enc a = block_enc b"
  shows "parent_hashes a = parent_hashes b \<and> cmds a = cmds b \<and> qc a = qc b \<and> extra a = extra b"
proof -
  let ?s = "ds_of_bytes (block_enc a)"
  have "block_fresh (\<lambda>_. 0) a = block_fresh (\<lambda>_. 0) b"
    using block_unserialize_enc [OF assms(1), of ?s "[]" "\<lambda>_. 0"]
      block_unserialize_enc [OF assms(2), of ?s "[]" "\<lambda>_. 0"] assms(3) by simp
  then show ?thesis by (simp add: block_fresh_def block_new_def)
qed

text \<open>
  C6: the identifier of a block commits to its content: two well-formed blocks whose bytes
  hash to the same value under a hash function without a collision between them have the
  same parents, commands, certificate and payload.
\<close>

theorem block_hash_binding:
  assumes "block_ok a" "block_ok b" "block_get_hash sha a = block_get_hash sha b"
    and "sha (block_enc a) = sha (block_enc b) \<Longrightarrow> block_enc a = block_enc b"
  shows "parent_hashes a = parent_hashes b \<and> cmds a = cmds b \<and> qc a = qc b \<and> extra a = extra b"
  by (rule block_enc_inject [OF assms(1,2)])
    (use assms in \<open>simp add: block_get_hash_enc\<close>)

definition sample_block :: block where
  "sample_block = block_new\<lparr>parent_hashes := [3], cmds := [8, 9], qc := Some (QuorumCertSecp256k1 sample_qc),
     extra := [1, 2, 3], height := 4, delivered := True\<rparr>"

lemma sample_block_ok: "block_ok sample_block"
  using sample_qc_ok by (simp add: sample_block_def block_ok_def)

theorem block_roundtrip_witness:
  "\<exists>s. block_serialize sample_block ds_new = Inr s \<and>
    block_unserialize (\<lambda>bs. word_of_nat (of_le bs)) (ds_of_bytes (buffer s @ [7])) =
      Inr (block_new\<lparr>parent_hashes := parent_hashes sample_block, cmds := cmds sample_block,
             qc := qc sample_block, extra := extra sample_block, blk_hash := word_of_nat (of_le (buffer s))\<rparr>,
           ds_skip (length (buffer s)) (ds_of_bytes (buffer s @ [7])))"
  by (rule block_roundtrip [OF sample_block_ok])

theorem block_hash_binding_witness:
  "parent_hashes sample_block = parent_hashes (sample_block\<lparr>height := 0\<rparr>) \<and>
   cmds sample_block = cmds (sample_block\<lparr>height := 0\<rparr>) \<and>
   qc sample_block = qc (sample_block\<lparr>height := 0\<rparr>) \<and>
   extra sample_block = extra (sample_block\<lparr>height := 0\<rparr>)"
  by (rule block_hash_binding [where sha = "\<lambda>bs. word_of_nat (of_le bs)"])
    (use sample_block_ok in \<open>simp_all add: block_ok_def block_enc_def block_get_hash_enc\<close>)

end
