(* ===== verification/Consensus.thy ===== *)
theory Consensus
  imports Entity
begin

text \<open>
  The protocol state machine \<open>HotStuffCore\<close> (\<open>include/hotstuff/consensus.h\<close>,
  \<open>src/consensus.cpp\<close>), in the three-step variant the build uses. Every method takes the
  state and gives the state after it with the events it raised, in order, or the
  exception it threw. Callbacks to the virtual methods and promises that are resolved are
  events; what the program's other parts do in response is a later call. An exception is
  caught nowhere in the program, so the state after one is not kept.
\<close>

datatype core_error =
    BlockNotDelivered      \<comment> \<open>\<open>"block not delivered"\<close>\<close>
  | QcBlockNotFetched      \<comment> \<open>\<open>"block referred by qc not fetched"\<close>\<close>
  | SafetyBreached         \<comment> \<open>\<open>"safety breached :("\<close>\<close>
  | EmptyParents           \<comment> \<open>\<open>"empty parents"\<close>\<close>
  | NotAboveVheight        \<comment> \<open>\<open>"new block should be higher than vheight"\<close>\<close>
  | CertError cert_error
  | Undefined              \<comment> \<open>null handle dereferenced, or \<open>parents[0]\<close> of an empty vector\<close>
  | OutOfFuel              \<comment> \<open>a walk over parents that does not come to an end\<close>

record proposal =
  proposer :: rid
  prop_blk :: hash

record vote =
  voter :: rid
  vote_hash :: hash
  vote_cert :: part_cert

record finality =
  fin_rid :: rid
  fin_decision :: u8
  fin_cmd_idx :: u32
  fin_cmd_height :: u32
  fin_cmd_hash :: hash
  fin_blk_hash :: hash

datatype event =
    DoDecide finality
  | DoConsensus hash
  | DoBroadcastProposal proposal
  | DoVote rid vote
  | QcFinished hash
  | HqcUpdated
  | Proposed proposal
  | ReceivedProposal proposal

record 'pk core =
  b0 :: hash
  hqc :: "(hash \<times> quorum_cert) option"
  b_lock :: hash
  b_exec :: hash
  vheight :: u32
  priv_key :: "hash \<Rightarrow> signature"
  tails :: "hash set"
  config :: "'pk replica_config"
  qc_waiting :: "hash set"
  vote_disabled :: bool
  core_id :: rid
  storage :: entity_storage

definition core_new :: "(bytes \<Rightarrow> hash) \<Rightarrow> rid \<Rightarrow> (hash \<Rightarrow> signature) \<Rightarrow> 'pk core" where
  "core_new sha i key =
     (let g = block_genesis sha; (h, st) = add_blk g storage_new in
      \<lparr>b0 = h, hqc = None, b_lock = h, b_exec = h, vheight = 0, priv_key = key, tails = {h},
       config = config_new, qc_waiting = {}, vote_disabled = False, core_id = i, storage = st\<rparr>)"

section \<open>Handles\<close>

definition get_blk :: "'pk core \<Rightarrow> hash \<Rightarrow> core_error + block" where
  "get_blk c h = (case blk_cache (storage c) h of None \<Rightarrow> Inl Undefined | Some b \<Rightarrow> Inr b)"

definition set_blk :: "hash \<Rightarrow> block \<Rightarrow> 'pk core \<Rightarrow> 'pk core" where
  "set_blk h b c = c\<lparr>storage := (storage c)\<lparr>blk_cache := (blk_cache (storage c))(h \<mapsto> b)\<rparr>\<rparr>"

definition first_parent :: "block \<Rightarrow> core_error + hash" where
  "first_parent b = (case parents b of [] \<Rightarrow> Inl Undefined | p # _ \<Rightarrow> Inr p)"

definition get_delivered_blk :: "'pk core \<Rightarrow> hash \<Rightarrow> core_error + hash" where
  "get_delivered_blk c h =
     (case find_blk (storage c) h of
        None \<Rightarrow> Inl BlockNotDelivered
      | Some p \<Rightarrow> sbind (get_blk c p) (\<lambda>b. if delivered b then Inr p else Inl BlockNotDelivered))"

fun get_delivered_blks :: "'pk core \<Rightarrow> hash list \<Rightarrow> core_error + hash list" where
  "get_delivered_blks c [] = Inr []"
| "get_delivered_blks c (h # hs) =
     sbind (get_delivered_blk c h) (\<lambda>p. sbind (get_delivered_blks c hs) (\<lambda>ps. Inr (p # ps)))"

section \<open>Delivery\<close>

definition on_deliver_blk :: "hash \<Rightarrow> 'pk core \<Rightarrow> core_error + (bool \<times> 'pk core)" where
  "on_deliver_blk h c =
     sbind (get_blk c h) (\<lambda>b.
     if delivered b then Inr (False, c)
     else
       sbind (get_delivered_blks c (parent_hashes b)) (\<lambda>ps.
       sbind (first_parent (b\<lparr>parents := ps\<rparr>)) (\<lambda>p.
       sbind (get_blk c p) (\<lambda>pb.
       sbind (case qc b of
                None \<Rightarrow> Inr (qc_ref b)
              | Some q \<Rightarrow> (case find_blk (storage c) (qc_get_obj_hash q) of
                            None \<Rightarrow> Inl QcBlockNotFetched | Some r \<Rightarrow> Inr (Some r))) (\<lambda>qr.
       Inr (True, (set_blk h (b\<lparr>parents := ps, height := height pb + 1, qc_ref := qr, delivered := True\<rparr>) c)
                    \<lparr>tails := insert h (tails c - set ps)\<rparr>))))))"

section \<open>Certificates and the commit rule\<close>

definition on_qc_finish :: "hash \<Rightarrow> 'pk core \<Rightarrow> 'pk core \<times> event list" where
  "on_qc_finish h c =
     (if h \<in> qc_waiting c then (c\<lparr>qc_waiting := qc_waiting c - {h}\<rparr>, [QcFinished h]) else (c, []))"

definition update_hqc :: "hash \<Rightarrow> quorum_cert option \<Rightarrow> 'pk core \<Rightarrow> core_error + ('pk core \<times> event list)" where
  "update_hqc h q c =
     sbind (get_blk c h) (\<lambda>b.
     case hqc c of
       None \<Rightarrow> Inl Undefined
     | Some (hh, _) \<Rightarrow>
         sbind (get_blk c hh) (\<lambda>hb.
         if height b > height hb then
           (case q of None \<Rightarrow> Inl Undefined | Some q \<Rightarrow> Inr (c\<lparr>hqc := Some (h, q)\<rparr>, [HqcUpdated]))
         else Inr (c, [])))"

text \<open>
  The loop \<open>for (b = blk; b->height > limit; b = b->parents[0])\<close> with the list of the
  blocks it passes: used by the commit and by the safety condition of a vote.
\<close>

fun walk_down :: "(hash \<rightharpoonup> block) \<Rightarrow> u32 \<Rightarrow> nat \<Rightarrow> hash \<Rightarrow> core_error + (hash \<times> hash list)" where
  "walk_down m limit 0 h = Inl OutOfFuel"
| "walk_down m limit (Suc n) h =
     (case m h of
        None \<Rightarrow> Inl Undefined
      | Some b \<Rightarrow>
          if height b > limit then
            sbind (first_parent b) (\<lambda>p.
            sbind (walk_down m limit n p) (\<lambda>(e, q). Inr (e, h # q)))
          else Inr (h, []))"

definition walk_fuel :: "block \<Rightarrow> nat" where
  "walk_fuel b = unat (height b) + 1"

definition decide_events :: "rid \<Rightarrow> hash \<Rightarrow> block \<Rightarrow> event list" where
  "decide_events i h b =
     map (\<lambda>k. DoDecide \<lparr>fin_rid = i, fin_decision = 1, fin_cmd_idx = word_of_nat k,
            fin_cmd_height = height b, fin_cmd_hash = cmds b ! k, fin_blk_hash = h\<rparr>) [0..<length (cmds b)]"

fun commit_all :: "hash list \<Rightarrow> 'pk core \<Rightarrow> core_error + ('pk core \<times> event list)" where
  "commit_all [] c = Inr (c, [])"
| "commit_all (h # hs) c =
     sbind (get_blk c h) (\<lambda>b.
     sbind (commit_all hs (set_blk h (b\<lparr>decision := 1\<rparr>) c)) (\<lambda>(c, ev).
     Inr (c, DoConsensus h # decide_events (core_id c) h b @ ev)))"

definition commit :: "hash \<Rightarrow> 'pk core \<Rightarrow> core_error + ('pk core \<times> event list)" where
  "commit blk c =
     sbind (get_blk c blk) (\<lambda>b.
     sbind (get_blk c (b_exec c)) (\<lambda>ex.
     sbind (walk_down (blk_cache (storage c)) (height ex) (walk_fuel b) blk) (\<lambda>(e, queue).
     if e \<noteq> b_exec c then Inl SafetyBreached
     else sbind (commit_all (rev queue) c) (\<lambda>(c, ev). Inr (c\<lparr>b_exec := blk\<rparr>, ev)))))"

definition update :: "hash \<Rightarrow> 'pk core \<Rightarrow> core_error + ('pk core \<times> event list)" where
  "update nblk c =
     sbind (get_blk c nblk) (\<lambda>nb.
     case qc_ref nb of None \<Rightarrow> Inr (c, []) | Some blk2 \<Rightarrow>
     sbind (get_blk c blk2) (\<lambda>b2.
     if decision b2 \<noteq> 0 then Inr (c, []) else
     sbind (update_hqc blk2 (qc nb) c) (\<lambda>(c, ev1).
     case qc_ref b2 of None \<Rightarrow> Inr (c, ev1) | Some blk1 \<Rightarrow>
     sbind (get_blk c blk1) (\<lambda>b1.
     if decision b1 \<noteq> 0 then Inr (c, ev1) else
     sbind (get_blk c (b_lock c)) (\<lambda>lk.
     let c = (if height b1 > height lk then c\<lparr>b_lock := blk1\<rparr> else c) in
     case qc_ref b1 of None \<Rightarrow> Inr (c, ev1) | Some blk \<Rightarrow>
     sbind (get_blk c blk) (\<lambda>b.
     if decision b \<noteq> 0 then Inr (c, ev1) else
     sbind (first_parent b2) (\<lambda>p2.
     if p2 \<noteq> blk1 then Inr (c, ev1) else
     sbind (first_parent b1) (\<lambda>p1.
     if p1 \<noteq> blk then Inr (c, ev1) else
     sbind (commit blk c) (\<lambda>(c, ev2). Inr (c, ev1 @ ev2))))))))))"

section \<open>Votes and proposals\<close>

definition on_receive_vote :: "vote \<Rightarrow> 'pk core \<Rightarrow> core_error + ('pk core \<times> event list)" where
  "on_receive_vote v c =
     sbind (get_delivered_blk c (vote_hash v)) (\<lambda>h.
     sbind (get_blk c h) (\<lambda>b.
     let qsize = card (voted b) in
     if qsize \<ge> unat (nmajority (config c)) then Inr (c, [])
     else if voter v \<in> voted b then Inr (c, [])
     else
       let q = (case self_qc b of None \<Rightarrow> create_quorum_cert (config c) (blk_hash b) | Some q \<Rightarrow> q) in
       sbind (map_err CertError (qc_add_part (voter v) (vote_cert v) q)) (\<lambda>q.
       let c = set_blk h (b\<lparr>voted := insert (voter v) (voted b), self_qc := Some q\<rparr>) c in
       if qsize + 1 = unat (nmajority (config c)) then
         sbind (update_hqc h (Some q) c) (\<lambda>(c, ev).
         let (c, ev') = on_qc_finish h c in Inr (c, ev @ ev'))
       else Inr (c, []))))"

definition make_vote :: "'pk core \<Rightarrow> hash \<Rightarrow> vote" where
  "make_vote c h = \<lparr>voter = core_id c, vote_hash = h, vote_cert = create_part_cert (priv_key c) h\<rparr>"

definition on_propose ::
  "(bytes \<Rightarrow> hash) \<Rightarrow> hash list \<Rightarrow> hash list \<Rightarrow> bytes \<Rightarrow> 'pk core \<Rightarrow> core_error + (hash \<times> 'pk core \<times> event list)"
where
  "on_propose sha cs ps ex c =
     (case ps of [] \<Rightarrow> Inl EmptyParents | p # _ \<Rightarrow>
      let c = c\<lparr>tails := tails c - set ps\<rparr> in
      sbind (get_blk c p) (\<lambda>pb.
      case hqc c of None \<Rightarrow> Inl Undefined | Some (hh, hq) \<Rightarrow>
      sbind (map_err CertError (block_make sha ps cs hq ex (height pb + 1) (Some hh))) (\<lambda>blk.
      let (bnew, st) = add_blk blk (storage c); c = c\<lparr>storage := st\<rparr> in
      sbind (get_blk c bnew) (\<lambda>b.
      let c = set_blk bnew (b\<lparr>self_qc := Some (create_quorum_cert (config c) bnew)\<rparr>) c in
      sbind (on_deliver_blk bnew c) (\<lambda>(_, c).
      sbind (update bnew c) (\<lambda>(c, ev1).
      let prop = \<lparr>proposer = core_id c, prop_blk = bnew\<rparr> in
      sbind (get_blk c bnew) (\<lambda>b.
      if height b \<le> vheight c then Inl NotAboveVheight else
      let c = c\<lparr>vheight := height b\<rparr> in
      sbind (on_receive_vote (make_vote c bnew) c) (\<lambda>(c, ev2).
      Inr (bnew, c, ev1 @ ev2 @ [Proposed prop, DoBroadcastProposal prop])))))))))"

text \<open>The decision to vote: liveness condition, or the walk to the locked block.\<close>

definition vote_opinion :: "block \<Rightarrow> hash \<Rightarrow> 'pk core \<Rightarrow> core_error + bool" where
  "vote_opinion b h c =
     (if height b > vheight c then
        sbind (get_blk c (b_lock c)) (\<lambda>lk.
        sbind (case qc_ref b of None \<Rightarrow> Inr False
               | Some r \<Rightarrow> sbind (get_blk c r) (\<lambda>rb. Inr (height rb > height lk))) (\<lambda>live.
        if live then Inr True
        else sbind (walk_down (blk_cache (storage c)) (height lk) (walk_fuel b) h) (\<lambda>(e, _).
          Inr (e = b_lock c))))
      else Inr False)"

definition on_receive_proposal :: "proposal \<Rightarrow> 'pk core \<Rightarrow> core_error + ('pk core \<times> event list)" where
  "on_receive_proposal prop c =
     (let bnew = prop_blk prop in
      sbind (get_blk c bnew) (\<lambda>b.
      if \<not> delivered b then Inl BlockNotDelivered else
      sbind (update bnew c) (\<lambda>(c, ev1).
      sbind (get_blk c bnew) (\<lambda>b.
      sbind (vote_opinion b bnew c) (\<lambda>opinion.
      let c = (if opinion then c\<lparr>vheight := height b\<rparr> else c);
          (c, ev2) = (case qc_ref b of None \<Rightarrow> (c, []) | Some r \<Rightarrow> on_qc_finish r c);
          ev3 = [ReceivedProposal prop];
          ev4 = (if opinion \<and> \<not> vote_disabled c then [DoVote (proposer prop) (make_vote c bnew)] else [])
      in Inr (c, ev1 @ ev2 @ ev3 @ ev4))))))"

section \<open>Configuration and the remaining methods\<close>

definition on_init :: "u32 \<Rightarrow> 'pk core \<Rightarrow> core_error + 'pk core" where
  "on_init nfaulty c =
     (let c = c\<lparr>config := (config c)\<lparr>nmajority := nreplicas (config c) - ucast nfaulty\<rparr>\<rparr>;
          q = create_quorum_cert (config c) (b0 c)
      in sbind (get_blk c (b0 c)) (\<lambda>g.
         Inr ((set_blk (b0 c) (g\<lparr>qc := Some q, self_qc := Some q, qc_ref := Some (b0 c)\<rparr>) c)
                \<lparr>hqc := Some (b0 c, q)\<rparr>)))"

definition add_replica :: "rid \<Rightarrow> hash \<Rightarrow> 'pk \<Rightarrow> 'pk core \<Rightarrow> core_error + 'pk core" where
  "add_replica r peer pk c =
     (let c = c\<lparr>config := config_add_replica r \<lparr>ri_id = r, peer_id = peer, pubkey = pk\<rparr> (config c)\<rparr>
      in sbind (get_blk c (b0 c)) (\<lambda>g. Inr (set_blk (b0 c) (g\<lparr>voted := insert r (voted g)\<rparr>) c)))"

definition set_vote_disabled :: "bool \<Rightarrow> 'pk core \<Rightarrow> 'pk core" where
  "set_vote_disabled f c = c\<lparr>vote_disabled := f\<rparr>"

text \<open>The promise returned is resolved at once, or waits in \<open>qc_waiting\<close>.\<close>

definition async_qc_finish :: "hash \<Rightarrow> 'pk core \<Rightarrow> core_error + (bool \<times> 'pk core)" where
  "async_qc_finish h c =
     sbind (get_blk c h) (\<lambda>b.
     if card (voted b) \<ge> unat (nmajority (config c)) then Inr (True, c)
     else Inr (False, c\<lparr>qc_waiting := insert h (qc_waiting c)\<rparr>))"

text \<open>\<open>prune\<close>: \<open>cnt\<close> gives the reference count of a handle in a state, with the stack of the traversal.\<close>

fun prune_skip :: "'pk core \<Rightarrow> nat \<Rightarrow> hash \<Rightarrow> core_error + hash option" where
  "prune_skip c 0 h = Inr (Some h)"
| "prune_skip c (Suc n) h =
     sbind (get_blk c h) (\<lambda>b. case parents b of [] \<Rightarrow> Inr None | p # _ \<Rightarrow> prune_skip c n p)"

fun prune_loop :: "('pk core \<Rightarrow> hash list \<Rightarrow> hash \<Rightarrow> nat) \<Rightarrow> nat \<Rightarrow> hash list \<Rightarrow> 'pk core \<Rightarrow> core_error + 'pk core" where
  "prune_loop cnt n [] c = Inr c"
| "prune_loop cnt 0 (h # s) c = Inl OutOfFuel"
| "prune_loop cnt (Suc n) (h # s) c =
     sbind (get_blk c h) (\<lambda>b.
     if parents b = [] then
       prune_loop cnt n s (c\<lparr>storage := snd (try_release_blk (cnt c (h # s) h) h (storage c))\<rparr>)
     else
       prune_loop cnt n (last (parents b) # h # s)
         (set_blk h (b\<lparr>qc_ref := None, parents := butlast (parents b)\<rparr>) c))"

definition prune ::
  "('pk core \<Rightarrow> hash list \<Rightarrow> hash \<Rightarrow> nat) \<Rightarrow> nat \<Rightarrow> u32 \<Rightarrow> 'pk core \<Rightarrow> core_error + 'pk core"
where
  "prune cnt fuel staleness c =
     sbind (prune_skip c (unat staleness) (b_exec c)) (\<lambda>start.
     case start of None \<Rightarrow> Inr c
     | Some h \<Rightarrow> sbind (get_blk c h) (\<lambda>b. prune_loop cnt fuel [h] (set_blk h (b\<lparr>qc_ref := None\<rparr>) c)))"

section \<open>Start-up\<close>

text \<open>
  The part of \<open>HotStuffBase::start\<close> that sets up the core: the replicas are numbered in
  the order of the list, \<open>peers\<close> are those with another address than the own one, and
  the number of faulty replicas tolerated is a third of the peers.
\<close>

fun add_replicas :: "nat \<Rightarrow> ('a \<times> 'pk \<times> hash) list \<Rightarrow> 'pk core \<Rightarrow> core_error + 'pk core" where
  "add_replicas i [] c = Inr c"
| "add_replicas i ((addr, pk, cert) # rs) c =
     sbind (add_replica (word_of_nat i) cert pk c) (add_replicas (Suc i) rs)"

definition start_peers :: "'a \<Rightarrow> ('a \<times> 'pk \<times> hash) list \<Rightarrow> hash list" where
  "start_peers listen reps = map (\<lambda>(addr, pk, cert). cert) (filter (\<lambda>(addr, pk, cert). addr \<noteq> listen) reps)"

definition start_core :: "'a \<Rightarrow> ('a \<times> 'pk \<times> hash) list \<Rightarrow> 'pk core \<Rightarrow> core_error + 'pk core" where
  "start_core listen reps c =
     sbind (add_replicas 0 reps c) (\<lambda>c.
     on_init (word_of_nat (length (start_peers listen reps) div 3)) c)"

end
