(* ===== verification/Vote_Log.thy ===== *)
theory Vote_Log
  imports Prelude
begin

text \<open>
  The argument behind the safety of the protocol, on an abstract view of a run: the tree of
  the blocks that replicas delivered (parent, block certified by its certificate, height)
  and the log of the votes of the correct replicas in the order they were signed. The
  locale states what the replicas guarantee about the two; its lemmas say that a block with
  three certified blocks in direct succession is an ancestor of every certified block above it.
\<close>

type_synonym 'h tree = "'h \<rightharpoonup> 'h \<times> 'h \<times> nat"
type_synonym ('r, 'h) vlog = "('r \<times> 'h) list"

definition tpar :: "'h tree \<Rightarrow> ('h \<times> 'h) set" where
  "tpar T = {(p, h). \<exists>q n. T h = Some (p, q, n)}"

definition anc :: "'h tree \<Rightarrow> 'h \<Rightarrow> 'h \<Rightarrow> bool" where
  "anc T a h = ((a, h) \<in> (tpar T)\<^sup>*)"

definition ht :: "'h tree \<Rightarrow> 'h \<Rightarrow> nat" where
  "ht T h = (case T h of None \<Rightarrow> 0 | Some (p, q, n) \<Rightarrow> n)"

definition qcr :: "'h tree \<Rightarrow> 'h \<Rightarrow> 'h" where
  "qcr T h = (case T h of None \<Rightarrow> h | Some (p, q, n) \<Rightarrow> q)"

definition par :: "'h tree \<Rightarrow> 'h \<Rightarrow> 'h" where
  "par T h = (case T h of None \<Rightarrow> h | Some (p, q, n) \<Rightarrow> p)"

definition tree_ok :: "'h \<Rightarrow> 'h tree \<Rightarrow> bool" where
  "tree_ok g T = (T g = Some (g, g, 0) \<and>
     (\<forall>h p q n. T h = Some (p, q, n) \<longrightarrow> h \<noteq> g \<longrightarrow>
        0 < n \<and> (\<exists>p' q'. T p = Some (p', q', n - 1)) \<and> anc T q p))"

text \<open>A block is certified when a quorum of the members voted for it or is faulty.\<close>

definition backers :: "'r set \<Rightarrow> 'r set \<Rightarrow> ('r, 'h) vlog \<Rightarrow> 'h \<Rightarrow> 'r set" where
  "backers R B log h = {r \<in> R. r \<in> B \<or> (r, h) \<in> set log}"

definition cert :: "'h \<Rightarrow> 'r set \<Rightarrow> 'r set \<Rightarrow> nat \<Rightarrow> ('r, 'h) vlog \<Rightarrow> 'h \<Rightarrow> bool" where
  "cert g R B m log h = (h = g \<or> m \<le> card (backers R B log h))"

section \<open>Trees\<close>

lemma anc_refl [simp, intro]: "anc T h h"
  by (simp add: anc_def)

lemma anc_trans: "anc T a b \<Longrightarrow> anc T b c \<Longrightarrow> anc T a c"
  by (simp add: anc_def)

lemma anc_step: "T h = Some (p, q, n) \<Longrightarrow> anc T a p \<Longrightarrow> anc T a h"
  by (auto simp: anc_def tpar_def intro: rtrancl_into_rtrancl)

lemma anc_cases: "anc T a h \<Longrightarrow> a = h \<or> (\<exists>p q n. T h = Some (p, q, n) \<and> anc T a p)"
  unfolding anc_def by (erule rtranclE) (auto simp: tpar_def)

lemma anc_mono: "anc T a h \<Longrightarrow> T \<subseteq>\<^sub>m T' \<Longrightarrow> anc T' a h"
proof -
  assume a: "anc T a h" and sub: "T \<subseteq>\<^sub>m T'"
  have "tpar T \<subseteq> tpar T'" using sub by (force simp: tpar_def map_le_def dom_def)
  then have "(tpar T)\<^sup>* \<subseteq> (tpar T')\<^sup>*" by (rule rtrancl_mono)
  with a show ?thesis by (auto simp: anc_def)
qed

lemma ht_mono: "T \<subseteq>\<^sub>m T' \<Longrightarrow> h \<in> dom T \<Longrightarrow> ht T' h = ht T h"
  by (force simp: ht_def map_le_def split: option.splits)

lemma qcr_mono: "T \<subseteq>\<^sub>m T' \<Longrightarrow> h \<in> dom T \<Longrightarrow> qcr T' h = qcr T h"
  by (force simp: qcr_def map_le_def split: option.splits)

lemma par_mono: "T \<subseteq>\<^sub>m T' \<Longrightarrow> h \<in> dom T \<Longrightarrow> par T' h = par T h"
  by (force simp: par_def map_le_def split: option.splits)

lemma tree_entry: "h \<in> dom T \<Longrightarrow> T h = Some (par T h, qcr T h, ht T h)"
  by (auto simp: par_def qcr_def ht_def)

lemma tree_genesis: "tree_ok g T \<Longrightarrow> T g = Some (g, g, 0)"
  by (simp add: tree_ok_def)

lemma tree_parent:
  "tree_ok g T \<Longrightarrow> h \<in> dom T \<Longrightarrow> h \<noteq> g \<Longrightarrow>
   ht T h = Suc (ht T (par T h)) \<and> par T h \<in> dom T \<and> anc T (qcr T h) (par T h)"
proof -
  assume ok: "tree_ok g T" and h: "h \<in> dom T" "h \<noteq> g"
  have "0 < ht T h \<and> (\<exists>p' q'. T (par T h) = Some (p', q', ht T h - 1)) \<and> anc T (qcr T h) (par T h)"
    using ok tree_entry [OF h(1)] h(2) by (auto simp: tree_ok_def)
  then show ?thesis by (auto simp: ht_def [of T "par T h"])
qed

lemma ht_zero: "tree_ok g T \<Longrightarrow> h \<in> dom T \<Longrightarrow> (ht T h = 0) = (h = g)"
  using tree_parent [of g T h] tree_genesis [of g T] by (cases "h = g") (auto simp: ht_def)

lemma anc_ht:
  assumes ok: "tree_ok g T" and "anc T a h" and "h \<in> dom T"
  shows "a \<in> dom T \<and> (a = h \<or> ht T a < ht T h)"
proof -
  have "(a, h) \<in> (tpar T)\<^sup>*" using assms(2) by (simp add: anc_def)
  then show ?thesis
  proof (induction rule: converse_rtrancl_induct)
    case base
    then show ?case using assms(3) by simp
  next
    case (step y z)
    have z: "T z = Some (y, qcr T z, ht T z)" "par T z = y" using step(1) by (auto simp: tpar_def qcr_def ht_def par_def)
    show ?case
    proof (cases "z = g")
      case True
      then show ?thesis using z tree_genesis [OF ok] step.IH by auto
    next
      case False
      then have "ht T z = Suc (ht T y) \<and> y \<in> dom T" using tree_parent [OF ok, of z] z by auto
      then show ?thesis using step.IH by auto
    qed
  qed
qed

lemma anc_ht_le: "tree_ok g T \<Longrightarrow> anc T a h \<Longrightarrow> h \<in> dom T \<Longrightarrow> ht T a \<le> ht T h"
  using anc_ht by fastforce

lemma anc_genesis: "tree_ok g T \<Longrightarrow> h \<in> dom T \<Longrightarrow> anc T g h"
proof (induction "ht T h" arbitrary: h)
  case 0
  then show ?case using ht_zero by force
next
  case (Suc n)
  then have "h \<noteq> g" using ht_zero by force
  from tree_parent [OF Suc.prems this] have "n = ht T (par T h)" "par T h \<in> dom T"
    using Suc.hyps(2) by auto
  from Suc.hyps(1) [OF this(1) Suc.prems(1) this(2)] show ?case
    using tree_entry [OF Suc.prems(2)] anc_step by fastforce
qed

text \<open>The ancestors of a block form a chain.\<close>

lemma anc_linear:
  assumes ok: "tree_ok g T"
  shows "h \<in> dom T \<Longrightarrow> anc T a h \<Longrightarrow> anc T b h \<Longrightarrow> ht T a \<le> ht T b \<Longrightarrow> anc T a b"
proof (induction "ht T h" arbitrary: h rule: less_induct)
  case less
  show ?case
  proof (cases "a = h \<or> b = h")
    case True
    then show ?thesis using anc_ht [OF ok less.prems(3,1)] less.prems by auto
  next
    case False
    then have a: "anc T a (par T h)" and b: "anc T b (par T h)"
      using anc_cases [OF less.prems(2)] anc_cases [OF less.prems(3)] by (auto simp: par_def)
    have "h \<noteq> g" using False less.prems(1,2) anc_ht [OF ok] ht_zero [OF ok] by force
    from tree_parent [OF ok less.prems(1) this] show ?thesis
      using less.hyps [of "par T h"] a b less.prems(4) by simp
  qed
qed

section \<open>Certificates\<close>

lemma backers_mono: "set log \<subseteq> set log' \<Longrightarrow> backers R B log h \<subseteq> backers R B log' h"
  by (auto simp: backers_def)

lemma cert_mono:
  assumes "finite R" and "set log \<subseteq> set log'" and "cert g R B m log h"
  shows "cert g R B m log' h"
proof -
  have "finite (backers R B log' h)" using assms(1) by (simp add: backers_def)
  from card_mono [OF this backers_mono [OF assms(2)]] show ?thesis
    using assms(3) by (auto simp: cert_def)
qed

text \<open>Two quorums share a correct member.\<close>

lemma quorum_intersection:
  assumes "finite R" and "B \<subseteq> R" and "card B + card R < 2 * m"
    and "m \<le> card X" and "m \<le> card Y" and "X \<subseteq> R" and "Y \<subseteq> R"
  shows "\<exists>r \<in> X \<inter> Y. r \<notin> B"
proof (rule ccontr)
  assume "\<not> ?thesis"
  then have "X \<inter> Y \<subseteq> B" by blast
  then have "card (X \<inter> Y) \<le> card B"
    using assms(1,2) by (meson card_mono finite_subset)
  moreover have "card X + card Y = card (X \<union> Y) + card (X \<inter> Y)"
    using assms(1,6,7) by (meson card_Un_Int finite_subset)
  moreover have "card (X \<union> Y) \<le> card R" using assms by (intro card_mono) auto
  ultimately show False using assms by linarith
qed

section \<open>Safety\<close>

text \<open>Three blocks in direct succession, each certified by the next.\<close>

definition succession :: "'h tree \<Rightarrow> 'h \<Rightarrow> 'h \<Rightarrow> 'h \<Rightarrow> bool" where
  "succession T b b1 b2 = (b1 \<in> dom T \<and> b2 \<in> dom T \<and> par T b1 = b \<and> qcr T b1 = b \<and>
     par T b2 = b1 \<and> qcr T b2 = b1)"

definition committed :: "'h \<Rightarrow> 'r set \<Rightarrow> 'r set \<Rightarrow> nat \<Rightarrow> 'h tree \<Rightarrow> ('r, 'h) vlog \<Rightarrow> 'h \<Rightarrow> bool" where
  "committed g R B m T log b = (\<exists>b1 b2. succession T b b1 b2 \<and>
     cert g R B m log b \<and> cert g R B m log b1 \<and> cert g R B m log b2)"

locale vote_log =
  fixes ok :: "'s \<Rightarrow> bool"
    and g :: "'s \<Rightarrow> 'h"
    and R :: "'s \<Rightarrow> 'r set"
    and B :: "'s \<Rightarrow> 'r set"
    and m :: "'s \<Rightarrow> nat"
    and T :: "'s \<Rightarrow> 'h tree"
    and log :: "'s \<Rightarrow> ('r, 'h) vlog"
  assumes members: "ok s \<Longrightarrow> finite (R s) \<and> B s \<subseteq> R s \<and> card (B s) + card (R s) < 2 * m s"
    and tree: "ok s \<Longrightarrow> tree_ok (g s) (T s)"
    and voted_known: "ok s \<Longrightarrow> (r, h) \<in> set (log s) \<Longrightarrow> h \<in> dom (T s)"
    and increasing: "ok s \<Longrightarrow> j < k \<Longrightarrow> k < length (log s) \<Longrightarrow> log s ! j = (r, v) \<Longrightarrow> log s ! k = (r, w) \<Longrightarrow>
      ht (T s) v < ht (T s) w"
    and safe: "ok s \<Longrightarrow> j < k \<Longrightarrow> k < length (log s) \<Longrightarrow> log s ! j = (r, v) \<Longrightarrow> log s ! k = (r, w) \<Longrightarrow>
      \<exists>L. cert (g s) (R s) (B s) (m s) (take k (log s)) L \<and> anc (T s) L w \<and>
          ht (T s) (qcr (T s) (qcr (T s) v)) \<le> ht (T s) L"
begin

lemma shared_voter:
  assumes "ok s" and "cert (g s) (R s) (B s) (m s) l v" "v \<noteq> g s"
    and "cert (g s) (R s) (B s) (m s) l' w" "w \<noteq> g s"
  shows "\<exists>r. (r, v) \<in> set l \<and> (r, w) \<in> set l'"
proof -
  have "m s \<le> card (backers (R s) (B s) l v)" "m s \<le> card (backers (R s) (B s) l' w)"
    using assms by (auto simp: cert_def)
  from quorum_intersection [of "R s" "B s", OF _ _ _ this] show ?thesis
    using members [OF assms(1)] by (auto simp: backers_def)
qed

lemma cert_known: "ok s \<Longrightarrow> cert (g s) (R s) (B s) (m s) (log s) h \<Longrightarrow> h \<in> dom (T s)"
proof (cases "h = g s")
  case True
  assume "ok s"
  then show ?thesis using True tree_genesis [OF tree] by auto
next
  case False
  assume ok: "ok s" and c: "cert (g s) (R s) (B s) (m s) (log s) h"
  from shared_voter [OF ok c False c False] show ?thesis using voted_known [OF ok] by blast
qed

text \<open>Votes of one replica are ordered by height.\<close>

lemma vote_order:
  assumes "ok s" and "j < length (log s)" "log s ! j = (r, v)" and "k < length (log s)" "log s ! k = (r, w)"
    and "ht (T s) v \<le> ht (T s) w"
  shows "j < k \<or> v = w"
proof (cases rule: linorder_cases [of j k])
  case greater
  from increasing [OF assms(1) greater assms(2,5,3)] show ?thesis using assms(6) by simp
qed (use assms in auto)

lemma cert_same_height:
  assumes ok: "ok s" and v: "cert (g s) (R s) (B s) (m s) (log s) v"
    and w: "cert (g s) (R s) (B s) (m s) (log s) w" and eq: "ht (T s) v = ht (T s) w"
  shows "v = w"
proof (cases "v = g s \<or> w = g s")
  case True
  have "ht (T s) (g s) = 0" using tree_genesis [OF tree [OF ok]] by (simp add: ht_def)
  then show ?thesis
    using True eq ht_zero [OF tree [OF ok] cert_known [OF ok v]] ht_zero [OF tree [OF ok] cert_known [OF ok w]]
    by auto
next
  case False
  then obtain r where "(r, v) \<in> set (log s)" "(r, w) \<in> set (log s)"
    using shared_voter [OF ok v _ w] by blast
  then obtain j k where "j < length (log s)" "log s ! j = (r, v)" "k < length (log s)" "log s ! k = (r, w)"
    by (metis in_set_conv_nth)
  then show ?thesis
    using vote_order [OF ok, of j r v k w] vote_order [OF ok, of k r w j v] eq by (metis less_asym order_refl)
qed

text \<open>The first moment a block is certified: its votes were cast when it was not yet.\<close>

lemma first_certified:
  assumes "cert (g s) (R s) (B s) (m s) l w" and "w \<noteq> g s" and "m s > card (B s \<inter> R s)"
  shows "\<exists>k \<le> length l. cert (g s) (R s) (B s) (m s) (take k l) w \<and>
    (\<forall>i < k. \<not> cert (g s) (R s) (B s) (m s) (take i l) w)"
proof -
  let ?P = "\<lambda>k. cert (g s) (R s) (B s) (m s) (take k l) w"
  have P: "?P (length l)" using assms(1) by simp
  show ?thesis
    using LeastI [of ?P, OF P] Least_le [of ?P, OF P] not_less_Least [of _ ?P] by blast
qed

theorem committed_anc:
  assumes ok: "ok s" and b: "committed (g s) (R s) (B s) (m s) (T s) (log s) b"
  shows "cert (g s) (R s) (B s) (m s) (log s) w \<Longrightarrow> ht (T s) b \<le> ht (T s) w \<Longrightarrow> anc (T s) b w"
proof (induction "ht (T s) w" arbitrary: w rule: less_induct)
  case less
  let ?T = "T s"
  note t = tree [OF ok]
  obtain b1 b2 where succ: "succession ?T b b1 b2" and c0: "cert (g s) (R s) (B s) (m s) (log s) b"
    and c1: "cert (g s) (R s) (B s) (m s) (log s) b1" and c2: "cert (g s) (R s) (B s) (m s) (log s) b2"
    using b by (auto simp: committed_def)
  have a1: "anc ?T b b1" and a2: "anc ?T b1 b2"
    using succ tree_entry [of b1 ?T] tree_entry [of b2 ?T] anc_step [of ?T b1] anc_step [of ?T b2]
    by (auto simp: succession_def)
  show ?case
  proof (cases "ht ?T w \<le> ht ?T b2")
    case True
    have "ht ?T b1 \<le> Suc (ht ?T b)" "ht ?T b2 \<le> Suc (ht ?T b1)"
      using succ tree_parent [OF t, of b1] tree_parent [OF t, of b2] ht_zero [OF t, of b1] ht_zero [OF t, of b2]
      by (auto simp: succession_def)
    then have "ht ?T w = ht ?T b \<or> ht ?T w = ht ?T b1 \<or> ht ?T w = ht ?T b2" using True less.prems(2) by auto
    then show ?thesis
      using cert_same_height [OF ok less.prems(1)] c0 c1 c2 a1 a2 anc_trans by (metis anc_refl)
  next
    case False
    show ?thesis
    proof (cases "b2 = g s")
      case True
      then have "b = g s" using succ tree_genesis [OF t] by (auto simp: succession_def par_def)
      then show ?thesis using anc_genesis [OF t cert_known [OF ok less.prems(1)]] by simp
    next
      case b2: False
      have w: "w \<noteq> g s" using False tree_genesis [OF t] by (auto simp: ht_def)
      have "m s > card (B s \<inter> R s)"
        using members [OF ok] card_mono [of "R s" "B s"] by (simp add: Int_absorb2)
      from first_certified [OF less.prems(1) w this] obtain n where n: "n \<le> length (log s)"
        and cn: "cert (g s) (R s) (B s) (m s) (take n (log s)) w"
        and first: "\<And>i. i < n \<Longrightarrow> \<not> cert (g s) (R s) (B s) (m s) (take i (log s)) w" by blast
      obtain r where r2: "(r, b2) \<in> set (log s)" and rw: "(r, w) \<in> set (take n (log s))"
        using shared_voter [OF ok c2 b2 cn w] by blast
      obtain j where j: "j < length (log s)" "log s ! j = (r, b2)" using r2 by (metis in_set_conv_nth)
      obtain k where k: "k < n" "log s ! k = (r, w)" "k < length (log s)"
        using rw n by (auto simp: in_set_conv_nth)
      have "j < k"
        using vote_order [OF ok j k(3,2)] False by auto
      from safe [OF ok this k(3) j(2) k(2)] obtain L where
        L: "cert (g s) (R s) (B s) (m s) (take k (log s)) L" "anc ?T L w" "ht ?T (qcr ?T (qcr ?T b2)) \<le> ht ?T L"
        by blast
      have bL: "ht ?T b \<le> ht ?T L" using L(3) succ by (simp add: succession_def)
      have cL: "cert (g s) (R s) (B s) (m s) (log s) L"
        by (rule cert_mono [OF _ _ L(1)]) (use members [OF ok] in \<open>auto dest: in_set_takeD\<close>)
      have "L \<noteq> w" using L(1) first k(1) by blast
      then have "ht ?T L < ht ?T w" using anc_ht [OF t L(2) cert_known [OF ok less.prems(1)]] by blast
      from less.hyps [OF this cL bL] L(2) show ?thesis by (rule anc_trans)
    qed
  qed
qed

lemma committed_chain:
  assumes ok: "ok s" and a: "committed (g s) (R s) (B s) (m s) (T s) (log s) a"
    and b: "committed (g s) (R s) (B s) (m s) (T s) (log s) b"
  shows "anc (T s) a b \<or> anc (T s) b a"
proof -
  have "cert (g s) (R s) (B s) (m s) (log s) a" "cert (g s) (R s) (B s) (m s) (log s) b"
    using a b by (auto simp: committed_def)
  then show ?thesis
    using committed_anc [OF ok a, of b] committed_anc [OF ok b, of a] by linarith
qed

end

end
