(* ===== verification/Consensus_Inv.thy ===== *)
theory Consensus_Inv
  imports Consensus Vote_Log
begin

text \<open>
  The invariant of one replica's \<open>HotStuffCore\<close>, relative to the tree \<open>T\<close> of delivered
  blocks, the predicate \<open>C\<close> of certified blocks and the voters \<open>V h\<close> a block may have
  recorded, and what each method does under it: no method throws, heights only grow, the
  lock and the executed block follow the commit rule.
\<close>

section \<open>State access\<close>

abbreviation cache :: "'pk core \<Rightarrow> hash \<rightharpoonup> block" where
  "cache c \<equiv> blk_cache (storage c)"

lemma get_blk_simps [simp]:
  "cache c h = Some b \<Longrightarrow> get_blk c h = Inr b" "cache c h = None \<Longrightarrow> get_blk c h = Inl Undefined"
  by (simp_all add: get_blk_def)

lemma get_blk_Inr: "(get_blk c h = Inr b) = (cache c h = Some b)"
  by (simp add: get_blk_def split: option.splits)

lemma set_blk_simps [simp]:
  "cache (set_blk h b c) = (cache c)(h \<mapsto> b)" "b0 (set_blk h b c) = b0 c" "hqc (set_blk h b c) = hqc c"
  "b_lock (set_blk h b c) = b_lock c" "b_exec (set_blk h b c) = b_exec c" "vheight (set_blk h b c) = vheight c"
  "config (set_blk h b c) = config c" "core_id (set_blk h b c) = core_id c" "priv_key (set_blk h b c) = priv_key c"
  "vote_disabled (set_blk h b c) = vote_disabled c" "qc_waiting (set_blk h b c) = qc_waiting c"
  by (simp_all add: set_blk_def)

definition is_del :: "(hash \<rightharpoonup> block) \<Rightarrow> hash \<Rightarrow> bool" where
  "is_del m h = (\<exists>b. m h = Some b \<and> delivered b)"

definition dec :: "(hash \<rightharpoonup> block) \<Rightarrow> hash \<Rightarrow> bool" where
  "dec m h = (\<exists>b. m h = Some b \<and> decision b \<noteq> 0)"

text \<open>What the cache holds of a block agrees with the tree.\<close>

definition blk_ok :: "hash \<Rightarrow> hash tree \<Rightarrow> (hash \<rightharpoonup> block) \<Rightarrow> hash \<Rightarrow> block \<Rightarrow> bool" where
  "blk_ok g T m h b = (blk_hash b = h \<and> (\<forall>q. self_qc b = Some q \<longrightarrow> qc_get_obj_hash q = h) \<and>
     (if delivered b then
        h \<in> dom T \<and> ht T h = unat (height b) \<and> qc_ref b = Some (qcr T h) \<and> is_del m (par T h) \<and>
        (\<exists>q. qc b = Some q \<and> qc_get_obj_hash q = qcr T h) \<and> (h \<noteq> g \<longrightarrow> (\<exists>ps. parents b = par T h # ps))
      else height b = 0 \<and> qc_ref b = None \<and> decision b = 0))"

definition cache_inv :: "hash \<Rightarrow> hash tree \<Rightarrow> (hash \<rightharpoonup> block) \<Rightarrow> bool" where
  "cache_inv g T m = (tree_ok g T \<and> is_del m g \<and> (\<forall>h b. m h = Some b \<longrightarrow> blk_ok g T m h b))"

definition comm :: "hash tree \<Rightarrow> (hash \<Rightarrow> bool) \<Rightarrow> hash \<Rightarrow> bool" where
  "comm T C b = (\<exists>b1 b2. succession T b b1 b2 \<and> C b \<and> C b1 \<and> C b2)"

definition hqc_ok :: "hash tree \<Rightarrow> (hash \<Rightarrow> bool) \<Rightarrow> 'pk core \<Rightarrow> bool" where
  "hqc_ok T C c = (\<exists>hh q. hqc c = Some (hh, q) \<and> is_del (cache c) hh \<and> qc_get_obj_hash q = hh \<and> C hh \<and>
     ht T (b_lock c) \<le> ht T hh)"

definition core_inv ::
  "hash \<Rightarrow> hash tree \<Rightarrow> (hash \<Rightarrow> bool) \<Rightarrow> (hash \<Rightarrow> rid set) \<Rightarrow> 'pk core \<Rightarrow> bool"
where
  "core_inv g T C V c = (b0 c = g \<and> cache_inv g T (cache c) \<and>
     is_del (cache c) (b_lock c) \<and> is_del (cache c) (b_exec c) \<and> hqc_ok T C c \<and>
     ht T (b_exec c) \<le> ht T (b_lock c) \<and> C (b_lock c) \<and> comm T C (b_exec c) \<and>
     (\<forall>h. dec (cache c) h = anc T h (b_exec c)) \<and>
     (\<forall>h. is_del (cache c) h \<longrightarrow> C (qcr T h)) \<and>
     (\<forall>h b. cache c h = Some b \<longrightarrow> h \<noteq> g \<longrightarrow> voted b \<subseteq> V h))"

lemma cache_inv_blk: "cache_inv g T m \<Longrightarrow> m h = Some b \<Longrightarrow> blk_ok g T m h b"
  by (simp add: cache_inv_def)

lemma cache_inv_del:
  assumes "cache_inv g T m" "is_del m h"
  obtains b where "m h = Some b" "delivered b" "h \<in> dom T" "ht T h = unat (height b)" "qc_ref b = Some (qcr T h)"
    "is_del m (par T h)" "h \<noteq> g \<longrightarrow> (\<exists>ps. parents b = par T h # ps)" "blk_hash b = h"
    "\<exists>q. qc b = Some q \<and> qc_get_obj_hash q = qcr T h"
  using assms cache_inv_blk [OF assms(1)] by (force simp: is_del_def blk_ok_def)

lemma del_dom: "cache_inv g T m \<Longrightarrow> is_del m h \<Longrightarrow> h \<in> dom T"
  by (erule (1) cache_inv_del) simp

lemma anc_del: "cache_inv g T m \<Longrightarrow> is_del m h \<Longrightarrow> anc T a h \<Longrightarrow> is_del m a"
proof -
  assume inv: "cache_inv g T m" and h: "is_del m h" and "anc T a h"
  then have "(a, h) \<in> (tpar T)\<^sup>*" by (simp add: anc_def)
  then show ?thesis
  proof (induction rule: converse_rtrancl_induct)
    case (step y z)
    then have "is_del m (par T z)" by (rule_tac cache_inv_del [OF inv step.IH]) simp
    moreover have "par T z = y" using step(1) by (auto simp: tpar_def par_def)
    ultimately show ?case by simp
  qed (rule h)
qed

lemma qcr_del: "cache_inv g T m \<Longrightarrow> is_del m h \<Longrightarrow> is_del m (qcr T h) \<and> anc T (qcr T h) h \<and> ht T (qcr T h) \<le> ht T h"
proof -
  assume inv: "cache_inv g T m" and h: "is_del m h"
  have ok: "tree_ok g T" using inv by (simp add: cache_inv_def)
  have dom: "h \<in> dom T" by (rule del_dom [OF inv h])
  have "anc T (qcr T h) h"
  proof (cases "h = g")
    case True
    then show ?thesis using tree_genesis [OF ok] by (simp add: qcr_def)
  next
    case False
    then show ?thesis using tree_parent [OF ok dom] tree_entry [OF dom] anc_step by fastforce
  qed
  then show ?thesis using anc_del [OF inv h] anc_ht_le [OF ok _ dom] by blast
qed

section \<open>Walking down the parents\<close>

lemma walk_down_ok:
  assumes inv: "cache_inv g T m" 
  shows "is_del m h \<Longrightarrow> ht T h < n \<Longrightarrow> \<exists>e q. walk_down m lim n h = Inr (e, q) \<and> anc T e h \<and>
    ht T e = min (ht T h) (unat lim) \<and> set q = {x. anc T x h \<and> unat lim < ht T x} \<and>
    successively (\<lambda>x y. y = par T x) (q @ [e])"
proof (induction n arbitrary: h)
  case (Suc n)
  have ok: "tree_ok g T" using inv by (simp add: cache_inv_def)
  obtain b where b: "m h = Some b" "ht T h = unat (height b)" "h \<in> dom T" "is_del m (par T h)"
    "h \<noteq> g \<longrightarrow> (\<exists>ps. parents b = par T h # ps)"
    by (rule cache_inv_del [OF inv Suc.prems(1)]) blast
  show ?case
  proof (cases "height b > lim")
    case True
    then have "ht T h \<noteq> 0" by (simp add: b word_less_nat_alt)
    then have "h \<noteq> g" using ht_zero [OF ok b(3)] by simp
    then obtain ps where ps: "parents b = par T h # ps" using b(5) by blast
    have par: "ht T h = Suc (ht T (par T h))" using tree_parent [OF ok b(3) \<open>h \<noteq> g\<close>] by simp
    have "ht T (par T h) < n" using Suc.prems(2) par by simp
    from Suc.IH [OF b(4) this] obtain e q where IH: "walk_down m lim n (par T h) = Inr (e, q)"
      "anc T e (par T h)" "ht T e = min (ht T (par T h)) (unat lim)"
      "set q = {x. anc T x (par T h) \<and> unat lim < ht T x}" "successively (\<lambda>x y. y = par T x) (q @ [e])"
      by blast
    have lim: "unat lim < ht T h" using True by (simp add: b word_less_nat_alt)
    have walk: "walk_down m lim (Suc n) h = Inr (e, h # q)"
      using True b(1) ps IH(1) by (simp add: first_parent_def)
    have entry: "T h = Some (par T h, qcr T h, ht T h)" by (rule tree_entry [OF b(3)])
    have "x = h \<or> anc T x (par T h)" if "anc T x h" for x
      using anc_cases [OF that] entry by auto
    then have set: "set (h # q) = {x. anc T x h \<and> unat lim < ht T x}"
      using lim anc_step [of T h, OF entry] by (auto simp: IH(4))
    have "hd (q @ [e]) = par T h"
    proof (cases n)
      case (Suc n')
      show ?thesis using IH(1) by (auto simp: Suc sbind_eq_Inr split: option.splits if_splits)
    qed (use IH(1) in simp)
    then have succ: "successively (\<lambda>x y. y = par T x) ((h # q) @ [e])"
      using IH(5) by (simp add: successively_Cons)
    show ?thesis
      using walk set succ anc_step [of T h, OF entry IH(2)] IH(3) lim par by (intro exI [of _ e] exI [of _ "h # q"]) simp
  next
    case False
    then have le: "ht T h \<le> unat lim" by (simp add: b word_less_nat_alt not_less)
    have "{x. anc T x h \<and> unat lim < ht T x} = {}"
      using le anc_ht_le [OF ok _ b(3)] by fastforce
    then show ?thesis using False b(1) le by simp
  qed
qed simp

section \<open>Committing\<close>

definition mark_decided :: "hash set \<Rightarrow> (hash \<rightharpoonup> block) \<Rightarrow> (hash \<rightharpoonup> block)" where
  "mark_decided S m h = (if h \<in> S then map_option (\<lambda>b. b\<lparr>decision := 1\<rparr>) (m h) else m h)"

definition commit_event :: "'pk core \<Rightarrow> hash \<Rightarrow> event list" where
  "commit_event c h = DoConsensus h # decide_events (core_id c) h (the (cache c h))"

lemma decide_events_decision [simp]: "decide_events i h (b\<lparr>decision := d\<rparr>) = decide_events i h b"
  by (simp add: decide_events_def)

lemma mark_decided_upd: "m h = Some b \<Longrightarrow> mark_decided S (m(h \<mapsto> b\<lparr>decision := 1\<rparr>)) = mark_decided (insert h S) m"
  by (auto simp: mark_decided_def fun_eq_iff)

lemma commit_all_ok:
  "set hs \<subseteq> dom (cache c) \<Longrightarrow> commit_all hs c =
     Inr (c\<lparr>storage := (storage c)\<lparr>blk_cache := mark_decided (set hs) (cache c)\<rparr>\<rparr>,
          concat (map (commit_event c) hs))"
proof (induction hs arbitrary: c)
  case Nil
  have "mark_decided {} (cache c) = cache c" by (auto simp: mark_decided_def)
  then show ?case by simp
next
  case (Cons h hs)
  then obtain b where b: "cache c h = Some b" by auto
  let ?c = "set_blk h (b\<lparr>decision := 1\<rparr>) c"
  have ev: "commit_event ?c = commit_event c"
    using b by (auto simp: commit_event_def fun_eq_iff decide_events_def)
  have "commit_all hs ?c = Inr (?c\<lparr>storage := (storage ?c)\<lparr>blk_cache := mark_decided (set hs) (cache ?c)\<rparr>\<rparr>,
      concat (map (commit_event ?c) hs))"
    using Cons.prems by (intro Cons.IH) auto
  then have "commit_all hs ?c = Inr (c\<lparr>storage := (storage c)\<lparr>blk_cache := mark_decided (insert h (set hs)) (cache c)\<rparr>\<rparr>,
      concat (map (commit_event c) hs))"
    unfolding ev set_blk_simps mark_decided_upd [of "cache c" h b, OF b] by (simp add: set_blk_def)
  then show ?case
    using b by (simp add: commit_event_def [of c h])
qed

lemma is_del_mark [simp]: "is_del (mark_decided S m) = is_del m"
  by (auto simp: is_del_def mark_decided_def fun_eq_iff split: if_splits)

lemma dec_mark: "S \<subseteq> dom m \<Longrightarrow> dec (mark_decided S m) h = (dec m h \<or> h \<in> S)"
  by (auto simp: dec_def mark_decided_def)

lemma cache_inv_mark:
  assumes "cache_inv g T m" and "\<And>h. h \<in> S \<Longrightarrow> is_del m h"
  shows "cache_inv g T (mark_decided S m)"
proof -
  have "blk_ok g T (mark_decided S m) h b'" if b': "mark_decided S m h = Some b'" for h b'
  proof -
    obtain b where b: "m h = Some b" "b' = (if h \<in> S then b\<lparr>decision := 1\<rparr> else b)"
      using b' by (auto simp: mark_decided_def split: if_splits)
    have "blk_ok g T m h b" by (rule cache_inv_blk [OF assms(1) b(1)])
    then show ?thesis using b assms(2) [of h] by (auto simp: blk_ok_def is_del_def)
  qed
  then show ?thesis using assms(1) by (auto simp: cache_inv_def)
qed

text \<open>The state after a commit: the chain up to \<open>blk\<close> is decided and \<open>blk\<close> is executed.\<close>

definition commit_state :: "hash \<Rightarrow> hash set \<Rightarrow> 'pk core \<Rightarrow> 'pk core" where
  "commit_state blk S c = c\<lparr>storage := (storage c)\<lparr>blk_cache := mark_decided S (cache c)\<rparr>, b_exec := blk\<rparr>"

lemma commit_state_simps [simp]:
  "cache (commit_state blk S c) = mark_decided S (cache c)" "b0 (commit_state blk S c) = b0 c"
  "hqc (commit_state blk S c) = hqc c" "b_lock (commit_state blk S c) = b_lock c"
  "b_exec (commit_state blk S c) = blk" "vheight (commit_state blk S c) = vheight c"
  "config (commit_state blk S c) = config c" "core_id (commit_state blk S c) = core_id c"
  "priv_key (commit_state blk S c) = priv_key c" "vote_disabled (commit_state blk S c) = vote_disabled c"
  by (simp_all add: commit_state_def)

lemma commit_ok:
  assumes inv: "cache_inv g T (cache c)" and blk: "is_del (cache c) blk" and ex: "is_del (cache c) (b_exec c)"
    and anc: "anc T (b_exec c) blk"
  shows "\<exists>q. commit blk c = Inr (commit_state blk (set q) c, concat (map (commit_event c) (rev q))) \<and>
    set q = {x. anc T x blk \<and> ht T (b_exec c) < ht T x} \<and>
    successively (\<lambda>x y. y = par T x) (q @ [b_exec c])"
proof -
  have ok: "tree_ok g T" using inv by (simp add: cache_inv_def)
  obtain b where b: "cache c blk = Some b" "ht T blk = unat (height b)"
    by (rule cache_inv_del [OF inv blk]) blast
  obtain x where x: "cache c (b_exec c) = Some x" "ht T (b_exec c) = unat (height x)"
    by (rule cache_inv_del [OF inv ex]) blast
  have "ht T blk < walk_fuel b" by (simp add: walk_fuel_def b)
  from walk_down_ok [OF inv blk this, of "height x"] obtain e q where
    w: "walk_down (cache c) (height x) (walk_fuel b) blk = Inr (e, q)" "anc T e blk"
      "ht T e = min (ht T blk) (unat (height x))" "set q = {y. anc T y blk \<and> unat (height x) < ht T y}"
      "successively (\<lambda>x y. y = par T x) (q @ [e])" by blast
  have dom: "blk \<in> dom T" by (rule del_dom [OF inv blk])
  have le: "ht T (b_exec c) \<le> ht T blk" by (rule anc_ht_le [OF ok anc dom])
  then have "ht T e = ht T (b_exec c)" using w(3) x(2) by simp
  then have "anc T e (b_exec c)" using anc_linear [OF ok dom w(2) anc] by simp
  then have e: "e = b_exec c"
    using anc_ht [OF ok _ del_dom [OF inv ex]] \<open>ht T e = ht T (b_exec c)\<close> by fastforce
  have "set (rev q) \<subseteq> dom (cache c)"
    using anc_del [OF inv blk] by (auto simp: w(4) is_del_def)
  from commit_all_ok [OF this] have "commit blk c = Inr (commit_state blk (set q) c, concat (map (commit_event c) (rev q)))"
    using b x w(1) e by (simp add: commit_def commit_state_def)
  then show ?thesis using w(4,5) e x(2) by (intro exI [of _ q]) simp
qed

section \<open>The update step\<close>

text \<open>What \<open>update\<close> leaves alone.\<close>

definition frame :: "'pk core \<Rightarrow> 'pk core \<Rightarrow> bool" where
  "frame c c' = (vheight c' = vheight c \<and> config c' = config c \<and> core_id c' = core_id c \<and>
     priv_key c' = priv_key c \<and> vote_disabled c' = vote_disabled c \<and>
     (\<forall>h. map_option (decision_update (\<lambda>_. 0)) (cache c' h) = map_option (decision_update (\<lambda>_. 0)) (cache c h)))"

lemma frame_refl [simp]: "frame c c" by (simp add: frame_def)

lemma frame_trans: "frame a b \<Longrightarrow> frame b c \<Longrightarrow> frame a c" by (simp add: frame_def)

lemma frame_cache:
  assumes "frame c c'" and "cache c h = Some b"
  shows "\<exists>d. cache c' h = Some (b\<lparr>decision := d\<rparr>)"
proof -
  obtain b' where b': "cache c' h = Some b'" "b'\<lparr>decision := 0\<rparr> = b\<lparr>decision := 0\<rparr>"
  proof -
    have "map_option (decision_update (\<lambda>_. 0)) (cache c' h) = Some (b\<lparr>decision := 0\<rparr>)"
      using assms by (simp add: frame_def)
    then show thesis using that by auto
  qed
  then have "b' = b\<lparr>decision := decision b'\<rparr>" by (cases b; cases b') simp
  then show ?thesis using b'(1) by metis
qed

lemma core_inv_cache: "core_inv g T C V c \<Longrightarrow> cache_inv g T (cache c)"
  by (simp add: core_inv_def)

lemma core_inv_tree: "core_inv g T C V c \<Longrightarrow> tree_ok g T"
  by (simp add: core_inv_def cache_inv_def)

lemma update_hqc_ok:
  assumes inv: "core_inv g T C V c" and h: "is_del (cache c) h" "C h" "qc_get_obj_hash q = h"
  shows "\<exists>c' ev hh. update_hqc h (Some q) c = Inr (c', ev) \<and> core_inv g T C V c' \<and> frame c c' \<and>
    cache c' = cache c \<and> b_lock c' = b_lock c \<and> b_exec c' = b_exec c \<and> map_option fst (hqc c') = Some hh \<and>
    ht T h \<le> ht T hh"
proof -
  note ci = core_inv_cache [OF inv]
  obtain b where b: "cache c h = Some b" "ht T h = unat (height b)"
    by (rule cache_inv_del [OF ci h(1)]) blast
  obtain hh hq where hqc: "hqc c = Some (hh, hq)" "is_del (cache c) hh" "ht T (b_lock c) \<le> ht T hh"
    using inv by (auto simp: core_inv_def hqc_ok_def)
  obtain hb where hb: "cache c hh = Some hb" "ht T hh = unat (height hb)"
    by (rule cache_inv_del [OF ci hqc(2)]) blast
  show ?thesis
  proof (cases "height hb < height b")
    case True
    then have "ht T hh < ht T h" by (simp add: b hb word_less_nat_alt)
    then have "core_inv g T C V (c\<lparr>hqc := Some (h, q)\<rparr>)"
      using inv h hqc by (simp add: core_inv_def hqc_ok_def)
    then show ?thesis using b hqc hb True by (simp add: update_hqc_def frame_def)
  next
    case False
    then have "ht T h \<le> ht T hh" by (simp add: b hb word_less_nat_alt)
    then show ?thesis using b hqc hb False inv by (simp add: update_hqc_def)
  qed
qed

lemma lock_ok:
  assumes inv: "core_inv g T C V c" and h: "is_del (cache c) h" "C h"
    and hh: "map_option fst (hqc c) = Some hh" "ht T h \<le> ht T hh"
  shows "\<exists>lk b. cache c (b_lock c) = Some lk \<and> cache c h = Some b \<and>
    (let c' = (if height b > height lk then c\<lparr>b_lock := h\<rparr> else c) in
     core_inv g T C V c' \<and> frame c c' \<and> cache c' = cache c \<and> b_exec c' = b_exec c \<and>
     ht T h \<le> ht T (b_lock c') \<and> ht T (b_lock c) \<le> ht T (b_lock c'))"
proof -
  note ci = core_inv_cache [OF inv]
  have "is_del (cache c) (b_lock c)" using inv by (simp add: core_inv_def)
  then obtain lk where lk: "cache c (b_lock c) = Some lk" "ht T (b_lock c) = unat (height lk)"
    by (rule cache_inv_del [OF ci]) blast
  obtain b where b: "cache c h = Some b" "ht T h = unat (height b)"
    by (rule cache_inv_del [OF ci h(1)]) blast
  show ?thesis
  proof (cases "height lk < height b")
    case True
    then have lt: "ht T (b_lock c) < ht T h" by (simp add: b lk word_less_nat_alt)
    have "core_inv g T C V (c\<lparr>b_lock := h\<rparr>)"
      using inv h hh lt by (auto simp: core_inv_def hqc_ok_def)
    then show ?thesis using b lk True lt by (simp add: frame_def)
  next
    case False
    then have "ht T h \<le> ht T (b_lock c)" by (simp add: b lk word_less_nat_alt)
    then show ?thesis using b lk False inv by simp
  qed
qed

lemma commit_inv:
  assumes inv: "core_inv g T C V c" and blk: "is_del (cache c) blk" "comm T C blk" "\<not> dec (cache c) blk"
    and le: "ht T blk \<le> ht T (b_lock c)"
    and chain: "\<And>a b. comm T C a \<Longrightarrow> comm T C b \<Longrightarrow> anc T a b \<or> anc T b a"
  shows "\<exists>c' ev. commit blk c = Inr (c', ev) \<and> core_inv g T C V c' \<and> frame c c' \<and> b_lock c' = b_lock c"
proof -
  note ci = core_inv_cache [OF inv] note ok = core_inv_tree [OF inv]
  have ex: "is_del (cache c) (b_exec c)" "comm T C (b_exec c)" and dec: "\<And>h. dec (cache c) h = anc T h (b_exec c)"
    using inv by (auto simp: core_inv_def)
  have anc: "anc T (b_exec c) blk" using chain [OF ex(2) blk(2)] dec blk(3) by blast
  from commit_ok [OF ci blk(1) ex(1) anc] obtain q ev where
    q: "commit blk c = Inr (commit_state blk (set q) c, ev)"
      "set q = {x. anc T x blk \<and> ht T (b_exec c) < ht T x}" by blast
  have dom: "blk \<in> dom T" by (rule del_dom [OF ci blk(1)])
  have del: "is_del (cache c) h" if "h \<in> set q" for h
    using that anc_del [OF ci blk(1)] by (simp add: q(2))
  have sub: "set q \<subseteq> dom (cache c)" using del by (auto simp: is_del_def)
  have "dec (mark_decided (set q) (cache c)) h = anc T h blk" for h
  proof -
    have "anc T h (b_exec c)" if "anc T h blk" "\<not> ht T (b_exec c) < ht T h"
      using anc_linear [OF ok dom that(1) anc] that(2) by simp
    then show ?thesis using dec_mark [OF sub] dec anc anc_trans by (auto simp: q(2))
  qed
  moreover have "cache_inv g T (mark_decided (set q) (cache c))" by (rule cache_inv_mark [OF ci del])
  moreover have "hqc_ok T C (commit_state blk (set q) c)"
    using inv by (simp add: core_inv_def hqc_ok_def)
  moreover have "voted b \<subseteq> V h" if "mark_decided (set q) (cache c) h = Some b" "h \<noteq> g" for h b
  proof -
    have "\<And>b. cache c h = Some b \<Longrightarrow> voted b \<subseteq> V h" using inv that(2) by (simp add: core_inv_def)
    then show ?thesis using that(1) by (auto simp: mark_decided_def split: if_splits)
  qed
  ultimately have "core_inv g T C V (commit_state blk (set q) c)"
    using inv blk le by (simp add: core_inv_def)
  moreover have "frame c (commit_state blk (set q) c)"
    by (auto simp: frame_def mark_decided_def option.map_comp o_def)
  ultimately show ?thesis using q(1) by simp
qed

lemma not_dec: "cache c h = Some b \<Longrightarrow> (decision b \<noteq> 0) = dec (cache c) h"
  by (simp add: dec_def)

lemma dec_below_lock:
  "core_inv g T C V c \<Longrightarrow> dec (cache c) h \<Longrightarrow> ht T h \<le> ht T (b_lock c)"
  using anc_ht_le [OF core_inv_tree, of g T C V c h "b_exec c"] del_dom [OF core_inv_cache, of g T C V c "b_exec c"]
  by (fastforce simp: core_inv_def)

text \<open>The path of \<open>update\<close> past its first two early returns.\<close>

lemma update_run:
  assumes "cache c n = Some b" "qc_ref b = Some n2" "qc b = Some q" "cache c n2 = Some b2" "decision b2 = 0"
    and u: "update_hqc n2 (Some q) c = Inr (c1, ev1)" "cache c1 = cache c"
    and "qc_ref b2 = Some n1" "cache c n1 = Some b1" "decision b1 = 0" "cache c (b_lock c1) = Some lk"
    and "qc_ref b1 = Some n0" "cache c n0 = Some bb"
  defines "c2 \<equiv> if height lk < height b1 then c1\<lparr>b_lock := n1\<rparr> else c1"
  shows "update n c = (if decision bb \<noteq> 0 then Inr (c2, ev1) else
      sbind (first_parent b2) (\<lambda>p2. if p2 \<noteq> n1 then Inr (c2, ev1) else
      sbind (first_parent b1) (\<lambda>p1. if p1 \<noteq> n0 then Inr (c2, ev1) else
      sbind (commit n0 c2) (\<lambda>(c, ev2). Inr (c, ev1 @ ev2)))))"
proof -
  have c2: "cache c2 = cache c" using u by (simp add: c2_def)
  show ?thesis
    unfolding update_def using assms(1-13) c2 by (simp add: c2_def [symmetric])
qed

text \<open>
  \<open>update\<close> never throws under the invariant, keeps it, raises the lock to at least the
  block two certificates back, and never lowers it.
\<close>

lemma update_ok:
  assumes inv: "core_inv g T C V c" and n: "is_del (cache c) n"
    and chain: "\<And>a b. comm T C a \<Longrightarrow> comm T C b \<Longrightarrow> anc T a b \<or> anc T b a"
  shows "\<exists>c' ev. update n c = Inr (c', ev) \<and> core_inv g T C V c' \<and> frame c c' \<and>
    ht T (b_lock c) \<le> ht T (b_lock c') \<and> ht T (qcr T (qcr T n)) \<le> ht T (b_lock c')"
proof -
  note ci = core_inv_cache [OF inv]
  define n2 n1 n0 where "n2 = qcr T n" and "n1 = qcr T n2" and "n0 = qcr T n1"
  have d2: "is_del (cache c) n2" and d1: "is_del (cache c) n1" and d0: "is_del (cache c) n0"
    and le12: "ht T n1 \<le> ht T n2" and le01: "ht T n0 \<le> ht T n1"
    using qcr_del [OF ci] n by (simp_all add: n2_def n1_def n0_def)
  have C: "C n2" "C n1" "C n0" using inv n d2 d1 by (auto simp: core_inv_def n2_def n1_def n0_def)
  obtain b q where b: "cache c n = Some b" "qc_ref b = Some n2" "qc b = Some q" "qc_get_obj_hash q = n2"
    by (rule cache_inv_del [OF ci n]) (auto simp: n2_def)
  obtain b2 where b2: "cache c n2 = Some b2" "qc_ref b2 = Some n1" "n2 \<in> dom T" "n2 \<noteq> g \<longrightarrow> (\<exists>ps. parents b2 = par T n2 # ps)"
    by (rule cache_inv_del [OF ci d2]) (auto simp: n1_def)
  obtain b1 where b1: "cache c n1 = Some b1" "qc_ref b1 = Some n0" "n1 \<in> dom T" "n1 \<noteq> g \<longrightarrow> (\<exists>ps. parents b1 = par T n1 # ps)"
    by (rule cache_inv_del [OF ci d1]) (auto simp: n0_def)
  obtain bb where bb: "cache c n0 = Some bb" using d0 by (auto simp: is_del_def)
  show ?thesis
  proof (cases "dec (cache c) n2")
    case True
    then have "update n c = Inr (c, [])" using b b2 by (auto simp: update_def dec_def)
    then show ?thesis using inv dec_below_lock [OF inv True] le12 by (simp add: n2_def [symmetric] n1_def [symmetric])
  next
    case nd2: False
    from update_hqc_ok [OF inv d2 C(1) b(4)] obtain c1 ev1 hh where
      u: "update_hqc n2 (Some q) c = Inr (c1, ev1)" "core_inv g T C V c1" "frame c c1" "cache c1 = cache c"
        "b_lock c1 = b_lock c" "b_exec c1 = b_exec c" "map_option fst (hqc c1) = Some hh" "ht T n2 \<le> ht T hh"
      by blast
    show ?thesis
    proof (cases "dec (cache c) n1")
      case True
      then have "update n c = Inr (c1, ev1)"
        using b b2 b1 nd2 u(1,4) by (auto simp: update_def dec_def)
      then show ?thesis using u dec_below_lock [OF u(2), of n1] True
        by (simp add: n2_def [symmetric] n1_def [symmetric])
    next
      case nd1: False
      have d1': "is_del (cache c1) n1" using d1 u(4) by simp
      obtain lk b1' where "cache c1 (b_lock c1) = Some lk" "cache c1 n1 = Some b1'" and
        lock: "let c' = (if height b1' > height lk then c1\<lparr>b_lock := n1\<rparr> else c1) in
          core_inv g T C V c' \<and> frame c1 c' \<and> cache c' = cache c1 \<and> b_exec c' = b_exec c1 \<and>
          ht T n1 \<le> ht T (b_lock c') \<and> ht T (b_lock c1) \<le> ht T (b_lock c')"
        using lock_ok [OF u(2) d1' C(2) u(7)] le12 u(8) by auto
      then have lk: "cache c (b_lock c) = Some lk" and "b1' = b1" using u b1 by auto
      define c2 where "c2 = (if height b1 > height lk then c1\<lparr>b_lock := n1\<rparr> else c1)"
      have c2: "core_inv g T C V c2" "frame c1 c2" "cache c2 = cache c" "ht T n1 \<le> ht T (b_lock c2)"
        "ht T (b_lock c) \<le> ht T (b_lock c2)"
        using lock u \<open>b1' = b1\<close> by (simp_all add: c2_def Let_def)
      have dec0: "decision b2 = 0" "decision b1 = 0" "(decision bb \<noteq> 0) = dec (cache c) n0"
        using nd2 nd1 b2(1) b1(1) bb by (auto simp: dec_def)
      have lk1: "cache c (b_lock c1) = Some lk" using lk u(5) by simp
      note run = update_run [OF b(1,2,3) b2(1) dec0(1) u(1,4) b2(2) b1(1) dec0(2) lk1 b1(2) bb,
        folded c2_def, unfolded dec0(3)]
      have stop: ?thesis if "update n c = Inr (c2, ev1)"
        using that c2 frame_trans [OF u(3) c2(2)] by (simp add: n2_def [symmetric] n1_def [symmetric])
      show ?thesis
      proof (cases "dec (cache c) n0")
        case True
        then show ?thesis using run stop by simp
      next
        case nd0: False
        have ng: "n2 \<noteq> g" "n1 \<noteq> g"
          using nd2 nd1 inv core_inv_tree [OF inv] anc_genesis [OF core_inv_tree [OF inv] del_dom [OF ci]]
          by (auto simp: core_inv_def)
        obtain p2 p1 where p: "first_parent b2 = Inr p2" "p2 = par T n2" "first_parent b1 = Inr p1" "p1 = par T n1"
          using b2(4) b1(4) ng by (auto simp: first_parent_def)
        show ?thesis
        proof (cases "p2 = n1 \<and> p1 = n0")
          case False
          then show ?thesis using run stop p nd0 by auto
        next
          case True
          then have "succession T n0 n1 n2"
            using p b1(3) b2(3) by (simp add: succession_def n1_def n0_def)
          then have "comm T C n0" using C by (auto simp: comm_def)
          moreover have "ht T n0 \<le> ht T (b_lock c2)" using le01 c2(4) by simp
          ultimately obtain c3 ev2 where c3: "commit n0 c2 = Inr (c3, ev2)" "core_inv g T C V c3" "frame c2 c3"
            "b_lock c3 = b_lock c2"
            using commit_inv [OF c2(1) _ _ _ _ chain, of n0] d0 nd0 c2(3) by auto
          have "update n c = Inr (c3, ev1 @ ev2)" using run nd0 p True c3(1) by simp
          then show ?thesis
            using c3 c2 frame_trans [OF frame_trans [OF u(3) c2(2)] c3(3)]
            by (simp add: n2_def [symmetric] n1_def [symmetric])
        qed
      qed
    qed
  qed
qed

end
