(* ===== verification/Consensus_Steps.thy ===== *)
theory Consensus_Steps
  imports Consensus_Inv
begin

text \<open>
  The invariant of \<^theory_text>\<open>Consensus_Inv\<close> through the methods that bring blocks and votes
  in: fetching, delivery, votes, proposals received and made.
\<close>

section \<open>Growing trees and certificates\<close>

lemma anc_sub:
  assumes ok: "tree_ok g T" and sub: "T \<subseteq>\<^sub>m T'" and h: "h \<in> dom T"
  shows "anc T' a h = anc T a h"
proof
  assume "anc T' a h"
  then have "(a, h) \<in> (tpar T')\<^sup>*" by (simp add: anc_def)
  then have "anc T a h \<and> a \<in> dom T"
  proof (induction rule: converse_rtrancl_induct)
    case (step y z)
    have z: "T z = T' z" using sub step.IH by (simp add: map_le_def)
    obtain q n where "T' z = Some (y, q, n)" using step(1) by (auto simp: tpar_def)
    then have "anc T y z" using anc_step [of T z y q n y] z by simp
    then have "anc T y h" using conjunct1 [OF step.IH] by (rule anc_trans)
    then show ?case using anc_ht [OF ok _ h] by simp
  qed (use h in simp)
  then show "anc T a h" ..
qed (use anc_mono [OF _ sub] in blast)

lemma succession_mono: "T \<subseteq>\<^sub>m T' \<Longrightarrow> succession T a b c \<Longrightarrow> succession T' a b c"
  using map_le_implies_dom_le [of T T'] by (auto simp: succession_def par_mono qcr_mono)

lemma core_inv_mono:
  assumes inv: "core_inv g T C V c" and sub: "T \<subseteq>\<^sub>m T'" and ok: "tree_ok g T'"
    and C: "\<And>h. C h \<Longrightarrow> C' h" and V: "\<And>h. V h \<subseteq> V' h"
  shows "core_inv g T' C' V' c"
proof -
  note ci = core_inv_cache [OF inv] note ok0 = core_inv_tree [OF inv]
  have dom: "h \<in> dom T" if "is_del (cache c) h" for h by (rule del_dom [OF ci that])
  have eq: "ht T' h = ht T h \<and> qcr T' h = qcr T h \<and> par T' h = par T h" if "is_del (cache c) h" for h
    using dom [OF that] sub by (simp add: ht_mono qcr_mono par_mono)
  have sub_dom: "dom T \<subseteq> dom T'" by (rule map_le_implies_dom_le [OF sub])
  have "blk_ok g T' (cache c) h b" if "cache c h = Some b" for h b
    using cache_inv_blk [OF ci that] that eq [of h] sub_dom
    by (cases "delivered b") (auto simp: blk_ok_def is_del_def)
  then have ci': "cache_inv g T' (cache c)" using ci ok by (simp add: cache_inv_def)
  have "comm T C (b_exec c)" using inv by (simp add: core_inv_def)
  then have "comm T' C' (b_exec c)"
    unfolding comm_def using C succession_mono [OF sub] by metis
  moreover have "hqc_ok T' C' c"
    using inv C eq by (auto simp: core_inv_def hqc_ok_def)
  moreover have "anc T' h (b_exec c) = anc T h (b_exec c)" for h
    using inv by (intro anc_sub [OF ok0 sub] dom) (simp add: core_inv_def)
  moreover have "voted b \<subseteq> V' h" if "cache c h = Some b" "h \<noteq> g" for h b
    using that inv V by (force simp: core_inv_def)
  ultimately show ?thesis
    using inv ci' C eq by (auto simp: core_inv_def)
qed

section \<open>Fetching a block\<close>

text \<open>A block as it comes off the wire.\<close>

definition wire_block :: "block \<Rightarrow> bool" where
  "wire_block b = (\<not> delivered b \<and> height b = 0 \<and> qc_ref b = None \<and> decision b = 0 \<and> voted b = {} \<and>
     (\<forall>q. self_qc b = Some q \<longrightarrow> qc_get_obj_hash q = blk_hash b))"

lemma unserialize_wire: "block_unserialize sha s = Inr (b, s') \<Longrightarrow> wire_block b"
  by (auto simp: block_unserialize_def sbind_eq_Inr wire_block_def block_new_def Let_def split: prod.splits)

lemma is_del_upd: "(\<not> delivered b \<Longrightarrow> \<not> is_del m h) \<Longrightarrow> (delivered b \<Longrightarrow> is_del m h) \<Longrightarrow> is_del (m(h \<mapsto> b)) = is_del m"
  by (auto simp: is_del_def fun_eq_iff)

lemma core_inv_set_blk:
  assumes inv: "core_inv g T C V c" and del: "is_del ((cache c)(h \<mapsto> b)) = is_del (cache c)"
    and dec: "dec ((cache c)(h \<mapsto> b)) = dec (cache c)"
    and ok: "blk_ok g T (cache c) h b" and V: "h \<noteq> g \<Longrightarrow> voted b \<subseteq> V h"
  shows "core_inv g T C V (set_blk h b c)"
proof -
  have "blk_ok g T ((cache c)(h \<mapsto> b)) k b'" if "((cache c)(h \<mapsto> b)) k = Some b'" for k b'
    using that ok cache_inv_blk [OF core_inv_cache [OF inv], of k b'] del
    by (auto simp: blk_ok_def split: if_splits)
  then have "cache_inv g T ((cache c)(h \<mapsto> b))"
    using core_inv_cache [OF inv] del by (simp add: cache_inv_def)
  then show ?thesis
    using inv del dec V by (auto simp: core_inv_def hqc_ok_def)
qed

lemma fetch_inv:
  assumes inv: "core_inv g T C V c" and b: "wire_block b"
  shows "core_inv g T C V (c\<lparr>storage := snd (add_blk b (storage c))\<rparr>)"
proof (cases "blk_hash b \<in> dom (cache c)")
  case False
  then have none: "cache c (blk_hash b) = None" by auto
  have "c\<lparr>storage := snd (add_blk b (storage c))\<rparr> = set_blk (blk_hash b) b c"
    using False by (simp add: add_blk_def set_blk_def)
  moreover have "core_inv g T C V (set_blk (blk_hash b) b c)"
    by (rule core_inv_set_blk [OF inv]) (use b none in \<open>auto simp: wire_block_def is_del_def dec_def blk_ok_def fun_eq_iff\<close>)
  ultimately show ?thesis by simp
qed (use inv in \<open>simp add: add_blk_def\<close>)

section \<open>Delivery\<close>

lemma get_delivered_blk_Inr: "(get_delivered_blk c h = Inr p) = (p = h \<and> is_del (cache c) h)"
  by (auto simp: get_delivered_blk_def find_blk_def is_del_def get_blk_def sbind_eq_Inr split: option.splits if_splits)

lemma get_delivered_blks_Inr: "(get_delivered_blks c hs = Inr ps) = (ps = hs \<and> (\<forall>h\<in>set hs. is_del (cache c) h))"
  by (induction hs arbitrary: ps) (auto simp: sbind_eq_Inr get_delivered_blk_Inr)

lemma on_deliver_blk_Inr:
  assumes "on_deliver_blk h c = Inr (v, c')" and "cache c h = Some b" "\<not> delivered b" and "qc b = Some q"
  shows "\<exists>p ps pb. parent_hashes b = p # ps \<and> (\<forall>x\<in>set (p # ps). is_del (cache c) x) \<and> cache c p = Some pb \<and>
    qc_get_obj_hash q \<in> dom (cache c) \<and> v \<and>
    c' = (set_blk h (b\<lparr>parents := p # ps, height := height pb + 1, qc_ref := Some (qc_get_obj_hash q), delivered := True\<rparr>) c)
           \<lparr>tails := insert h (tails c - set (p # ps))\<rparr>"
  using assms
  by (auto simp: on_deliver_blk_def sbind_eq_Inr get_delivered_blks_Inr first_parent_def find_blk_def get_blk_Inr
      split: list.splits option.splits if_splits)

lemma core_inv_tails [simp]: "core_inv g T C V (c\<lparr>tails := t\<rparr>) = core_inv g T C V c"
  by (simp add: core_inv_def hqc_ok_def)

lemma core_inv_waiting [simp]: "core_inv g T C V (c\<lparr>qc_waiting := t\<rparr>) = core_inv g T C V c"
  by (simp add: core_inv_def hqc_ok_def)

lemma core_inv_vheight [simp]: "core_inv g T C V (c\<lparr>vheight := t\<rparr>) = core_inv g T C V c"
  by (simp add: core_inv_def hqc_ok_def)

text \<open>Adding a block above a known parent keeps a tree a tree.\<close>

lemma tree_ok_extend:
  assumes ok: "tree_ok g T" and p: "p \<in> dom T" and q: "anc T q p" and h: "h \<notin> dom T"
  shows "tree_ok g (T(h \<mapsto> (p, q, Suc (ht T p)))) \<and> T \<subseteq>\<^sub>m T(h \<mapsto> (p, q, Suc (ht T p)))"
proof -
  let ?T = "T(h \<mapsto> (p, q, Suc (ht T p)))"
  have sub: "T \<subseteq>\<^sub>m ?T" using h by (auto simp: map_le_def)
  have hg: "h \<noteq> g" "p \<noteq> h" using tree_genesis [OF ok] h p by auto
  have "0 < n \<and> (\<exists>a b. ?T x = Some (a, b, n - 1)) \<and> anc ?T y x" if "?T k = Some (x, y, n)" "k \<noteq> g" for k x y n
  proof (cases "k = h")
    case True
    then show ?thesis using that hg tree_entry [OF p] anc_mono [OF q sub] by auto
  next
    case False
    then have k: "T k = Some (x, y, n)" using that by simp
    then have "0 < n" "\<exists>a b. T x = Some (a, b, n - 1)" "anc T y x" using ok that(2) by (auto simp: tree_ok_def)
    then show ?thesis using h anc_mono [OF _ sub] by auto
  qed
  then show ?thesis using sub hg tree_genesis [OF ok] by (auto simp: tree_ok_def)
qed

text \<open>
  The tree after a delivery, and the assumptions on the block: its certificate is valid,
  its chain contains the certified block, heights fit the counter, and no two blocks of
  the run share an identifier.
\<close>

definition deliver_tree :: "block \<Rightarrow> hash tree \<Rightarrow> hash tree" where
  "deliver_tree b T =
     (case (parent_hashes b, qc b) of
        (p # _, Some q) \<Rightarrow> if blk_hash b \<in> dom T then T
                          else T(blk_hash b \<mapsto> (p, qc_get_obj_hash q, Suc (ht T p)))
      | _ \<Rightarrow> T)"

definition block_content_ok :: "hash tree \<Rightarrow> block \<Rightarrow> bool" where
  "block_content_ok T b = (\<exists>p ps q. parent_hashes b = p # ps \<and> qc b = Some q \<and> anc T (qc_get_obj_hash q) p \<and>
     ht T p + 1 < 2 ^ 32 \<and> (\<forall>x y n. T (blk_hash b) = Some (x, y, n) \<longrightarrow> x = p \<and> y = qc_get_obj_hash q))"

lemma deliver_tree_ok:
  assumes ok: "tree_ok g T" and content: "parent_hashes b = p # ps" "qc b = Some q" "anc T (qc_get_obj_hash q) p"
      "\<And>x y n. T (blk_hash b) = Some (x, y, n) \<Longrightarrow> x = p \<and> y = qc_get_obj_hash q"
    and p: "p \<in> dom T" and ng: "blk_hash b \<noteq> g"
  shows "tree_ok g (deliver_tree b T) \<and> T \<subseteq>\<^sub>m deliver_tree b T \<and>
    deliver_tree b T (blk_hash b) = Some (p, qc_get_obj_hash q, Suc (ht T p))"
proof (cases "blk_hash b \<in> dom T")
  case True
  have "par T (blk_hash b) = p" "qcr T (blk_hash b) = qc_get_obj_hash q"
    using content(4) tree_entry [OF True] by auto
  then have "T (blk_hash b) = Some (p, qc_get_obj_hash q, Suc (ht T p))"
    using tree_parent [OF ok True ng] tree_entry [OF True] by simp
  then show ?thesis using ok True content(1,2) by (simp add: deliver_tree_def)
next
  case False
  then show ?thesis using tree_ok_extend [OF ok p content(3) False] content(1,2) by (simp add: deliver_tree_def)
qed

lemma deliver_inv:
  assumes inv: "core_inv g T C V c" and run: "on_deliver_blk h c = Inr (v, c')"
    and b: "cache c h = Some b" "\<not> delivered b" and content: "block_content_ok T b"
    and C: "\<And>q. qc b = Some q \<Longrightarrow> C (qc_get_obj_hash q)"
  shows "tree_ok g (deliver_tree b T) \<and> T \<subseteq>\<^sub>m deliver_tree b T \<and> core_inv g (deliver_tree b T) C V c' \<and>
    is_del (cache c') h"
proof -
  note ci = core_inv_cache [OF inv] note ok = core_inv_tree [OF inv]
  obtain p ps q where content': "parent_hashes b = p # ps" "qc b = Some q" "anc T (qc_get_obj_hash q) p"
      "\<And>x y n. T (blk_hash b) = Some (x, y, n) \<Longrightarrow> x = p \<and> y = qc_get_obj_hash q" and bound: "ht T p + 1 < 2 ^ 32"
    using content by (auto simp: block_content_ok_def)
  have hash: "blk_hash b = h" and fresh: "decision b = 0" "\<forall>q. self_qc b = Some q \<longrightarrow> qc_get_obj_hash q = h"
    using cache_inv_blk [OF ci b(1)] b(2) by (auto simp: blk_ok_def)
  obtain pb where del: "is_del (cache c) p" "cache c p = Some pb" and c': "c' = (set_blk h
      (b\<lparr>parents := p # ps, height := height pb + 1, qc_ref := Some (qc_get_obj_hash q), delivered := True\<rparr>) c)
        \<lparr>tails := insert h (tails c - set (p # ps))\<rparr>"
    using on_deliver_blk_Inr [OF run b content'(2)] content'(1) by auto
  have not_del: "\<not> is_del (cache c) h" using b by (simp add: is_del_def)
  then have ng: "blk_hash b \<noteq> g" using inv hash by (auto simp: core_inv_def cache_inv_def)
  let ?T = "deliver_tree b T"
  from deliver_tree_ok [OF ok content' del_dom [OF ci del(1)] ng]
  have ok': "tree_ok g ?T" and sub: "T \<subseteq>\<^sub>m ?T" and entry: "?T h = Some (p, qc_get_obj_hash q, Suc (ht T p))"
    using hash by auto
  let ?b = "b\<lparr>parents := p # ps, height := height pb + 1, qc_ref := Some (qc_get_obj_hash q), delivered := True\<rparr>"
  have inv': "core_inv g ?T C V c" by (rule core_inv_mono [OF inv sub ok']) auto
  note ci' = core_inv_cache [OF inv']
  have hp: "ht ?T p = ht T p" "ht T p = unat (height pb)"
    using del ht_mono [OF sub del_dom [OF ci del(1)]] cache_inv_blk [OF ci del(2)]
    by (auto simp: is_del_def blk_ok_def)
  have "unat (height pb + 1) = Suc (ht T p)"
    using bound hp(2) by (simp add: unat_word_ariths)
  then have okb: "blk_ok g ?T ((cache c)(h \<mapsto> ?b)) h ?b"
    using entry content' fresh hash del not_del by (auto simp: blk_ok_def ht_def qcr_def par_def is_del_def)
  have del': "is_del ((cache c)(h \<mapsto> ?b)) k = (k = h \<or> is_del (cache c) k)" for k
    by (auto simp: is_del_def)
  have dec': "dec ((cache c)(h \<mapsto> ?b)) k = dec (cache c) k" for k
    using b fresh by (auto simp: dec_def)
  have "blk_ok g ?T ((cache c)(h \<mapsto> ?b)) k b'" if "((cache c)(h \<mapsto> ?b)) k = Some b'" for k b'
    using that okb cache_inv_blk [OF ci', of k b'] del' by (cases "k = h") (auto simp: blk_ok_def)
  then have "cache_inv g ?T ((cache c)(h \<mapsto> ?b))" using ci' del' by (simp add: cache_inv_def)
  moreover have "qcr ?T h = qc_get_obj_hash q" using entry by (simp add: qcr_def)
  moreover have "h \<noteq> g \<longrightarrow> voted b \<subseteq> V h" using inv b(1) by (simp add: core_inv_def)
  ultimately have "core_inv g ?T C V (set_blk h ?b c)"
    using inv' C [OF content'(2)] del' dec' by (auto simp: core_inv_def hqc_ok_def)
  then show ?thesis using ok' sub del' by (simp add: c')
qed

section \<open>Votes received\<close>

lemma qc_add_part_hash: "qc_add_part r pc q = Inr q' \<Longrightarrow> qc_get_obj_hash q' = qc_get_obj_hash q"
  by (cases q) (auto split: if_splits option.splits)

lemma create_quorum_cert_hash [simp]: "qc_get_obj_hash (create_quorum_cert c h) = h"
  by (simp add: create_quorum_cert_def)

lemma on_qc_finish_inv: "on_qc_finish h c = (c', ev) \<Longrightarrow> core_inv g T C V c' = core_inv g T C V c \<and> frame c c' \<and>
   cache c' = cache c \<and> b_lock c' = b_lock c"
  by (auto simp: on_qc_finish_def frame_def split: if_splits)

definition same_votes :: "'pk core \<Rightarrow> 'pk core \<Rightarrow> bool" where
  "same_votes c c' = (vheight c' = vheight c \<and> config c' = config c \<and> core_id c' = core_id c \<and>
     vote_disabled c' = vote_disabled c \<and> b_lock c' = b_lock c \<and> (\<forall>h. is_del (cache c') h = is_del (cache c) h))"

lemma receive_vote_inv:
  assumes inv: "core_inv g T C V c" and run: "on_receive_vote v c = Inr (c', ev)"
    and v: "voter v \<in> V (vote_hash v)"
    and quorum: "\<And>h X. X \<subseteq> V h \<Longrightarrow> unat (nmajority (config c)) \<le> card X \<Longrightarrow> C h" and Cg: "C g"
  shows "core_inv g T C V c' \<and> same_votes c c'"
proof -
  note ci = core_inv_cache [OF inv]
  let ?h = "vote_hash v"
  obtain b where del: "is_del (cache c) ?h" and b: "cache c ?h = Some b"
    using run by (auto simp: on_receive_vote_def sbind_eq_Inr get_delivered_blk_Inr is_del_def)
  have bdel: "delivered b" using del b by (simp add: is_del_def)
  show ?thesis
  proof (cases "unat (nmajority (config c)) \<le> card (voted b) \<or> voter v \<in> voted b")
    case True
    then have "c' = c" using run b del
      by (auto simp: on_receive_vote_def sbind_eq_Inr get_delivered_blk_Inr Let_def split: if_splits)
    then show ?thesis using inv by (simp add: same_votes_def)
  next
    case False
    define q0 where "q0 = (case self_qc b of None \<Rightarrow> create_quorum_cert (config c) (blk_hash b) | Some q \<Rightarrow> q)"
    obtain q where q: "qc_add_part (voter v) (vote_cert v) q0 = Inr q"
      and rest: "(let c = set_blk ?h (b\<lparr>voted := insert (voter v) (voted b), self_qc := Some q\<rparr>) c in
       if card (voted b) + 1 = unat (nmajority (config c)) then
         sbind (update_hqc ?h (Some q) c) (\<lambda>(c, ev).
         let (c, ev') = on_qc_finish ?h c in Inr (c, ev @ ev'))
       else Inr (c, [])) = Inr (c', ev)"
      using run b del False
      by (auto simp: on_receive_vote_def sbind_eq_Inr get_delivered_blk_Inr Let_def q0_def split: option.splits)
    have q0: "qc_get_obj_hash q0 = ?h"
      using cache_inv_blk [OF ci b] by (auto simp: q0_def blk_ok_def split: option.splits)
    then have hq: "qc_get_obj_hash q = ?h" using qc_add_part_hash [OF q] by simp
    let ?b = "b\<lparr>voted := insert (voter v) (voted b), self_qc := Some q\<rparr>"
    define c1 where "c1 = set_blk ?h ?b c"
    have del1: "is_del ((cache c)(?h \<mapsto> ?b)) = is_del (cache c)"
      using b by (auto simp: is_del_def fun_eq_iff)
    have voted: "voted ?b \<subseteq> V ?h" if "?h \<noteq> g"
      using inv b v that by (simp add: core_inv_def)
    have inv1: "core_inv g T C V c1"
      unfolding c1_def
    proof (rule core_inv_set_blk [OF inv del1])
      show "dec ((cache c)(?h \<mapsto> ?b)) = dec (cache c)" using b by (auto simp: dec_def fun_eq_iff)
      show "blk_ok g T (cache c) ?h ?b" using cache_inv_blk [OF ci b] bdel hq by (simp add: blk_ok_def)
    qed (rule voted)
    have sv1: "same_votes c c1" using del1 by (simp add: same_votes_def c1_def)
    show ?thesis
    proof (cases "card (voted b) + 1 = unat (nmajority (config c))")
      case True
      have "C ?h"
      proof (cases "?h = g")
        case hg: False
        have "card (voted ?b) = card (voted b) + 1" using False by simp
        then show ?thesis using quorum [OF voted [OF hg]] True by simp
      qed (use Cg in simp)
      moreover have "is_del (cache c1) ?h" using del del1 by (simp add: c1_def)
      ultimately obtain c2 ev2 where u: "update_hqc ?h (Some q) c1 = Inr (c2, ev2)" "core_inv g T C V c2" "frame c1 c2"
        "cache c2 = cache c1" "b_lock c2 = b_lock c1"
        using update_hqc_ok [OF inv1 _ _ hq] by blast
      obtain c3 ev3 where f: "on_qc_finish ?h c2 = (c3, ev3)" by fastforce
      have "c' = c3" using rest True u(1) f by (simp add: c1_def [symmetric]) (simp add: c1_def)
      then show ?thesis
        using on_qc_finish_inv [OF f, of g T C V] u sv1 by (auto simp: same_votes_def frame_def)
    next
      case False
      then have "c' = c1" using rest by (simp add: c1_def Let_def)
      then show ?thesis using inv1 sv1 by simp
    qed
  qed
qed

section \<open>Proposals received\<close>

definition votes_of :: "event list \<Rightarrow> vote list" where
  "votes_of ev = concat (map (\<lambda>e. case e of DoVote p v \<Rightarrow> [v] | _ \<Rightarrow> []) ev)"

lemma votes_of_simps [simp]: "votes_of [] = []" "votes_of (ev @ ev') = votes_of ev @ votes_of ev'"
  "votes_of (DoVote r v # ev) = v # votes_of ev" "votes_of (DoConsensus h # ev) = votes_of ev"
  "votes_of (HqcUpdated # ev) = votes_of ev" "votes_of (QcFinished h # ev) = votes_of ev"
  "votes_of (ReceivedProposal p # ev) = votes_of ev" "votes_of (Proposed p # ev) = votes_of ev"
  "votes_of (DoBroadcastProposal p # ev) = votes_of ev"
  by (simp_all add: votes_of_def)

lemma votes_of_decide [simp]: "votes_of (decide_events i h b) = []"
  by (simp add: votes_of_def decide_events_def)

lemma votes_of_commit_all: "commit_all hs c = Inr (c', ev) \<Longrightarrow> votes_of ev = []"
  by (induction hs arbitrary: c ev) (auto simp: sbind_eq_Inr)

lemma votes_of_commit: "commit h c = Inr (c', ev) \<Longrightarrow> votes_of ev = []"
  by (auto simp: commit_def sbind_eq_Inr split: if_splits dest: votes_of_commit_all)

lemma votes_of_update_hqc: "update_hqc h q c = Inr (c', ev) \<Longrightarrow> votes_of ev = []"
  by (auto simp: update_hqc_def sbind_eq_Inr split: option.splits if_splits)

text \<open>Methods that raise no vote.\<close>

definition quiet :: "core_error + ('pk core \<times> event list) \<Rightarrow> bool" where
  "quiet m = (\<forall>c ev. m = Inr (c, ev) \<longrightarrow> votes_of ev = [])"

lemma quiet_intros:
  "(\<And>x. m = Inr x \<Longrightarrow> quiet (f x)) \<Longrightarrow> quiet (sbind m f)"
  "(P \<Longrightarrow> quiet x) \<Longrightarrow> (\<not> P \<Longrightarrow> quiet y) \<Longrightarrow> quiet (if P then x else y)"
  "(z = None \<Longrightarrow> quiet x) \<Longrightarrow> (\<And>v. z = Some v \<Longrightarrow> quiet (ys v)) \<Longrightarrow> quiet (case z of None \<Rightarrow> x | Some v \<Rightarrow> ys v)"
  "(\<And>a b. w = (a, b) \<Longrightarrow> quiet (k a b)) \<Longrightarrow> quiet (case w of (a, b) \<Rightarrow> k a b)"
  "(\<And>v. quiet (l v)) \<Longrightarrow> quiet (Let u l)"
  by (auto simp: quiet_def sbind_eq_Inr Let_def split: option.splits prod.splits)

lemma votes_of_update: "update n c = Inr (c', ev) \<Longrightarrow> votes_of ev = []"
proof -
  have "quiet (update n c)"
    unfolding update_def
    by (intro quiet_intros) (auto simp: quiet_def dest: votes_of_update_hqc votes_of_commit)
  then show "update n c = Inr (c', ev) \<Longrightarrow> votes_of ev = []" by (simp add: quiet_def)
qed

lemma votes_of_qc_finish: "on_qc_finish h c = (c', ev) \<Longrightarrow> votes_of ev = []"
  by (auto simp: on_qc_finish_def split: if_splits)

lemma vote_opinion_ok:
  assumes inv: "core_inv g T C V c" and h: "is_del (cache c) h" and b: "cache c h = Some b"
  shows "\<exists>opinion. vote_opinion b h c = Inr opinion \<and>
    (opinion \<longrightarrow> vheight c < height b \<and> (\<exists>L. C L \<and> anc T L h \<and> ht T (b_lock c) \<le> ht T L))"
proof (cases "vheight c < height b")
  case True
  note ci = core_inv_cache [OF inv]
  have "is_del (cache c) (b_lock c)" using inv by (simp add: core_inv_def)
  then obtain lk where lk: "cache c (b_lock c) = Some lk" "ht T (b_lock c) = unat (height lk)"
    by (rule cache_inv_del [OF ci]) blast
  have b': "qc_ref b = Some (qcr T h)" "ht T h = unat (height b)"
    using cache_inv_blk [OF ci b] h b by (auto simp: blk_ok_def is_del_def)
  note q = qcr_del [OF ci h]
  obtain rb where rb: "cache c (qcr T h) = Some rb" "ht T (qcr T h) = unat (height rb)"
    by (rule cache_inv_del [OF ci conjunct1 [OF q]]) blast
  show ?thesis
  proof (cases "height lk < height rb")
    case live: True
    then have "ht T (b_lock c) \<le> ht T (qcr T h)" by (simp add: lk rb word_less_nat_alt)
    moreover have "C (qcr T h)" using inv h by (simp add: core_inv_def)
    moreover have "vote_opinion b h c = Inr True" using True live lk rb b' by (simp add: vote_opinion_def)
    ultimately show ?thesis using q True by auto
  next
    case False
    have "ht T h < walk_fuel b" by (simp add: walk_fuel_def b')
    from walk_down_ok [OF ci h this, of "height lk"] obtain e w where
      w: "walk_down (cache c) (height lk) (walk_fuel b) h = Inr (e, w)" "anc T e h" by blast
    then have "vote_opinion b h c = Inr (e = b_lock c)"
      using True False lk rb b' by (simp add: vote_opinion_def)
    moreover have "C (b_lock c)" using inv by (simp add: core_inv_def)
    ultimately show ?thesis using True w by auto
  qed
qed (auto simp: vote_opinion_def)

text \<open>The effect of a proposal: no exception, and a vote only under the voting rule.\<close>

definition safe_vote :: "hash tree \<Rightarrow> (hash \<Rightarrow> bool) \<Rightarrow> 'pk core \<Rightarrow> 'pk core \<Rightarrow> hash \<Rightarrow> bool" where
  "safe_vote T C c c' h = (unat (vheight c) < ht T h \<and> unat (vheight c') = ht T h \<and>
     ht T (qcr T (qcr T h)) \<le> ht T (b_lock c') \<and>
     (\<exists>L. C L \<and> anc T L h \<and> ht T (b_lock c) \<le> ht T L))"

lemma frame_del: "frame c c' \<Longrightarrow> is_del (cache c') h = is_del (cache c) h"
proof -
  assume f: "frame c c'"
  have "map_option delivered (cache c' h) = map_option delivered (cache c h)"
  proof -
    have "map_option delivered (map_option (decision_update (\<lambda>_. 0)) (cache c' h)) =
      map_option delivered (map_option (decision_update (\<lambda>_. 0)) (cache c h))"
      using f by (simp only: frame_def)
    then show ?thesis by (simp add: option.map_comp o_def)
  qed
  then show ?thesis by (cases "cache c h"; cases "cache c' h") (auto simp: is_del_def)
qed

lemma receive_proposal_ok:
  assumes inv: "core_inv g T C V c" and n: "is_del (cache c) (prop_blk prop)"
    and chain: "\<And>a b. comm T C a \<Longrightarrow> comm T C b \<Longrightarrow> anc T a b \<or> anc T b a"
  shows "\<exists>c' ev. on_receive_proposal prop c = Inr (c', ev) \<and> core_inv g T C V c' \<and>
    config c' = config c \<and> core_id c' = core_id c \<and> (\<forall>h. is_del (cache c') h = is_del (cache c) h) \<and>
    ht T (b_lock c) \<le> ht T (b_lock c') \<and> vheight c \<le> vheight c' \<and>
    (votes_of ev = [] \<or> votes_of ev = [make_vote c' (prop_blk prop)] \<and> safe_vote T C c c' (prop_blk prop))"
proof -
  let ?n = "prop_blk prop"
  from update_ok [OF inv n chain] obtain c1 ev1 where u: "update ?n c = Inr (c1, ev1)" "core_inv g T C V c1"
    "frame c c1" "ht T (b_lock c) \<le> ht T (b_lock c1)" "ht T (qcr T (qcr T ?n)) \<le> ht T (b_lock c1)" by blast
  note ci = core_inv_cache [OF u(2)]
  obtain b where b: "cache c ?n = Some b" "delivered b" using n by (auto simp: is_del_def)
  have n1: "is_del (cache c1) ?n" using n frame_del [OF u(3)] by simp
  obtain b1 where b1: "cache c1 ?n = Some b1" "ht T ?n = unat (height b1)" "qc_ref b1 = Some (qcr T ?n)"
    by (rule cache_inv_del [OF ci n1]) blast
  from vote_opinion_ok [OF u(2) n1 b1(1)] obtain op where op: "vote_opinion b1 ?n c1 = Inr op"
    "op \<longrightarrow> vheight c1 < height b1 \<and> (\<exists>L. C L \<and> anc T L ?n \<and> ht T (b_lock c1) \<le> ht T L)" by blast
  define c2 where "c2 = (if op then c1\<lparr>vheight := height b1\<rparr> else c1)"
  obtain c3 ev3 where f: "on_qc_finish (qcr T ?n) c2 = (c3, ev3)" by fastforce
  have run: "on_receive_proposal prop c = Inr (c3, ev1 @ ev3 @ [ReceivedProposal prop] @
      (if op \<and> \<not> vote_disabled c3 then [DoVote (proposer prop) (make_vote c3 ?n)] else []))"
    using b u(1) b1 op(1) f by (simp add: on_receive_proposal_def c2_def [symmetric] Let_def)
  have inv2: "core_inv g T C V c2" using u(2) by (simp add: c2_def)
  note fin = on_qc_finish_inv [OF f, of g T C V]
  have votes: "votes_of ev1 = []" "votes_of ev3 = []"
    using votes_of_update [OF u(1)] votes_of_qc_finish [OF f] by auto
  have vh: "vheight c1 = vheight c" using u(3) by (simp add: frame_def)
  have vh3: "vheight c3 = (if op then height b1 else vheight c)"
    using fin vh by (auto simp: frame_def c2_def)
  have lock3: "b_lock c3 = b_lock c1" using fin by (simp add: c2_def)
  have "safe_vote T C c c3 ?n" if op
  proof -
    from that op(2) obtain L where "C L" "anc T L ?n" "ht T (b_lock c1) \<le> ht T L" "vheight c1 < height b1"
      by blast
    then show ?thesis
      using u(4,5) b1(2) vh vh3 lock3 that by (auto simp: safe_vote_def word_less_nat_alt)
  qed
  moreover have "core_inv g T C V c3" using fin inv2 by simp
  moreover have "is_del (cache c3) h = is_del (cache c) h" for h
    using frame_del [OF u(3)] fin by (simp add: c2_def)
  moreover have "vheight c \<le> vheight c3" using vh3 op(2) vh by auto
  ultimately show ?thesis
    using run votes u fin lock3 by (auto simp: frame_def c2_def)
qed

section \<open>Proposals made\<close>

lemma block_make_Inr:
  "block_make sha ps cs q ex n r = Inr b \<Longrightarrow> parent_hashes b = ps \<and> qc b = Some q \<and> \<not> delivered b \<and>
     decision b = 0 \<and> voted b = {} \<and> self_qc b = None"
  by (auto simp: block_make_def Let_def sbind_eq_Inr block_new_def)

text \<open>The state in which \<open>on_propose\<close> delivers its new block.\<close>

definition propose_start :: "hash list \<Rightarrow> block \<Rightarrow> block \<Rightarrow> 'pk core \<Rightarrow> 'pk core" where
  "propose_start ps blk b c = set_blk (blk_hash blk)
     (b\<lparr>self_qc := Some (create_quorum_cert (config c) (blk_hash blk))\<rparr>)
     (c\<lparr>tails := tails c - set ps, storage := snd (add_blk blk (storage c))\<rparr>)"

lemma add_blk_eq: "(case add_blk b st of (h, st) \<Rightarrow> f h st) = f (blk_hash b) (snd (add_blk b st))"
  by (simp add: add_blk_def)

text \<open>What \<open>on_propose\<close> does with the delivered block: update, self-vote, broadcast.\<close>

definition propose_finish :: "hash \<Rightarrow> 'pk core \<Rightarrow> core_error + (hash \<times> 'pk core \<times> event list)" where
  "propose_finish h c =
     sbind (update h c) (\<lambda>(c, ev1).
     sbind (get_blk c h) (\<lambda>b.
     if height b \<le> vheight c then Inl NotAboveVheight else
     sbind (on_receive_vote (make_vote (c\<lparr>vheight := height b\<rparr>) h) (c\<lparr>vheight := height b\<rparr>)) (\<lambda>(c', ev2).
     Inr (h, c', ev1 @ ev2 @ [Proposed \<lparr>proposer = core_id c, prop_blk = h\<rparr>,
        DoBroadcastProposal \<lparr>proposer = core_id c, prop_blk = h\<rparr>]))))"

lemma propose_finish_Inr:
  assumes "propose_finish h c = Inr (bnew, c', ev)"
  obtains c3 ev1 b3 ev2 where "bnew = h" "update h c = Inr (c3, ev1)" "cache c3 h = Some b3" "vheight c3 < height b3"
    "on_receive_vote (make_vote (c3\<lparr>vheight := height b3\<rparr>) h) (c3\<lparr>vheight := height b3\<rparr>) = Inr (c', ev2)"
  using assms by (auto simp: propose_finish_def sbind_eq_Inr get_blk_Inr not_le split: if_splits)

lemma on_propose_Inr:
  assumes "on_propose sha cs ps ex c = Inr (bnew, c', ev)"
  obtains p ps' hh hq n blk b v c2 where "ps = p # ps'" "hqc c = Some (hh, hq)"
    "block_make sha ps cs hq ex n (Some hh) = Inr blk"
    "cache (c\<lparr>storage := snd (add_blk blk (storage c))\<rparr>) (blk_hash blk) = Some b"
    "on_deliver_blk (blk_hash blk) (propose_start ps blk b c) = Inr (v, c2)"
    "propose_finish (blk_hash blk) c2 = Inr (bnew, c', ev)"
proof -
  obtain p ps' hh hq where ps: "ps = p # ps'" and hqc: "hqc c = Some (hh, hq)"
    using assms by (auto simp: on_propose_def Let_def sbind_eq_Inr split: list.splits option.splits)
  obtain pb blk where pb: "cache c p = Some pb" and blk: "block_make sha ps cs hq ex (height pb + 1) (Some hh) = Inr blk"
    using assms by (auto simp: on_propose_def ps hqc sbind_eq_Inr Let_def get_blk_Inr)
  have rest: "sbind (get_blk (c\<lparr>tails := tails c - set ps, storage := snd (add_blk blk (storage c))\<rparr>) (blk_hash blk)) (\<lambda>b.
      sbind (on_deliver_blk (blk_hash blk) (propose_start ps blk b c)) (\<lambda>(_, c).
      propose_finish (blk_hash blk) c)) = Inr (bnew, c', ev)"
    using assms pb blk
    by (simp add: on_propose_def ps hqc Let_def add_blk_eq propose_start_def propose_finish_def cong: if_cong)
  from rest obtain b v c2 where "cache (c\<lparr>storage := snd (add_blk blk (storage c))\<rparr>) (blk_hash blk) = Some b"
    "on_deliver_blk (blk_hash blk) (propose_start ps blk b c) = Inr (v, c2)"
    "propose_finish (blk_hash blk) c2 = Inr (bnew, c', ev)"
    by (auto simp: sbind_eq_Inr get_blk_Inr)
  then show thesis by (rule that [OF ps hqc blk])
qed

lemma deliver_reset:
  assumes "on_deliver_blk h (set_blk h (b\<lparr>parents := x, height := y, qc_ref := z\<rparr>) c) = Inr (v, c')"
    and b: "\<not> delivered b" "qc b = Some q"
  shows "on_deliver_blk h (set_blk h b c) = Inr (v, c')"
proof -
  let ?c = "set_blk h (b\<lparr>parents := x, height := y, qc_ref := z\<rparr>) c" and ?d = "set_blk h b c"
  have del: "is_del (cache ?d) k = is_del (cache ?c) k" for k using b(1) by (auto simp: is_del_def)
  obtain p ps pb where r: "parent_hashes b = p # ps" "\<forall>k\<in>set (p # ps). is_del (cache ?c) k" "cache ?c p = Some pb"
    "qc_get_obj_hash q \<in> dom (cache ?c)" v
    "c' = (set_blk h (b\<lparr>parents := p # ps, height := height pb + 1, qc_ref := Some (qc_get_obj_hash q), delivered := True\<rparr>) ?c)
           \<lparr>tails := insert h (tails ?c - set (p # ps))\<rparr>"
    using on_deliver_blk_Inr [OF assms(1), of "b\<lparr>parents := x, height := y, qc_ref := z\<rparr>" q] b by auto
  have "p \<noteq> h" using r(2) b(1) by (auto simp: is_del_def)
  then have pb: "get_blk ?d p = Inr pb" using r(3) by (simp add: get_blk_Inr)
  have ps: "get_delivered_blks ?d (p # ps) = Inr (p # ps)"
    using r(2) del by (simp only: get_delivered_blks_Inr simp_thms ball_simps)
  have find: "find_blk (storage ?d) (qc_get_obj_hash q) = Some (qc_get_obj_hash q)"
    using r(4) by (auto simp: find_blk_def)
  have h: "get_blk ?d h = Inr b" by (simp add: get_blk_Inr)
  show ?thesis
    unfolding on_deliver_blk_def h sbind_simps using b r(1) ps pb find r(5,6)
    by (simp add: first_parent_def set_blk_def)
qed

text \<open>Up to its delivery, a proposal is a block fetched from the wire and delivered.\<close>

lemma propose_deliver:
  assumes inv: "core_inv g T C V c" and blk: "block_make sha ps cs hq ex n (Some hh) = Inr blk"
    and b: "cache (c\<lparr>storage := snd (add_blk blk (storage c))\<rparr>) (blk_hash blk) = Some b"
    and run: "on_deliver_blk (blk_hash blk) (propose_start ps blk b c) = Inr (v, c2)"
    and hqc: "hqc c = Some (hh, hq)" and content: "block_content_ok T blk"
    and same: "\<And>b'. cache c (blk_hash blk) = Some b' \<Longrightarrow> parent_hashes b' = parent_hashes blk \<and> qc b' = qc blk"
  shows "tree_ok g (deliver_tree blk T) \<and> T \<subseteq>\<^sub>m deliver_tree blk T \<and> core_inv g (deliver_tree blk T) C V c2 \<and>
    is_del (cache c2) (blk_hash blk)"
proof -
  let ?h = "blk_hash blk" and ?T = "deliver_tree blk T"
  let ?s = "create_quorum_cert (config c) ?h"
  let ?c = "c\<lparr>tails := tails c - set ps\<rparr>"
  note mk = block_make_Inr [OF blk]
  have inv0: "core_inv g T C V ?c" using inv by simp
  have hq: "qc_get_obj_hash hq = hh" "C hh" using inv hqc by (auto simp: core_inv_def hqc_ok_def)
  have eqT: "deliver_tree b' T = ?T" and okT: "block_content_ok T b'"
    if "blk_hash b' = ?h" "parent_hashes b' = parent_hashes blk" "qc b' = qc blk" for b'
    using that content unfolding deliver_tree_def block_content_ok_def by (simp_all only:)
  show ?thesis
  proof (cases "?h \<in> dom (cache c)")
    case True
    then have cb: "cache c ?h = Some b" and start: "propose_start ps blk b c = set_blk ?h (b\<lparr>self_qc := Some ?s\<rparr>) ?c"
      using b by (auto simp: add_blk_def propose_start_def)
    let ?b = "b\<lparr>self_qc := Some ?s\<rparr>"
    have bok: "blk_ok g T (cache c) ?h b" by (rule cache_inv_blk [OF core_inv_cache [OF inv] cb])
    have voted: "?h \<noteq> g \<Longrightarrow> voted b \<subseteq> V ?h" using inv cb by (simp add: core_inv_def)
    have inv1: "core_inv g T C V (set_blk ?h ?b ?c)"
      by (rule core_inv_set_blk [OF inv0])
        (use cb bok voted in \<open>auto simp: is_del_def dec_def fun_eq_iff blk_ok_def\<close>)
    have content': "blk_hash ?b = ?h" "parent_hashes ?b = parent_hashes blk" "qc ?b = qc blk"
      using same [OF cb] bok by (auto simp: blk_ok_def)
    show ?thesis
    proof (cases "delivered b")
      case del: True
      then have "c2 = set_blk ?h ?b ?c" using run by (simp add: start on_deliver_blk_def)
      moreover have "?h \<in> dom T" using bok del by (simp add: blk_ok_def)
      then have "?T = T" by (simp add: deliver_tree_def split: list.splits option.splits)
      ultimately show ?thesis
        using inv1 core_inv_tree [OF inv] del by (simp add: is_del_def)
    next
      case False
      from deliver_inv [OF inv1 run [unfolded start], of ?b] show ?thesis
        using False hq mk okT [OF content'] content'(3) by (simp add: eqT [OF content'])
    qed
  next
    case False
    let ?w = "blk\<lparr>parents := [], height := 0, qc_ref := None, self_qc := Some ?s\<rparr>"
    have "b = blk" and start: "propose_start ps blk b c =
        set_blk ?h (?w\<lparr>parents := parents blk, height := height blk, qc_ref := qc_ref blk\<rparr>) ?c"
      using b False by (auto simp: add_blk_def propose_start_def set_blk_def)
    have add: "?c\<lparr>storage := snd (add_blk ?w (storage ?c))\<rparr> = set_blk ?h ?w ?c"
      using False by (simp add: add_blk_def set_blk_def)
    have "wire_block ?w" using mk by (simp add: wire_block_def)
    from fetch_inv [OF inv0 this] have inv1: "core_inv g T C V (set_blk ?h ?w ?c)" by (simp only: add)
    have run': "on_deliver_blk ?h (set_blk ?h ?w ?c) = Inr (v, c2)"
      by (rule deliver_reset [OF run [unfolded start]]) (use mk in auto)
    have content': "blk_hash ?w = ?h" "parent_hashes ?w = parent_hashes blk" "qc ?w = qc blk" by simp_all
    from deliver_inv [OF inv1 run', of ?w] show ?thesis
      using hq mk okT [OF content'] by (simp add: eqT [OF content'])
  qed
qed

lemma update_lock_frame: "frame c c' \<Longrightarrow> config c' = config c \<and> core_id c' = core_id c \<and> vheight c' = vheight c"
  by (simp add: frame_def)

lemma propose_finish_inv:
  assumes inv: "core_inv g T C V c" and h: "is_del (cache c) h" and run: "propose_finish h c = Inr (bnew, c', ev)"
    and chain: "\<And>a b. comm T C a \<Longrightarrow> comm T C b \<Longrightarrow> anc T a b \<or> anc T b a"
    and lock: "ht T (b_lock c) \<le> ht T (qcr T h)"
    and C': "\<And>h. C h \<Longrightarrow> C' h" and V': "\<And>h. V h \<subseteq> V' h" and self: "core_id c \<in> V' h"
    and quorum: "\<And>h X. X \<subseteq> V' h \<Longrightarrow> unat (nmajority (config c)) \<le> card X \<Longrightarrow> C' h" and Cg: "C' g"
  shows "bnew = h \<and> core_inv g T C' V' c' \<and> config c' = config c \<and> core_id c' = core_id c \<and>
    (\<forall>h. is_del (cache c') h = is_del (cache c) h) \<and> ht T (b_lock c) \<le> ht T (b_lock c') \<and> safe_vote T C c c' h"
proof -
  from propose_finish_Inr [OF run] obtain c3 ev1 b3 ev2 where r: "bnew = h" "update h c = Inr (c3, ev1)"
    "cache c3 h = Some b3" "vheight c3 < height b3"
    "on_receive_vote (make_vote (c3\<lparr>vheight := height b3\<rparr>) h) (c3\<lparr>vheight := height b3\<rparr>) = Inr (c', ev2)" by blast
  from update_ok [OF inv h chain] r(2) have u: "core_inv g T C V c3" "frame c c3" "ht T (b_lock c) \<le> ht T (b_lock c3)"
    "ht T (qcr T (qcr T h)) \<le> ht T (b_lock c3)" by auto
  note fr = update_lock_frame [OF u(2)]
  let ?c = "c3\<lparr>vheight := height b3\<rparr>"
  have "core_inv g T C' V' ?c"
    using core_inv_mono [OF u(1) map_le_refl core_inv_tree [OF inv] C' V'] by simp
  from receive_vote_inv [OF this r(5) _ _ Cg] have v: "core_inv g T C' V' c' \<and> same_votes ?c c'"
    using self quorum fr by (auto simp: make_vote_def)
  have h3: "is_del (cache c3) h" using h frame_del [OF u(2)] by simp
  have ht3: "ht T h = unat (height b3)"
    using cache_inv_blk [OF core_inv_cache [OF u(1)] r(3)] h3 r(3) by (auto simp: blk_ok_def is_del_def)
  have "C (qcr T h)" "anc T (qcr T h) h" using inv h qcr_del [OF core_inv_cache [OF inv] h] by (auto simp: core_inv_def)
  then have "safe_vote T C c c' h"
    using v u(4) ht3 r(4) fr lock by (auto simp: safe_vote_def same_votes_def word_less_nat_alt)
  then show ?thesis
    using v u(3) fr frame_del [OF u(2)] r(1) by (auto simp: same_votes_def)
qed

section \<open>Blocks not delivered yet\<close>

text \<open>A method never changes the content of a block that stays undelivered.\<close>

definition und_sub :: "'pk core \<Rightarrow> 'pk core \<Rightarrow> bool" where
  "und_sub c c' = (\<forall>h b'. cache c' h = Some b' \<longrightarrow> \<not> delivered b' \<longrightarrow>
     (\<exists>b. cache c h = Some b \<and> \<not> delivered b \<and> qc b = qc b'))"

lemma und_sub_refl [simp]: "und_sub c c" by (auto simp: und_sub_def)

lemma und_sub_trans: "und_sub a b \<Longrightarrow> und_sub b c \<Longrightarrow> und_sub a c" by (fastforce simp: und_sub_def)

lemma und_sub_cache: "cache c' = cache c \<Longrightarrow> und_sub c c'" by (auto simp: und_sub_def)

lemma und_sub_frame:
  assumes "frame c c'" shows "und_sub c c'"
  unfolding und_sub_def
proof (intro allI impI)
  fix h b' assume b': "cache c' h = Some b'" "\<not> delivered b'"
  have "map_option (decision_update (\<lambda>_. 0)) (cache c' h) = map_option (decision_update (\<lambda>_. 0)) (cache c h)"
    using assms by (simp only: frame_def)
  then obtain b where "cache c h = Some b" "b\<lparr>decision := 0\<rparr> = b'\<lparr>decision := 0\<rparr>"
    using b'(1) by (cases "cache c h") auto
  then show "\<exists>b. cache c h = Some b \<and> \<not> delivered b \<and> qc b = qc b'"
    using b'(2) by (cases b; cases b') auto
qed

lemma und_sub_set: "cache c h = Some b \<Longrightarrow> qc b' = qc b \<Longrightarrow> delivered b' = delivered b \<Longrightarrow> und_sub c (set_blk h b' c)"
  by (auto simp: und_sub_def)

lemma update_hqc_cache: "update_hqc h q c = Inr (c', ev) \<Longrightarrow> cache c' = cache c"
  by (auto simp: update_hqc_def sbind_eq_Inr split: option.splits if_splits)

lemma on_qc_finish_cache [simp]: "cache (fst (on_qc_finish h c)) = cache c"
  by (auto simp: on_qc_finish_def)

lemma und_sub_vote: "on_receive_vote v c = Inr (c', ev) \<Longrightarrow> und_sub c c'"
proof -
  assume run: "on_receive_vote v c = Inr (c', ev)"
  obtain b where b: "cache c (vote_hash v) = Some b"
    using run by (auto simp: on_receive_vote_def sbind_eq_Inr get_delivered_blk_Inr is_del_def)
  have "cache c' = cache c \<or> (\<exists>q. cache c' = (cache c)(vote_hash v \<mapsto>
      b\<lparr>voted := insert (voter v) (voted b), self_qc := Some q\<rparr>))"
    using run b
    by (auto simp: on_receive_vote_def sbind_eq_Inr get_delivered_blk_Inr Let_def case_prod_beta
        split: if_splits dest!: update_hqc_cache)
  then show ?thesis using b by (auto simp: und_sub_def split: if_splits)
qed

lemma und_sub_deliver: "on_deliver_blk h c = Inr (v, c') \<Longrightarrow> und_sub c c'"
  by (auto simp: on_deliver_blk_def sbind_eq_Inr get_blk_Inr und_sub_def split: if_splits option.splits)

end
