(* ===== verification/Network.thy ===== *)
theory Network
  imports Consensus_Steps
begin

text \<open>
  Replicas in a network: each correct replica runs \<open>HotStuffCore\<close> and is handed, in any
  order, blocks, proposals and votes that anybody may have made, filtered only by the
  checks that \<open>HotStuffBase\<close> makes before it calls the core (\<open>src/hotstuff.cpp\<close>). The
  network state keeps, besides the cores, the tree of delivered blocks and the log of the
  votes the correct replicas signed.
\<close>

record 'pk net =
  genesis :: hash
  members :: "rid set"
  byz :: "rid set"
  quorum :: nat
  cores :: "rid \<Rightarrow> 'pk core"
  btree :: "hash tree"
  vlog :: "(rid \<times> hash) list"

abbreviation honest :: "'pk net \<Rightarrow> rid \<Rightarrow> bool" where
  "honest s r \<equiv> r \<in> members s \<and> r \<notin> byz s"

definition net_cert :: "'pk net \<Rightarrow> hash \<Rightarrow> bool" where
  "net_cert s = cert (genesis s) (members s) (byz s) (quorum s) (vlog s)"

definition net_backers :: "'pk net \<Rightarrow> hash \<Rightarrow> rid set" where
  "net_backers s = backers (members s) (byz s) (vlog s)"

text \<open>Signatures of correct replicas cannot be made without them.\<close>

definition unforged :: "('pk \<Rightarrow> hash \<Rightarrow> signature \<Rightarrow> bool) \<Rightarrow> 'pk net \<Rightarrow> 'pk replica_config \<Rightarrow> rid \<Rightarrow> hash \<Rightarrow> signature \<Rightarrow> bool" where
  "unforged ver s cfg r h g =
     (\<forall>info. honest s r \<longrightarrow> replica_map cfg r = Some info \<longrightarrow> ver (pubkey info) h g \<longrightarrow> (r, h) \<in> set (vlog s))"

fun unforged_qc :: "('pk \<Rightarrow> hash \<Rightarrow> signature \<Rightarrow> bool) \<Rightarrow> 'pk net \<Rightarrow> 'pk replica_config \<Rightarrow> quorum_cert \<Rightarrow> bool" where
  "unforged_qc ver s cfg (QuorumCertDummy h) = True"
| "unforged_qc ver s cfg (QuorumCertSecp256k1 q) =
     (\<forall>r g. sigs q r = Some g \<longrightarrow> unforged ver s cfg r (qc_hash q) g)"

text \<open>\<open>Vote::verify\<close>.\<close>

definition vote_verify :: "('pk \<Rightarrow> hash \<Rightarrow> signature \<Rightarrow> bool) \<Rightarrow> 'pk replica_config \<Rightarrow> vote \<Rightarrow> cert_error + bool" where
  "vote_verify ver cfg v =
     sbind (get_pubkey cfg (voter v)) (\<lambda>pk.
       Inr (pc_verify ver pk (vote_cert v) \<and> pc_obj_hash (vote_cert v) = vote_hash v))"

inductive net_step ::
  "(bytes \<Rightarrow> hash) \<Rightarrow> ('pk \<Rightarrow> hash \<Rightarrow> signature \<Rightarrow> bool) \<Rightarrow> 'pk net \<Rightarrow> 'pk net \<Rightarrow> bool"
  for sha ver
where
  Fetch: "\<lbrakk>honest s r; block_unserialize sha st = Inr (b, st');
      c' = (cores s r)\<lparr>storage := snd (add_blk b (storage (cores s r)))\<rparr>\<rbrakk> \<Longrightarrow>
    net_step sha ver s (s\<lparr>cores := (cores s)(r := c')\<rparr>)"
| Deliver: "\<lbrakk>honest s r; cache (cores s r) h = Some b; \<not> delivered b;
      block_verify ver (b0 (cores s r)) (config (cores s r)) b = Inr True;
      \<And>q. qc b = Some q \<Longrightarrow> unforged_qc ver s (config (cores s r)) q;
      block_content_ok (btree s) b; on_deliver_blk h (cores s r) = Inr (v, c')\<rbrakk> \<Longrightarrow>
    net_step sha ver s (s\<lparr>cores := (cores s)(r := c'), btree := deliver_tree b (btree s)\<rparr>)"
| ReceiveProposal: "\<lbrakk>honest s r; on_receive_proposal prop (cores s r) = Inr (c', ev)\<rbrakk> \<Longrightarrow>
    net_step sha ver s (s\<lparr>cores := (cores s)(r := c'),
      vlog := vlog s @ map (\<lambda>v. (r, vote_hash v)) (votes_of ev)\<rparr>)"
| ReceiveVote: "\<lbrakk>honest s r; vote_verify ver (config (cores s r)) v = Inr True;
      unforged ver s (config (cores s r)) (voter v) (vote_hash v) (pc_sig (vote_cert v));
      on_receive_vote v (cores s r) = Inr (c', ev)\<rbrakk> \<Longrightarrow>
    net_step sha ver s (s\<lparr>cores := (cores s)(r := c')\<rparr>)"
| Propose: "\<lbrakk>honest s r; on_propose sha cs ps ex (cores s r) = Inr (bnew, c', ev);
      \<And>hh hq n blk. hqc (cores s r) = Some (hh, hq) \<Longrightarrow> block_make sha ps cs hq ex n (Some hh) = Inr blk \<Longrightarrow>
        block_content_ok (btree s) blk \<and> T' = deliver_tree blk (btree s) \<and>
        (\<forall>b. cache (cores s r) (blk_hash blk) = Some b \<longrightarrow> parent_hashes b = ps \<and> qc b = Some hq)\<rbrakk> \<Longrightarrow>
    net_step sha ver s (s\<lparr>cores := (cores s)(r := c'), btree := T', vlog := vlog s @ [(r, bnew)]\<rparr>)"

section \<open>The invariant\<close>

text \<open>Certificates that come off the wire.\<close>

definition wire_qc :: "block \<Rightarrow> bool" where
  "wire_qc b = (\<exists>q. qc b = Some (QuorumCertSecp256k1 q) \<and>
     dom (sigs q) = word_of_nat ` set (filter (qc_signed (rids q)) [0..<unat (nbits (rids q))]))"

definition wire_inv :: "'pk core \<Rightarrow> bool" where
  "wire_inv c = (\<forall>h b. cache c h = Some b \<longrightarrow> \<not> delivered b \<longrightarrow> wire_qc b)"

lemma wire_inv_sub: "wire_inv c \<Longrightarrow> und_sub c c' \<Longrightarrow> wire_inv c'"
  unfolding wire_inv_def und_sub_def wire_qc_def by metis

lemma unserialize_wire_qc: "block_unserialize sha s = Inr (b, s') \<Longrightarrow> wire_qc b"
  using parse_quorum_cert_dom
  by (fastforce simp: block_unserialize_def sbind_eq_Inr wire_qc_def block_new_def Let_def split: prod.splits)

definition replica_ok :: "'pk net \<Rightarrow> rid \<Rightarrow> bool" where
  "replica_ok s r = (core_inv (genesis s) (btree s) (net_cert s) (net_backers s) (cores s r) \<and>
     core_id (cores s r) = r \<and> unat (nmajority (config (cores s r))) = quorum s \<and>
     dom (replica_map (config (cores s r))) \<subseteq> members s \<and> wire_inv (cores s r))"

text \<open>The past votes of a replica are below its voting height and its lock.\<close>

definition vote_ok :: "'pk net \<Rightarrow> rid \<Rightarrow> hash \<Rightarrow> bool" where
  "vote_ok s r h = (honest s r \<and> is_del (cache (cores s r)) h \<and> ht (btree s) h \<le> unat (vheight (cores s r)) \<and>
     ht (btree s) (qcr (btree s) (qcr (btree s) h)) \<le> ht (btree s) (b_lock (cores s r)))"

definition log_ok :: "'pk net \<Rightarrow> bool" where
  "log_ok s = (\<forall>j k r v w. j < k \<longrightarrow> k < length (vlog s) \<longrightarrow> vlog s ! j = (r, v) \<longrightarrow> vlog s ! k = (r, w) \<longrightarrow>
     ht (btree s) v < ht (btree s) w \<and>
     (\<exists>L. cert (genesis s) (members s) (byz s) (quorum s) (take k (vlog s)) L \<and> anc (btree s) L w \<and>
       ht (btree s) (qcr (btree s) (qcr (btree s) v)) \<le> ht (btree s) L))"

definition net_inv :: "'pk net \<Rightarrow> bool" where
  "net_inv s = (byz s \<subseteq> members s \<and> card (byz s) + card (members s) < 2 * quorum s \<and>
     tree_ok (genesis s) (btree s) \<and> (\<forall>r. honest s r \<longrightarrow> replica_ok s r) \<and>
     (\<forall>(r, h)\<in>set (vlog s). vote_ok s r h) \<and> log_ok s)"

lemma net_inv_vote: "net_inv s \<Longrightarrow> (r, h) \<in> set (vlog s) \<Longrightarrow> vote_ok s r h"
  by (auto simp: net_inv_def)

lemma net_inv_replica: "net_inv s \<Longrightarrow> honest s r \<Longrightarrow> replica_ok s r"
  by (simp add: net_inv_def)

lemma net_inv_core:
  "net_inv s \<Longrightarrow> honest s r \<Longrightarrow> core_inv (genesis s) (btree s) (net_cert s) (net_backers s) (cores s r)"
  using net_inv_replica [of s r] by (simp add: replica_ok_def)

lemma lock_known: "net_inv s \<Longrightarrow> honest s r \<Longrightarrow> b_lock (cores s r) \<in> dom (btree s)"
  using net_inv_core [of s r] del_dom [of "genesis s" "btree s" "cache (cores s r)" "b_lock (cores s r)"]
  by (simp add: core_inv_def)

lemma vote_known: "net_inv s \<Longrightarrow> (r, h) \<in> set (vlog s) \<Longrightarrow> h \<in> dom (btree s)"
  using net_inv_vote [of s r h] del_dom [OF core_inv_cache [OF net_inv_core], of s r h] by (auto simp: vote_ok_def)

interpretation netlog: vote_log net_inv genesis members byz quorum btree vlog
proof unfold_locales
  fix s :: "'pk net" assume inv: "net_inv s"
  show "finite (members s) \<and> byz s \<subseteq> members s \<and> card (byz s) + card (members s) < 2 * quorum s"
    using inv by (simp add: net_inv_def)
  show "tree_ok (genesis s) (btree s)" using inv by (simp add: net_inv_def)
  fix r h assume "(r, h) \<in> set (vlog s)"
  then show "h \<in> dom (btree s)" by (rule vote_known [OF inv])
next
  fix s :: "'pk net" and j k r v w
  assume "net_inv s" "j < k" "k < length (vlog s)" "vlog s ! j = (r, v)" "vlog s ! k = (r, w)"
  then have *: "ht (btree s) v < ht (btree s) w \<and>
     (\<exists>L. cert (genesis s) (members s) (byz s) (quorum s) (take k (vlog s)) L \<and> anc (btree s) L w \<and>
       ht (btree s) (qcr (btree s) (qcr (btree s) v)) \<le> ht (btree s) L)"
    by (auto simp: net_inv_def log_ok_def)
  show "ht (btree s) v < ht (btree s) w" using * ..
  show "\<exists>L. cert (genesis s) (members s) (byz s) (quorum s) (take k (vlog s)) L \<and> anc (btree s) L w \<and>
       ht (btree s) (qcr (btree s) (qcr (btree s) v)) \<le> ht (btree s) L" using * ..
qed

lemma comm_committed:
  "comm (btree s) (net_cert s) b = committed (genesis s) (members s) (byz s) (quorum s) (btree s) (vlog s) b"
  by (simp add: comm_def committed_def net_cert_def)

lemma net_chain:
  "net_inv s \<Longrightarrow> comm (btree s) (net_cert s) a \<Longrightarrow> comm (btree s) (net_cert s) b \<Longrightarrow>
   anc (btree s) a b \<or> anc (btree s) b a"
  unfolding comm_committed by (rule netlog.committed_chain)

section \<open>One replica moves\<close>

definition advance :: "'pk net \<Rightarrow> rid \<Rightarrow> 'pk core \<Rightarrow> hash tree \<Rightarrow> (rid \<times> hash) list \<Rightarrow> 'pk net" where
  "advance s r c' T' l = s\<lparr>cores := (cores s)(r := c'), btree := T', vlog := vlog s @ l\<rparr>"

lemma advance_simps [simp]:
  "genesis (advance s r c' T' l) = genesis s" "members (advance s r c' T' l) = members s"
  "byz (advance s r c' T' l) = byz s" "quorum (advance s r c' T' l) = quorum s"
  "cores (advance s r c' T' l) = (cores s)(r := c')" "btree (advance s r c' T' l) = T'"
  "vlog (advance s r c' T' l) = vlog s @ l"
  by (simp_all add: advance_def)

lemma net_cert_advance: "net_cert s h \<Longrightarrow> net_cert (advance s r c' T' l) h"
  unfolding net_cert_def by (rule cert_mono [rotated 2]) auto

lemma net_backers_advance: "net_backers s h \<subseteq> net_backers (advance s r c' T' l) h"
  unfolding net_backers_def by (simp add: backers_mono)

text \<open>What the move of a replica has to guarantee.\<close>

definition good_move :: "'pk net \<Rightarrow> rid \<Rightarrow> 'pk core \<Rightarrow> hash tree \<Rightarrow> (rid \<times> hash) list \<Rightarrow> bool" where
  "good_move s r c' T' l = (tree_ok (genesis s) T' \<and> btree s \<subseteq>\<^sub>m T' \<and>
     core_inv (genesis s) T' (net_cert (advance s r c' T' l)) (net_backers (advance s r c' T' l)) c' \<and>
     config c' = config (cores s r) \<and> core_id c' = core_id (cores s r) \<and> wire_inv c' \<and>
     (\<forall>h. is_del (cache (cores s r)) h \<longrightarrow> is_del (cache c') h) \<and>
     ht T' (b_lock (cores s r)) \<le> ht T' (b_lock c') \<and> vheight (cores s r) \<le> vheight c' \<and>
     (l = [] \<or> (\<exists>h. l = [(r, h)] \<and> is_del (cache c') h \<and> safe_vote T' (net_cert s) (cores s r) c' h)))"

lemma qcr_qcr_dom:
  assumes "cache_inv g T m" "is_del m h"
  shows "h \<in> dom T \<and> qcr T h \<in> dom T \<and> qcr T (qcr T h) \<in> dom T"
proof -
  have "is_del m (qcr T h)" using qcr_del [OF assms] by simp
  moreover have "is_del m (qcr T (qcr T h))" using qcr_del [OF assms(1) calculation] by simp
  ultimately show ?thesis using del_dom [OF assms(1)] assms(2) by blast
qed

lemma advance_vote_old:
  assumes inv: "net_inv s" and r: "honest s r" and good: "good_move s r c' T' l" and v: "vote_ok s x h"
  shows "vote_ok (advance s r c' T' l) x h \<and> ht T' h = ht (btree s) h \<and>
    ht T' (qcr T' (qcr T' h)) = ht (btree s) (qcr (btree s) (qcr (btree s) h))"
proof -
  let ?T = "btree s"
  have x: "honest s x" "is_del (cache (cores s x)) h" using v by (auto simp: vote_ok_def)
  note ci = core_inv_cache [OF net_inv_core [OF inv x(1)]]
  note d = qcr_qcr_dom [OF ci x(2)]
  have sub: "?T \<subseteq>\<^sub>m T'" using good by (simp add: good_move_def)
  have eq: "ht T' h = ht ?T h" "ht T' (qcr T' (qcr T' h)) = ht ?T (qcr ?T (qcr ?T h))"
    using d ht_mono [OF sub] qcr_mono [OF sub] by auto
  have lk: "ht T' (b_lock (cores s x)) = ht ?T (b_lock (cores s x))"
    by (rule ht_mono [OF sub lock_known [OF inv x(1)]])
  show ?thesis
  proof (cases "x = r")
    case True
    then show ?thesis using v eq lk good by (auto simp: vote_ok_def good_move_def word_le_nat_alt)
  next
    case False
    then show ?thesis using v eq lk by (simp add: vote_ok_def)
  qed
qed

lemma advance_log:
  assumes inv: "net_inv s" and r: "honest s r" and good: "good_move s r c' T' l"
  shows "log_ok (advance s r c' T' l)"
  unfolding log_ok_def
proof (intro allI impI)
  fix j k x v w
  assume jk: "j < k" "k < length (vlog (advance s r c' T' l))" and
    jv: "vlog (advance s r c' T' l) ! j = (x, v)" and kw: "vlog (advance s r c' T' l) ! k = (x, w)"
  let ?T = "btree s" and ?P = "cert (genesis s) (members s) (byz s) (quorum s)"
  have sub: "?T \<subseteq>\<^sub>m T'" using good by (simp add: good_move_def)
  have old: "vote_ok s y h \<Longrightarrow> ht T' h = ht ?T h \<and> ht T' (qcr T' (qcr T' h)) = ht ?T (qcr ?T (qcr ?T h))" for y h
    using advance_vote_old [OF inv r good] by blast
  have len: "length l \<le> 1" using good by (auto simp: good_move_def)
  have j: "j < length (vlog s)" using jk len by auto
  then have jv': "vlog s ! j = (x, v)" using jv by (simp add: nth_append)
  then have xv: "vote_ok s x v" using net_inv_vote [OF inv] j by (metis nth_mem)
  show "ht (btree (advance s r c' T' l)) v < ht (btree (advance s r c' T' l)) w \<and>
    (\<exists>L. cert (genesis (advance s r c' T' l)) (members (advance s r c' T' l)) (byz (advance s r c' T' l))
        (quorum (advance s r c' T' l)) (take k (vlog (advance s r c' T' l))) L \<and>
      anc (btree (advance s r c' T' l)) L w \<and>
      ht (btree (advance s r c' T' l)) (qcr (btree (advance s r c' T' l)) (qcr (btree (advance s r c' T' l)) v))
        \<le> ht (btree (advance s r c' T' l)) L)"
  proof (cases "k < length (vlog s)")
    case True
    then have kw': "vlog s ! k = (x, w)" using kw by (simp add: nth_append)
    then have xw: "vote_ok s x w" using net_inv_vote [OF inv] True by (metis nth_mem)
    have "log_ok s" using inv by (simp add: net_inv_def)
    then obtain L where L: "ht ?T v < ht ?T w" "?P (take k (vlog s)) L" "anc ?T L w"
      "ht ?T (qcr ?T (qcr ?T v)) \<le> ht ?T L"
      using jk(1) True jv' kw' unfolding log_ok_def by blast
    have "w \<in> dom ?T" using vote_known [OF inv] kw' True by (metis nth_mem)
    then have "L \<in> dom ?T" using anc_ht [OF _ L(3)] inv by (auto simp: net_inv_def)
    then have "ht T' L = ht ?T L" by (rule ht_mono [OF sub])
    then show ?thesis
      using L anc_mono [OF L(3) sub] old [OF xv] old [OF xw] True by auto
  next
    case False
    then have k: "k = length (vlog s)" using jk len by auto
    then obtain "l = [(x, w)]" using kw jk good by (auto simp: good_move_def nth_append)
    then have l: "x = r" "safe_vote T' (net_cert s) (cores s r) c' w"
      using good by (auto simp: good_move_def)
    obtain L where L: "net_cert s L" "anc T' L w" "ht T' (b_lock (cores s r)) \<le> ht T' L"
      "unat (vheight (cores s r)) < ht T' w"
      using l(2) by (auto simp: safe_vote_def)
    have lock: "ht T' (b_lock (cores s r)) = ht ?T (b_lock (cores s r))"
      by (rule ht_mono [OF sub lock_known [OF inv r]])
    have "ht ?T v \<le> unat (vheight (cores s r))" "ht ?T (qcr ?T (qcr ?T v)) \<le> ht ?T (b_lock (cores s r))"
      using xv l(1) by (auto simp: vote_ok_def)
    then show ?thesis
      using L lock old [OF xv] k by (auto simp: net_cert_def)
  qed
qed

lemma advance_inv:
  assumes inv: "net_inv s" and r: "honest s r" and good: "good_move s r c' T' l"
  shows "net_inv (advance s r c' T' l)"
proof -
  let ?s = "advance s r c' T' l"
  have ok': "tree_ok (genesis s) T'" and sub: "btree s \<subseteq>\<^sub>m T'" using good by (auto simp: good_move_def)
  have "replica_ok ?s x" if x: "honest s x" for x
  proof (cases "x = r")
    case True
    then show ?thesis using good net_inv_replica [OF inv r] by (simp add: replica_ok_def good_move_def)
  next
    case False
    have "core_inv (genesis s) T' (net_cert ?s) (net_backers ?s) (cores s x)"
      by (rule core_inv_mono [OF net_inv_core [OF inv x] sub ok' net_cert_advance net_backers_advance])
    then show ?thesis using False net_inv_replica [OF inv x] by (simp add: replica_ok_def)
  qed
  moreover have "vote_ok ?s x h" if "(x, h) \<in> set (vlog ?s)" for x h
  proof (cases "(x, h) \<in> set (vlog s)")
    case True
    from advance_vote_old [OF inv r good net_inv_vote [OF inv True]] show ?thesis ..
  next
    case False
    then show ?thesis using that good r by (auto simp: good_move_def safe_vote_def vote_ok_def)
  qed
  ultimately show ?thesis
    using inv ok' advance_log [OF inv r good] by (auto simp: net_inv_def)
qed

section \<open>Every step keeps the invariant\<close>

lemma advance_same: "s\<lparr>cores := (cores s)(r := c')\<rparr> = advance s r c' (btree s) []"
  "s\<lparr>cores := (cores s)(r := c'), btree := T'\<rparr> = advance s r c' T' []"
  "s\<lparr>cores := (cores s)(r := c'), vlog := vlog s @ l\<rparr> = advance s r c' (btree s) l"
  by (simp_all add: advance_def)

lemma net_backers_same [simp]: "net_backers (advance s r c' T' []) = net_backers s"
  "net_cert (advance s r c' T' []) = net_cert s"
  by (simp_all add: net_backers_def net_cert_def)

lemma backers_quorum: "X \<subseteq> net_backers s h \<Longrightarrow> quorum s \<le> card X \<Longrightarrow> net_cert s h"
proof -
  assume "X \<subseteq> net_backers s h" and le: "quorum s \<le> card X"
  then have "card X \<le> card (net_backers s h)" by (intro card_mono) simp_all
  then show ?thesis using le by (simp add: net_cert_def cert_def net_backers_def)
qed

lemma genesis_cert [simp]: "net_cert s (genesis s)"
  by (simp add: net_cert_def cert_def)

text \<open>A certificate that passed verification certifies its block.\<close>

lemma verified_cert:
  assumes rep: "replica_ok s r" and wire: "wire_qc b" and q: "qc b = Some q"
    and ver: "block_verify ver (b0 (cores s r)) (config (cores s r)) b = Inr True"
    and unf: "unforged_qc ver s (config (cores s r)) q"
  shows "net_cert s (qc_get_obj_hash q)"
proof (cases "qc_get_obj_hash q = genesis s")
  case False
  have g: "b0 (cores s r) = genesis s" using rep by (simp add: replica_ok_def core_inv_def)
  obtain x where x: "q = QuorumCertSecp256k1 x"
    "dom (sigs x) = word_of_nat ` set (filter (qc_signed (rids x)) [0..<unat (nbits (rids x))])"
    using wire q by (auto simp: wire_qc_def)
  have "qc_verify ver (config (cores s r)) q = Inr True" using ver q False g by (simp add: block_verify_def)
  from qc_verify_quorum [OF x(2) this [unfolded x(1)]]
  have le: "quorum s \<le> card (qc_valid_signers ver (config (cores s r)) x)"
    using rep by (simp add: replica_ok_def)
  have "qc_valid_signers ver (config (cores s r)) x \<subseteq> net_backers s (qc_hash x)"
    using unf x(1) rep by (auto simp: qc_valid_signers_def net_backers_def backers_def unforged_def replica_ok_def)
  from backers_quorum [OF this le] show ?thesis by (simp add: x(1))
qed simp

lemma deliver_frame:
  "on_deliver_blk h c = Inr (v, c') \<Longrightarrow> b_lock c' = b_lock c \<and> vheight c' = vheight c \<and> config c' = config c \<and>
   core_id c' = core_id c \<and> hqc c' = hqc c \<and> (\<forall>k. is_del (cache c) k \<longrightarrow> is_del (cache c') k)"
  by (auto simp: on_deliver_blk_def sbind_eq_Inr get_blk_Inr is_del_def split: if_splits option.splits)

lemma fetch_good:
  assumes inv: "net_inv s" and r: "honest s r" and b: "block_unserialize sha st = Inr (b, st')"
  shows "good_move s r ((cores s r)\<lparr>storage := snd (add_blk b (storage (cores s r)))\<rparr>) (btree s) []"
proof -
  note rep = net_inv_replica [OF inv r]
  have "wire_inv ((cores s r)\<lparr>storage := snd (add_blk b (storage (cores s r)))\<rparr>)"
    using rep unserialize_wire_qc [OF b] by (auto simp: add_blk_def wire_inv_def replica_ok_def)
  moreover have "is_del (cache ((cores s r)\<lparr>storage := snd (add_blk b (storage (cores s r)))\<rparr>)) h"
    if "is_del (cache (cores s r)) h" for h
    using that by (auto simp: add_blk_def is_del_def)
  ultimately show ?thesis
    using fetch_inv [OF net_inv_core [OF inv r] unserialize_wire [OF b]] inv
    by (auto simp: good_move_def net_inv_def)
qed

lemma deliver_good:
  assumes inv: "net_inv s" and r: "honest s r" and b: "cache (cores s r) h = Some b" "\<not> delivered b"
    and ver: "block_verify ver (b0 (cores s r)) (config (cores s r)) b = Inr True"
    and unf: "\<And>q. qc b = Some q \<Longrightarrow> unforged_qc ver s (config (cores s r)) q"
    and content: "block_content_ok (btree s) b" and run: "on_deliver_blk h (cores s r) = Inr (v, c')"
  shows "good_move s r c' (deliver_tree b (btree s)) []"
proof -
  note rep = net_inv_replica [OF inv r]
  have wire: "wire_qc b" using rep b by (auto simp: replica_ok_def wire_inv_def)
  have "tree_ok (genesis s) (deliver_tree b (btree s)) \<and> btree s \<subseteq>\<^sub>m deliver_tree b (btree s) \<and>
    core_inv (genesis s) (deliver_tree b (btree s)) (net_cert s) (net_backers s) c' \<and> is_del (cache c') h"
    by (rule deliver_inv [OF net_inv_core [OF inv r] run b content verified_cert [OF rep wire _ ver unf]])
  moreover have "wire_inv c'"
    using rep wire_inv_sub [OF _ und_sub_deliver [OF run]] by (simp add: replica_ok_def)
  ultimately show ?thesis
    using deliver_frame [OF run] by (simp add: good_move_def)
qed

lemma proposal_delivered: "on_receive_proposal prop c = Inr (c', ev) \<Longrightarrow> is_del (cache c) (prop_blk prop)"
  by (auto simp: on_receive_proposal_def Let_def sbind_eq_Inr get_blk_Inr is_del_def split: if_splits)

lemma und_sub_proposal:
  assumes run: "on_receive_proposal prop c = Inr (c', ev)" and inv: "core_inv g T C V c"
    and chain: "\<And>a b. comm T C a \<Longrightarrow> comm T C b \<Longrightarrow> anc T a b \<or> anc T b a"
  shows "und_sub c c'"
proof -
  obtain c1 ev1 where u: "update (prop_blk prop) c = Inr (c1, ev1)" "frame c c1"
    using update_ok [OF inv proposal_delivered [OF run] chain] by blast
  have "cache c' = cache c1"
    using run u(1) by (auto simp: on_receive_proposal_def Let_def sbind_eq_Inr case_prod_beta
        split: if_splits option.splits)
  then show ?thesis using und_sub_trans [OF und_sub_frame [OF u(2)] und_sub_cache] by blast
qed

lemma proposal_good:
  assumes inv: "net_inv s" and r: "honest s r" and run: "on_receive_proposal prop (cores s r) = Inr (c', ev)"
  shows "good_move s r c' (btree s) (map (\<lambda>v. (r, vote_hash v)) (votes_of ev))"
proof -
  note core = net_inv_core [OF inv r]
  let ?l = "map (\<lambda>v. (r, vote_hash v)) (votes_of ev)" let ?n = "prop_blk prop"
  have del: "is_del (cache (cores s r)) ?n" by (rule proposal_delivered [OF run])
  from receive_proposal_ok [OF core del net_chain [OF inv]] run have
    p: "core_inv (genesis s) (btree s) (net_cert s) (net_backers s) c'" "config c' = config (cores s r)"
      "core_id c' = core_id (cores s r)" "\<forall>h. is_del (cache c') h = is_del (cache (cores s r)) h"
      "ht (btree s) (b_lock (cores s r)) \<le> ht (btree s) (b_lock c')" "vheight (cores s r) \<le> vheight c'"
      "votes_of ev = [] \<or> votes_of ev = [make_vote c' ?n] \<and> safe_vote (btree s) (net_cert s) (cores s r) c' ?n"
    by auto
  have tree: "tree_ok (genesis s) (btree s)" using inv by (simp add: net_inv_def)
  have "core_inv (genesis s) (btree s) (net_cert (advance s r c' (btree s) ?l)) (net_backers (advance s r c' (btree s) ?l)) c'"
    by (rule core_inv_mono [OF p(1) map_le_refl tree net_cert_advance net_backers_advance])
  moreover have "wire_inv c'"
    using net_inv_replica [OF inv r] wire_inv_sub [OF _ und_sub_proposal [OF run core net_chain [OF inv]]]
    by (simp add: replica_ok_def)
  moreover have "?l = [] \<or> ?l = [(r, ?n)] \<and> safe_vote (btree s) (net_cert s) (cores s r) c' ?n"
    using p(7) by (auto simp: make_vote_def)
  ultimately show ?thesis using p tree del by (auto simp: good_move_def)
qed

lemma vote_good:
  assumes inv: "net_inv s" and r: "honest s r" and ver: "vote_verify ver (config (cores s r)) v = Inr True"
    and unf: "unforged ver s (config (cores s r)) (voter v) (vote_hash v) (pc_sig (vote_cert v))"
    and run: "on_receive_vote v (cores s r) = Inr (c', ev)"
  shows "good_move s r c' (btree s) []"
proof -
  note rep = net_inv_replica [OF inv r]
  obtain info where info: "replica_map (config (cores s r)) (voter v) = Some info"
    "ver (pubkey info) (vote_hash v) (pc_sig (vote_cert v))"
    using ver by (auto simp: vote_verify_def sbind_eq_Inr get_pubkey_def get_info_def pc_verify_def split: option.splits)
  have "voter v \<in> net_backers s (vote_hash v)"
    using info unf rep by (auto simp: net_backers_def backers_def unforged_def replica_ok_def)
  moreover have "X \<subseteq> net_backers s h \<Longrightarrow> unat (nmajority (config (cores s r))) \<le> card X \<Longrightarrow> net_cert s h" for h X
    using rep backers_quorum by (simp add: replica_ok_def)
  ultimately have "core_inv (genesis s) (btree s) (net_cert s) (net_backers s) c' \<and> same_votes (cores s r) c'"
    using receive_vote_inv [OF net_inv_core [OF inv r] run] by simp
  moreover have "wire_inv c'" using rep wire_inv_sub [OF _ und_sub_vote [OF run]] by (simp add: replica_ok_def)
  ultimately show ?thesis using inv by (auto simp: good_move_def same_votes_def net_inv_def)
qed

subsection \<open>Proposing\<close>

lemma propose_start_simps [simp]:
  "b_lock (propose_start ps blk b c) = b_lock c" "vheight (propose_start ps blk b c) = vheight c"
  "config (propose_start ps blk b c) = config c" "core_id (propose_start ps blk b c) = core_id c"
  "hqc (propose_start ps blk b c) = hqc c"
  by (simp_all add: propose_start_def)

lemma propose_start_cache: "h \<noteq> blk_hash blk \<Longrightarrow> cache (propose_start ps blk b c) h = cache c h"
  by (simp add: propose_start_def add_blk_def)

lemma propose_wire:
  assumes "wire_inv c" and run: "on_deliver_blk (blk_hash blk) (propose_start ps blk b c) = Inr (v, c2)"
    and del: "is_del (cache c2) (blk_hash blk)"
  shows "wire_inv c2"
  unfolding wire_inv_def
proof (intro allI impI)
  fix h b' assume b': "cache c2 h = Some b'" "\<not> delivered b'"
  then have h: "h \<noteq> blk_hash blk" using del by (auto simp: is_del_def)
  obtain b'' where "cache (propose_start ps blk b c) h = Some b''" "\<not> delivered b''" "qc b'' = qc b'"
    using und_sub_deliver [OF run] b' by (auto simp: und_sub_def)
  then have "wire_qc b''" using assms(1) propose_start_cache [OF h, of ps b c] by (simp add: wire_inv_def)
  then show "wire_qc b'" by (simp add: wire_qc_def \<open>qc b'' = qc b'\<close>)
qed

lemma propose_del:
  assumes b: "cache (c\<lparr>storage := snd (add_blk blk (storage c))\<rparr>) (blk_hash blk) = Some b"
    and run: "on_deliver_blk (blk_hash blk) (propose_start ps blk b c) = Inr (v, c2)" and h: "is_del (cache c) h"
  shows "is_del (cache c2) h"
proof -
  have "is_del (cache (propose_start ps blk b c)) h"
  proof (cases "h = blk_hash blk")
    case True
    then show ?thesis using b h by (auto simp: propose_start_def is_del_def add_blk_def split: if_splits)
  next
    case False
    then show ?thesis using h by (simp add: is_del_def propose_start_cache)
  qed
  then show ?thesis using deliver_frame [OF run] by blast
qed

lemma deliver_tree_qcr:
  "block_content_ok T blk \<Longrightarrow> qc blk = Some q \<Longrightarrow> qcr (deliver_tree blk T) (blk_hash blk) = qc_get_obj_hash q"
  by (auto simp: block_content_ok_def deliver_tree_def qcr_def split: if_splits)

lemma und_sub_finish:
  assumes run: "propose_finish h c = Inr (bnew, c', ev)" and inv: "core_inv g T C V c" and h: "is_del (cache c) h"
    and chain: "\<And>a b. comm T C a \<Longrightarrow> comm T C b \<Longrightarrow> anc T a b \<or> anc T b a"
  shows "und_sub c c'"
proof -
  obtain c3 ev1 b3 ev2 where "bnew = h" and r1: "update h c = Inr (c3, ev1)"
    and "cache c3 h = Some b3" "vheight c3 < height b3"
    and r2: "on_receive_vote (make_vote (c3\<lparr>vheight := height b3\<rparr>) h) (c3\<lparr>vheight := height b3\<rparr>) = Inr (c', ev2)"
    by (rule propose_finish_Inr [OF run])
  obtain c4 ev4 where "update h c = Inr (c4, ev4)" "frame c c4" using update_ok [OF inv h chain] by blast
  then have "frame c c3" using r1 by simp
  moreover have "und_sub c3 (c3\<lparr>vheight := height b3\<rparr>)" by (rule und_sub_cache) simp
  ultimately show ?thesis by (rule und_sub_trans [OF und_sub_frame und_sub_trans [OF _ und_sub_vote [OF r2]]])
qed

lemma propose_inv:
  assumes inv: "net_inv s" and r: "honest s r" and run: "on_propose sha cs ps ex (cores s r) = Inr (bnew, c', ev)"
    and env: "\<And>hh hq n blk. hqc (cores s r) = Some (hh, hq) \<Longrightarrow> block_make sha ps cs hq ex n (Some hh) = Inr blk \<Longrightarrow>
        block_content_ok (btree s) blk \<and> T' = deliver_tree blk (btree s) \<and>
        (\<forall>b. cache (cores s r) (blk_hash blk) = Some b \<longrightarrow> parent_hashes b = ps \<and> qc b = Some hq)"
  shows "net_inv (s\<lparr>cores := (cores s)(r := c'), btree := T', vlog := vlog s @ [(r, bnew)]\<rparr>)"
proof -
  let ?c = "cores s r"
  note core = net_inv_core [OF inv r] note rep = net_inv_replica [OF inv r]
  from on_propose_Inr [OF run] obtain p ps' hh hq n blk b v c2 where o: "ps = p # ps'" "hqc ?c = Some (hh, hq)"
    "block_make sha ps cs hq ex n (Some hh) = Inr blk"
    "cache (?c\<lparr>storage := snd (add_blk blk (storage ?c))\<rparr>) (blk_hash blk) = Some b"
    "on_deliver_blk (blk_hash blk) (propose_start ps blk b ?c) = Inr (v, c2)"
    "propose_finish (blk_hash blk) c2 = Inr (bnew, c', ev)" by metis
  let ?h = "blk_hash blk"
  note mk = block_make_Inr [OF o(3)]
  have T': "T' = deliver_tree blk (btree s)" and content: "block_content_ok (btree s) blk"
    and same: "\<And>b'. cache ?c ?h = Some b' \<Longrightarrow> parent_hashes b' = parent_hashes blk \<and> qc b' = qc blk"
    using env [OF o(2,3)] mk by auto
  from propose_deliver [OF core o(3) o(4) o(5) o(2) content same]
  have d: "tree_ok (genesis s) T'" "btree s \<subseteq>\<^sub>m T'" "core_inv (genesis s) T' (net_cert s) (net_backers s) c2"
    "is_del (cache c2) ?h" by (auto simp: T')
  note fr = deliver_frame [OF o(5)]
  have good1: "good_move s r c2 T' []"
    using d fr propose_wire [OF _ o(5) d(4)] rep propose_del [OF o(4,5)] by (auto simp: good_move_def replica_ok_def)
  let ?s = "advance s r c2 T' []"
  have inv1: "net_inv ?s" by (rule advance_inv [OF inv r good1])
  let ?s' = "advance ?s r c' T' [(r, bnew)]"
  have core2: "core_inv (genesis s) T' (net_cert ?s) (net_backers ?s) c2" using d(3) by simp
  have chain: "comm T' (net_cert ?s) a \<Longrightarrow> comm T' (net_cert ?s) b \<Longrightarrow> anc T' a b \<or> anc T' b a" for a b
    using net_chain [OF inv1, of a b] by simp
  have "qcr T' ?h = hh"
    using deliver_tree_qcr [OF content] mk o(2) core by (auto simp: T' core_inv_def hqc_ok_def)
  then have lock: "ht T' (b_lock c2) \<le> ht T' (qcr T' ?h)"
    using core2 fr o(2) by (auto simp: core_inv_def hqc_ok_def)
  have bnew: "bnew = ?h" using propose_finish_Inr [OF o(6)] by metis
  have self: "core_id c2 \<in> net_backers ?s' ?h"
    using rep fr r by (simp add: net_backers_def backers_def replica_ok_def bnew)
  have quorum: "X \<subseteq> net_backers ?s' h \<Longrightarrow> unat (nmajority (config c2)) \<le> card X \<Longrightarrow> net_cert ?s' h" for h X
    using backers_quorum [of X ?s' h] rep fr by (simp add: replica_ok_def)
  have gcert: "net_cert ?s' (genesis s)" using genesis_cert [of ?s'] by simp
  have mono: "net_cert ?s h \<Longrightarrow> net_cert ?s' h" "net_backers ?s h \<subseteq> net_backers ?s' h" for h
    by (rule net_cert_advance, assumption, rule net_backers_advance)
  have fin: "bnew = ?h \<and> core_inv (genesis s) T' (net_cert ?s') (net_backers ?s') c' \<and> config c' = config c2 \<and>
    core_id c' = core_id c2 \<and> (\<forall>h. is_del (cache c') h = is_del (cache c2) h) \<and>
    ht T' (b_lock c2) \<le> ht T' (b_lock c') \<and> safe_vote T' (net_cert ?s) c2 c' ?h"
    by (rule propose_finish_inv [OF core2 d(4) o(6) chain lock mono self])
      (assumption | rule gcert | erule quorum)+
  have f: "core_inv (genesis s) T' (net_cert ?s') (net_backers ?s') c'" "config c' = config c2" "core_id c' = core_id c2"
    "\<forall>h. is_del (cache c') h = is_del (cache c2) h" "ht T' (b_lock c2) \<le> ht T' (b_lock c')"
    "safe_vote T' (net_cert ?s) c2 c' ?h" using fin by blast+
  have "vheight c2 \<le> vheight c'" using f(6) by (simp add: safe_vote_def word_le_nat_alt)
  moreover have "wire_inv c'"
    using good1 wire_inv_sub [OF _ und_sub_finish [OF o(6) core2 d(4) chain]] by (simp add: good_move_def)
  ultimately have "good_move ?s r c' T' [(r, bnew)]" using f d bnew by (auto simp: good_move_def)
  from advance_inv [OF inv1 _ this] have "net_inv ?s'" using r by simp
  moreover have "?s' = s\<lparr>cores := (cores s)(r := c'), btree := T', vlog := vlog s @ [(r, bnew)]\<rparr>"
    by (simp add: advance_def)
  ultimately show ?thesis by simp
qed

theorem net_step_inv: "net_step sha ver s s' \<Longrightarrow> net_inv s \<Longrightarrow> net_inv s'"
proof (induction rule: net_step.induct)
  case (Fetch s r st b st' c')
  then show ?case
    unfolding advance_same(1) using fetch_good [of s r sha st b st'] by (intro advance_inv) auto
next
  case (Deliver s r h b v c')
  then show ?case
    unfolding advance_same(2) using deliver_good [of s r h b ver v c'] by (intro advance_inv) auto
next
  case (ReceiveProposal s r pr c' ev)
  then show ?case
    unfolding advance_same(3) using proposal_good [of s r pr c' ev] by (intro advance_inv) auto
next
  case (ReceiveVote s r v c' ev)
  then show ?case
    unfolding advance_same(1) using vote_good [of s r ver v c' ev] by (intro advance_inv) auto
next
  case (Propose s r cs ps ex bnew c' ev T')
  then show ?case by (intro propose_inv) auto
qed

section \<open>Start of a run\<close>

lemma add_replicas_ok:
  assumes "cache c (b0 c) = Some gb"
  shows "\<exists>cfg W. add_replicas i rs c = Inr (set_blk (b0 c) (gb\<lparr>voted := W\<rparr>) (c\<lparr>config := cfg\<rparr>)) \<and>
    nreplicas cfg = nreplicas (config c) + word_of_nat (length rs) \<and>
    dom (replica_map cfg) = dom (replica_map (config c)) \<union> word_of_nat ` {i..<i + length rs}"
  using assms
proof (induction rs arbitrary: i c gb)
  case Nil
  have "set_blk (b0 c) (gb\<lparr>voted := voted gb\<rparr>) (c\<lparr>config := config c\<rparr>) = c"
    using Nil by (simp add: set_blk_def map_upd_triv)
  then show ?case by (intro exI [of _ "config c"] exI [of _ "voted gb"]) simp
next
  case (Cons a rs)
  obtain addr pk crt where a: "a = (addr, pk, crt)" by (cases a)
  let ?cfg = "config_add_replica (word_of_nat i) \<lparr>ri_id = word_of_nat i, peer_id = crt, pubkey = pk\<rparr> (config c)"
  let ?gb = "gb\<lparr>voted := insert (word_of_nat i) (voted gb)\<rparr>"
  let ?c = "set_blk (b0 c) ?gb (c\<lparr>config := ?cfg\<rparr>)"
  have run: "add_replica (word_of_nat i) crt pk c = Inr ?c"
    using Cons.prems by (simp add: add_replica_def get_blk_def)
  have "cache ?c (b0 ?c) = Some ?gb" by simp
  from Cons.IH [OF this, of "Suc i"] obtain cfg W where IH:
    "add_replicas (Suc i) rs ?c = Inr (set_blk (b0 ?c) (?gb\<lparr>voted := W\<rparr>) (?c\<lparr>config := cfg\<rparr>))"
    "nreplicas cfg = nreplicas (config ?c) + word_of_nat (length rs)"
    "dom (replica_map cfg) = dom (replica_map (config ?c)) \<union> word_of_nat ` {Suc i..<Suc i + length rs}" by blast
  have "dom (replica_map ?cfg) = insert (word_of_nat i) (dom (replica_map (config c)))"
    by (auto simp: config_add_replica_def)
  moreover have "{i..<i + length (a # rs)} = insert i {Suc i..<Suc i + length rs}" by auto
  ultimately have "dom (replica_map cfg) = dom (replica_map (config c)) \<union> word_of_nat ` {i..<i + length (a # rs)}"
    using IH(3) by simp
  moreover have "nreplicas cfg = nreplicas (config c) + word_of_nat (length (a # rs))"
    using IH(2) by (simp add: config_add_replica_def add.assoc)
  moreover have "set_blk (b0 ?c) (?gb\<lparr>voted := W\<rparr>) (?c\<lparr>config := cfg\<rparr>) = set_blk (b0 c) (gb\<lparr>voted := W\<rparr>) (c\<lparr>config := cfg\<rparr>)"
    by (simp add: set_blk_def)
  ultimately show ?case using run IH(1) by (intro exI [of _ cfg] exI [of _ W]) (simp add: a)
qed

definition genesis_hash :: "(bytes \<Rightarrow> hash) \<Rightarrow> hash" where
  "genesis_hash sha = blk_hash (block_genesis sha)"

text \<open>A replica after the constructor and \<open>start\<close>.\<close>

definition started :: "(bytes \<Rightarrow> hash) \<Rightarrow> ('a \<times> 'pk \<times> hash) list \<Rightarrow> rid \<Rightarrow> 'pk core \<Rightarrow> bool" where
  "started sha reps r c = (\<exists>listen key. length (start_peers listen reps) = length reps - 1 \<and>
     start_core listen reps (core_new sha r key) = Inr c)"

definition start_tree :: "(bytes \<Rightarrow> hash) \<Rightarrow> hash tree" where
  "start_tree sha = [genesis_hash sha \<mapsto> (genesis_hash sha, genesis_hash sha, 0)]"

lemma block_genesis_fields:
  "delivered (block_genesis sha)" "height (block_genesis sha) = 0" "decision (block_genesis sha) = 1"
  by (simp_all add: block_genesis_def block_new_def Let_def split: sum.splits)

lemma start_tree_ok: "tree_ok (genesis_hash sha) (start_tree sha)"
  by (simp add: tree_ok_def start_tree_def)

lemma start_tree_anc: "anc (start_tree sha) h (genesis_hash sha) = (h = genesis_hash sha)"
proof
  assume "anc (start_tree sha) h (genesis_hash sha)"
  from anc_ht [OF start_tree_ok this] show "h = genesis_hash sha" by (auto simp: start_tree_def)
qed simp

lemma started_core:
  assumes "started sha reps r c" and n: "0 < length reps" "length reps \<le> 65536"
    and C: "C (genesis_hash sha)"
  shows "core_inv (genesis_hash sha) (start_tree sha) C V c \<and> core_id c = r \<and>
    unat (nmajority (config c)) = length reps - (length reps - 1) div 3 \<and>
    dom (replica_map (config c)) = word_of_nat ` {..<length reps} \<and> wire_inv c"
proof -
  let ?g = "genesis_hash sha" and ?b = "block_genesis sha" and ?n = "length reps"
  obtain listen key where peers: "length (start_peers listen reps) = ?n - 1"
    and run: "start_core listen reps (core_new sha r key) = Inr c" using assms(1) by (auto simp: started_def)
  define c0 :: "'b core" where "c0 = core_new sha r key"
  have c0: "b0 c0 = ?g" "cache c0 = [?g \<mapsto> ?b]" "config c0 = config_new" "core_id c0 = r" "b_lock c0 = ?g" "b_exec c0 = ?g"
    by (simp_all add: c0_def core_new_def add_blk_def storage_new_def genesis_hash_def Let_def)
  then have "cache c0 (b0 c0) = Some ?b" by simp
  from add_replicas_ok [OF this, of 0 reps] obtain cfg W where
    a: "add_replicas 0 reps c0 = Inr (set_blk (b0 c0) (?b\<lparr>voted := W\<rparr>) (c0\<lparr>config := cfg\<rparr>))"
      "nreplicas cfg = word_of_nat ?n" "dom (replica_map cfg) = word_of_nat ` {..<?n}"
    by (auto simp: c0 config_new_def lessThan_atLeast0)
  define c1 where "c1 = set_blk (b0 c0) (?b\<lparr>voted := W\<rparr>) (c0\<lparr>config := cfg\<rparr>)"
  let ?f = "word_of_nat ((?n - 1) div 3) :: u32"
  have init: "on_init ?f c1 = Inr c" using run a(1) peers by (simp add: start_core_def c0_def c1_def)
  let ?cfg = "cfg\<lparr>nmajority := nreplicas cfg - ucast ?f\<rparr>"
  define q where "q = create_quorum_cert ?cfg ?g"
  let ?gb = "?b\<lparr>voted := W, qc := Some q, self_qc := Some q, qc_ref := Some ?g\<rparr>"
  have c: "c = (set_blk ?g ?gb (c1\<lparr>config := ?cfg\<rparr>))\<lparr>hqc := Some (?g, q)\<rparr>"
    using init by (simp add: on_init_def Let_def c1_def c0 q_def get_blk_def)
  have cache: "cache c = [?g \<mapsto> ?gb]" by (simp add: c c1_def c0)
  have qh: "qc_get_obj_hash q = ?g" by (simp add: q_def)
  have T: "start_tree sha ?g = Some (?g, ?g, 0)" by (simp add: start_tree_def)
  have "unat ?f = (?n - 1) div 3" using n by (simp add: unat_of_nat)
  then have "unat (ucast ?f :: u64) = (?n - 1) div 3"
    using n by (simp only: unsigned_ucast_eq) (simp add: take_bit_nat_eq_self)
  moreover have "unat (word_of_nat ?n :: u64) = ?n" using n by (simp add: unat_of_nat)
  ultimately have maj: "unat (nmajority ?cfg) = ?n - (?n - 1) div 3"
    using a(2) unat_sub_no_underflow [of "ucast ?f" "word_of_nat ?n :: u64"] by (simp add: word_le_nat_alt)
  have blk: "blk_ok ?g (start_tree sha) [?g \<mapsto> ?gb] ?g ?gb"
    using T qh block_genesis_fields [of sha]
    by (auto simp: blk_ok_def ht_def qcr_def par_def is_del_def genesis_hash_def)
  have "cache_inv ?g (start_tree sha) (cache c)"
    using start_tree_ok blk block_genesis_fields [of sha] by (auto simp: cache cache_inv_def is_del_def split: if_splits)
  moreover have "comm (start_tree sha) C ?g"
    using C T by (auto simp: comm_def succession_def par_def qcr_def intro!: exI [of _ ?g])
  moreover have "dec (cache c) h = anc (start_tree sha) h ?g" for h
    using block_genesis_fields [of sha] by (auto simp: cache dec_def start_tree_anc)
  moreover have "b0 c = ?g" "b_lock c = ?g" "b_exec c = ?g" "core_id c = r" "config c = ?cfg" "hqc c = Some (?g, q)"
    by (simp_all add: c c1_def c0)
  moreover have "is_del (cache c) h = (h = ?g)" for h
    using block_genesis_fields [of sha] by (auto simp: cache is_del_def)
  moreover have "qcr (start_tree sha) ?g = ?g" using T by (simp add: qcr_def)
  moreover have "wire_inv c" using block_genesis_fields [of sha] by (auto simp: wire_inv_def cache split: if_splits)
  moreover have "voted b \<subseteq> V h" if "cache c h = Some b" "h \<noteq> ?g" for h b
    using that by (simp add: cache)
  ultimately show ?thesis
    using C qh maj a(3) by (auto simp: core_inv_def hqc_ok_def)
qed

text \<open>
  A run starts with at most a third of the replicas faulty; the correct ones have been
  constructed and started with the same list of replicas.
\<close>

definition net_init :: "(bytes \<Rightarrow> hash) \<Rightarrow> ('a \<times> 'pk \<times> hash) list \<Rightarrow> 'pk net \<Rightarrow> bool" where
  "net_init sha reps s = (0 < length reps \<and> length reps \<le> 65536 \<and> genesis s = genesis_hash sha \<and>
     members s = word_of_nat ` {..<length reps} \<and> quorum s = length reps - (length reps - 1) div 3 \<and>
     byz s \<subseteq> members s \<and> card (byz s) \<le> (length reps - 1) div 3 \<and>
     (\<forall>r. honest s r \<longrightarrow> started sha reps r (cores s r)) \<and> btree s = start_tree sha \<and> vlog s = [])"

lemma card_rids: "n \<le> 65536 \<Longrightarrow> card (word_of_nat ` {..<n} :: rid set) = n"
  by (subst card_image) (auto simp: inj_on_def word_of_nat_eq_iff take_bit_nat_eq_self)

lemma third_faulty: "0 < (n::nat) \<Longrightarrow> f \<le> (n - 1) div 3 \<Longrightarrow> f + n < 2 * (n - (n - 1) div 3)"
  by linarith

lemma net_init_inv: "net_init sha reps s \<Longrightarrow> net_inv s"
proof -
  assume init: "net_init sha reps s"
  then have n: "0 < length reps" "length reps \<le> 65536" by (auto simp: net_init_def)
  note st = started_core [OF _ n, where C = "net_cert s" and V = "net_backers s" and sha = sha]
  have C: "net_cert s (genesis_hash sha)" using init by (simp add: net_cert_def cert_def net_init_def)
  have "replica_ok s r" if "honest s r" for r
    using st [of r "cores s r"] that init C by (auto simp: replica_ok_def net_init_def)
  moreover have "card (byz s) + card (members s) < 2 * quorum s"
  proof -
    have "card (members s) = length reps" using init card_rids [OF n(2)] by (simp add: net_init_def)
    then show ?thesis using init third_faulty [OF n(1)] by (simp add: net_init_def)
  qed
  moreover have "byz s \<subseteq> members s" "genesis s = genesis_hash sha" "btree s = start_tree sha" "vlog s = []"
    using init unfolding net_init_def by blast+
  ultimately show ?thesis using start_tree_ok [of sha] by (simp add: net_inv_def log_ok_def)
qed

text \<open>The states of a run.\<close>

definition reachable ::
  "(bytes \<Rightarrow> hash) \<Rightarrow> ('pk \<Rightarrow> hash \<Rightarrow> signature \<Rightarrow> bool) \<Rightarrow> ('a \<times> 'pk \<times> hash) list \<Rightarrow> 'pk net \<Rightarrow> bool" where
  "reachable sha ver reps s = (\<exists>s0. net_init sha reps s0 \<and> (net_step sha ver)\<^sup>*\<^sup>* s0 s)"

lemma steps_inv: "(net_step sha ver)\<^sup>*\<^sup>* s s' \<Longrightarrow> net_inv s \<Longrightarrow> net_inv s'"
  by (induction rule: rtranclp_induct) (auto intro: net_step_inv)

lemma reachable_inv: "reachable sha ver reps s \<Longrightarrow> net_inv s"
  by (auto simp: reachable_def intro: steps_inv net_init_inv)

section \<open>Safety\<close>

lemma anc_total: "tree_ok g T \<Longrightarrow> h \<in> dom T \<Longrightarrow> anc T a h \<Longrightarrow> anc T b h \<Longrightarrow> anc T a b \<or> anc T b a"
  using anc_linear [of g T h a b] anc_linear [of g T h b a] by linarith

lemma decided_chain:
  assumes "net_inv s" "honest s r" "honest s r'" "dec (cache (cores s r)) a" "dec (cache (cores s r')) b"
  shows "anc (btree s) a b \<or> anc (btree s) b a"
proof -
  let ?T = "btree s" and ?x = "b_exec (cores s r)" and ?y = "b_exec (cores s r')"
  note inv = net_inv_core [OF assms(1,2)] and inv' = net_inv_core [OF assms(1,3)]
  have a: "anc ?T a ?x" and b: "anc ?T b ?y" and cx: "comm ?T (net_cert s) ?x" and cy: "comm ?T (net_cert s) ?y"
    using inv inv' assms(4,5) unfolding core_inv_def by blast+
  have ok: "tree_ok (genesis s) ?T" using assms(1) by (simp add: net_inv_def)
  have dx: "?x \<in> dom ?T" and dy: "?y \<in> dom ?T"
    using inv inv' del_dom [OF core_inv_cache [OF inv]] del_dom [OF core_inv_cache [OF inv']] unfolding core_inv_def by blast+
  from net_chain [OF assms(1) cx cy] show ?thesis
  proof
    assume "anc ?T ?x ?y"
    then show ?thesis using anc_total [OF ok dy anc_trans [OF a] b] by blast
  next
    assume "anc ?T ?y ?x"
    then show ?thesis using anc_total [OF ok dx a anc_trans [OF b]] by blast
  qed
qed

text \<open>A network of four replicas, one of them faulty, right after start.\<close>

definition sample_reps :: "(nat \<times> unit \<times> hash) list" where
  "sample_reps = [(0, (), 100), (1, (), 101), (2, (), 102), (3, (), 103)]"

definition sample_sha :: "bytes \<Rightarrow> hash" where
  "sample_sha bs = foldl (\<lambda>h x. 31 * h + ucast x) 7 bs"

definition sample_net :: "unit net" where
  "sample_net = \<lparr>genesis = genesis_hash sample_sha, members = {0, 1, 2, 3}, byz = {3}, quorum = 3,
     cores = (\<lambda>r. projr (start_core (unat r) sample_reps (core_new sample_sha r (\<lambda>h. sample_sig)))),
     btree = start_tree sample_sha, vlog = []\<rparr>"

lemma start_core_Inr: "\<exists>c. start_core listen (reps :: ('a \<times> 'pk \<times> hash) list) (core_new sha r key) = Inr c"
proof -
  let ?c = "core_new sha r key :: 'pk core"
  have "cache ?c (b0 ?c) = Some (block_genesis sha)" by (simp add: core_new_def add_blk_def storage_new_def Let_def)
  from add_replicas_ok [OF this, of 0 reps] obtain cfg W where
    "add_replicas 0 reps ?c = Inr (set_blk (b0 ?c) ((block_genesis sha)\<lparr>voted := W\<rparr>) (?c\<lparr>config := cfg\<rparr>))"
    by blast
  then show ?thesis by (simp add: start_core_def on_init_def Let_def get_blk_def)
qed

lemma sample_init: "net_init sample_sha sample_reps sample_net"
proof -
  have "started sample_sha sample_reps r (cores sample_net r)" if "r \<in> {0, 1, 2}" for r :: rid
  proof -
    have "length (start_peers (unat r) sample_reps) = length sample_reps - 1"
      using that by (auto simp: sample_reps_def start_peers_def)
    moreover have "start_core (unat r) sample_reps (core_new sample_sha r (\<lambda>h. sample_sig)) = Inr (cores sample_net r)"
      using start_core_Inr [of "unat r" sample_reps sample_sha r "\<lambda>h. sample_sig"]
      by (elim exE) (simp add: sample_net_def)
    ultimately show ?thesis unfolding started_def by blast
  qed
  moreover have "{0, 1, 2, 3} = (word_of_nat ` {..<4} :: rid set)"
    by (auto simp: numeral_eq_Suc lessThan_Suc)
  ultimately show ?thesis by (simp add: net_init_def sample_net_def) (auto simp: sample_reps_def)
qed

lemma sample_reachable: "reachable sample_sha (\<lambda>pk h g. False) sample_reps sample_net"
  using sample_init by (auto simp: reachable_def)

lemma sample_decided: "honest sample_net r \<Longrightarrow> dec (cache (cores sample_net r)) (genesis_hash sample_sha)"
proof -
  have "genesis sample_net = genesis_hash sample_sha" by (simp add: sample_net_def)
  moreover assume "honest sample_net r"
  note net_inv_core [OF reachable_inv [OF sample_reachable] this]
  moreover from this have "is_del (cache (cores sample_net r)) (b_exec (cores sample_net r))" by (simp add: core_inv_def)
  ultimately show ?thesis
    using anc_genesis core_inv_tree del_dom core_inv_cache unfolding core_inv_def by metis
qed

lemma decided_known: "net_inv s \<Longrightarrow> honest s r \<Longrightarrow> dec (cache (cores s r)) h \<Longrightarrow> h \<in> dom (btree s)"
proof -
  assume "net_inv s" "honest s r" and h: "dec (cache (cores s r)) h"
  note inv = net_inv_core [OF this(1,2)]
  have "anc (btree s) h (b_exec (cores s r))" "is_del (cache (cores s r)) (b_exec (cores s r))"
    using inv h unfolding core_inv_def by blast+
  then show ?thesis using anc_ht [OF core_inv_tree [OF inv]] del_dom [OF core_inv_cache [OF inv]] by blast
qed

lemma sample_del_genesis:
  assumes "honest sample_net r"
  shows "is_del (cache (cores sample_net r)) (genesis_hash sample_sha)"
proof -
  have "genesis sample_net = genesis_hash sample_sha" by (simp add: sample_net_def)
  with core_inv_cache [OF net_inv_core [OF reachable_inv [OF sample_reachable] assms]]
  show ?thesis by (simp only: cache_inv_def)
qed

end
