(* ===== verification/Sample_Run.thy ===== *)
theory Sample_Run
  imports Network
begin

text \<open>
  A run of a network of one replica that proposes, votes, certifies and commits by itself:
  the concrete states on which the properties of runs are instantiated. Blocks are named
  by their \<open>extra\<close> byte, which the hash function of the sample gives back.
\<close>

definition solo_sha :: "bytes \<Rightarrow> hash" where
  "solo_sha bs = ucast (last bs)"

definition solo_reps :: "(nat \<times> unit \<times> hash) list" where
  "solo_reps = [(0, (), 100)]"

definition solo_core :: "unit core" where
  "solo_core = projr (start_core 0 solo_reps (core_new solo_sha 0 (\<lambda>h. sample_sig)))"

type_synonym solo_state = "unit core \<times> hash tree \<times> (rid \<times> hash) list"

fun solo_run :: "u8 list \<Rightarrow> solo_state \<Rightarrow> solo_state option" where
  "solo_run [] s = Some s"
| "solo_run (x # xs) (c, T, l) =
     (case hqc c of None \<Rightarrow> None | Some (hh, q) \<Rightarrow>
      if T (ucast x) \<noteq> None \<or> cache c (ucast x) \<noteq> None \<or> ht T hh \<ge> 100 \<or>
         qc_get_obj_hash q \<noteq> hh then None
      else case on_propose solo_sha [] [hh] [x] c of Inl e \<Rightarrow> None
      | Inr (h, c', ev) \<Rightarrow> solo_run xs (c', T(ucast x \<mapsto> (hh, hh, Suc (ht T hh))), l @ [(0, h)]))"

definition solo_net :: "solo_state \<Rightarrow> unit net" where
  "solo_net = (\<lambda>(c, T, l). \<lparr>genesis = 0, members = {0}, byz = {}, quorum = 1, cores = (\<lambda>r. solo_core)(0 := c), btree = T, vlog = l\<rparr>)"

lemma put_offset [simp]: "offset (ds_put_data bs s) = offset s" "offset (ds_put w s) = offset s"
  by (simp_all add: ds_put_def ds_put_data_def)

lemma fold_put_offset [simp]: "offset (fold ds_put ws s) = offset s" "offset (fold (\<lambda>_. ds_put w) is s) = offset s"
proof -
  show "offset (fold ds_put ws s) = offset s" by (induction ws arbitrary: s) simp_all
  show "offset (fold (\<lambda>_. ds_put w) is s) = offset s" by (induction "is" arbitrary: s) simp_all
qed

lemma qc_serialize_offset: "qc_serialize q s = Inr s' \<Longrightarrow> offset s' = offset s"
proof (cases q)
  case (QuorumCertSecp256k1 p)
  have "qc_put_sigs p is s = Inr s' \<Longrightarrow> offset s' = offset s" for "is" s
    by (induction "is" arbitrary: s) (auto simp: sig_serialize_def split: option.splits if_splits)
  moreover assume "qc_serialize q s = Inr s'"
  ultimately show ?thesis
    using QuorumCertSecp256k1 by (fastforce simp: bits_serialize_def Let_def split: option.splits)
qed auto

lemma solo_hash: "block_make solo_sha ps cs q [x] n r = Inr blk \<Longrightarrow> blk_hash blk = ucast x"
  by (auto simp: block_make_def Let_def sbind_eq_Inr block_get_hash_def block_serialize_def ds_get_hash_def
      solo_sha_def ds_put_data_def ds_rest_def ds_new_def dest!: qc_serialize_offset)

lemma solo_step:
  assumes "hqc c = Some (hh, q)" "T (ucast x) = None" "cache c (ucast x) = None" "ht T hh < 100"
    and run: "on_propose solo_sha [] [hh] [x] c = Inr (h, c', ev)" and q: "qc_get_obj_hash q = hh"
  shows "net_step solo_sha ver (solo_net (c, T, l)) (solo_net (c', T(ucast x \<mapsto> (hh, hh, Suc (ht T hh))), l @ [(0, h)]))"
proof -
  let ?s = "solo_net (c, T, l)" and ?T = "T(ucast x \<mapsto> (hh, hh, Suc (ht T hh)))"
  have "net_step solo_sha ver ?s (?s\<lparr>cores := (cores ?s)(0 := c'), btree := ?T, vlog := vlog ?s @ [(0, h)]\<rparr>)"
  proof (rule net_step.Propose)
    show "honest ?s 0" by (simp add: solo_net_def)
    show "on_propose solo_sha [] [hh] [x] (cores ?s 0) = Inr (h, c', ev)" using run by (simp add: solo_net_def)
  next
    fix hh' hq n blk
    assume hq: "hqc (cores ?s 0) = Some (hh', hq)" and mk: "block_make solo_sha [hh] [] hq [x] n (Some hh') = Inr blk"
    then show "block_content_ok (btree ?s) blk \<and> ?T = deliver_tree blk (btree ?s) \<and>
        (\<forall>b. cache (cores ?s 0) (blk_hash blk) = Some b \<longrightarrow> parent_hashes b = [hh] \<and> qc b = Some hq)"
      using assms solo_hash [OF mk] block_make_Inr [OF mk]
      by (auto simp: solo_net_def block_content_ok_def deliver_tree_def)
  qed
  moreover have "(?s\<lparr>cores := (cores ?s)(0 := c'), btree := ?T, vlog := vlog ?s @ [(0, h)]\<rparr>) = solo_net (c', ?T, l @ [(0, h)])"
    by (simp add: solo_net_def)
  ultimately show ?thesis by simp
qed

lemma solo_run_steps:
  "solo_run xs s = Some s' \<Longrightarrow> (net_step solo_sha ver)\<^sup>*\<^sup>* (solo_net s) (solo_net s')"
proof (induction xs arbitrary: s)
  case (Cons x xs)
  obtain c T l where s: "s = (c, T, l)" by (cases s)
  from Cons.prems obtain hh q h c' ev where st: "hqc c = Some (hh, q)" "T (ucast x) = None" "cache c (ucast x) = None"
    "ht T hh < 100" "qc_get_obj_hash q = hh" "on_propose solo_sha [] [hh] [x] c = Inr (h, c', ev)"
    "solo_run xs (c', T(ucast x \<mapsto> (hh, hh, Suc (ht T hh))), l @ [(0, h)]) = Some s'"
    by (cases "T (ucast x)") (auto split: option.splits if_splits sum.splits simp: not_le s)
  have "(net_step solo_sha ver)\<^sup>*\<^sup>* (solo_net (c', T(ucast x \<mapsto> (hh, hh, Suc (ht T hh))), l @ [(0, h)])) (solo_net s')"
    by (rule Cons.IH [OF st(7)])
  then show ?case unfolding s using solo_step [OF st(1-4,6,5)] by (rule converse_rtranclp_into_rtranclp [rotated])
qed simp

definition solo_start :: solo_state where
  "solo_start = (solo_core, start_tree solo_sha, [])"

lemma solo_init: "net_init solo_sha solo_reps (solo_net solo_start)"
proof -
  have g: "genesis_hash solo_sha = 0" by code_simp
  have "started solo_sha solo_reps 0 solo_core"
    using start_core_Inr [of 0 solo_reps solo_sha 0 "\<lambda>h. sample_sig"]
    by (auto simp: started_def solo_core_def solo_reps_def start_peers_def intro!: exI [of _ "0 :: nat"] exI [of _ "\<lambda>h. sample_sig"])
  then show ?thesis using g by (auto simp: net_init_def solo_net_def solo_start_def solo_reps_def)
qed

definition solo_end :: solo_state where
  "solo_end = the (solo_run [1, 2, 3, 4] solo_start)"

lemma solo_end_eval:
  "case solo_run [1, 2, 3, 4] solo_start of None \<Rightarrow> False
   | Some (c, T, l) \<Rightarrow> l = [(0, 1), (0, 2), (0, 3), (0, 4)] \<and> b_exec c = 1 \<and> b_lock c = 2 \<and> vheight c = 4 \<and>
       map (\<lambda>h. map_option (\<lambda>b. (delivered b, decision b)) (cache c h)) [1, 2, 4] =
         [Some (True, 1), Some (True, 0), Some (True, 0)] \<and>
       map T [0, 1, 2, 3, 4] = [Some (0, 0, 0), Some (0, 0, 1), Some (1, 1, 2), Some (2, 2, 3), Some (3, 3, 4)]"
  by code_simp

lemma solo_end_run:
  obtains c T where "solo_run [1, 2, 3, 4] solo_start = Some (c, T, [(0, 1), (0, 2), (0, 3), (0, 4)])"
    "cores (solo_net solo_end) 0 = c" "btree (solo_net solo_end) = T"
    "vlog (solo_net solo_end) = [(0, 1), (0, 2), (0, 3), (0, 4)]"
  using solo_end_eval by (cases "solo_run [1, 2, 3, 4] solo_start") (auto simp: solo_end_def solo_net_def)

lemma solo_honest: "honest (solo_net s) 0"
  by (simp add: solo_net_def split: prod.splits)

lemma solo_reachable: "reachable solo_sha ver solo_reps (solo_net solo_end)"
proof (rule solo_end_run)
  fix c T assume "solo_run [1, 2, 3, 4] solo_start = Some (c, T, [(0, 1), (0, 2), (0, 3), (0, 4)])"
  then have "solo_run [1, 2, 3, 4] solo_start = Some solo_end" by (simp add: solo_end_def)
  then show ?thesis using solo_run_steps solo_init unfolding reachable_def by blast
qed

text \<open>The replica has committed block 1, is locked on block 2 and has voted for four blocks.\<close>

lemma solo_end_state:
  "dec (cache (cores (solo_net solo_end) 0)) 1" "is_del (cache (cores (solo_net solo_end) 0)) 4"
  "vlog (solo_net solo_end) = [(0, 1), (0, 2), (0, 3), (0, 4)]" "b_exec (cores (solo_net solo_end) 0) = 1"
  "btree (solo_net solo_end) 0 = Some (0, 0, 0)" "btree (solo_net solo_end) 1 = Some (0, 0, 1)"
  "btree (solo_net solo_end) 2 = Some (1, 1, 2)"
  using solo_end_eval
  by (auto simp: solo_end_def solo_net_def dec_def is_del_def split: option.splits)

end
