(* ===== verification/Power_Chain.thy ===== *)
theory Power_Chain
  imports Main
begin

text \<open>
  Addition chains: code that raises a number to a fixed power by multiplications and
  squarings in a fixed order. The locale asks for a multiplication and a squaring that are
  right modulo \<open>m\<close> on representations that satisfy \<open>ok\<close>; its lemmas follow the exponent
  through the chain. Scalars and field elements are the two instances.
\<close>

locale power_chain =
  fixes mul :: "'a \<Rightarrow> 'a \<Rightarrow> 'a" and sqr :: "'a \<Rightarrow> 'a" and val :: "'a \<Rightarrow> nat" and ok :: "'a \<Rightarrow> bool" and m :: nat
  assumes mul_ok: "ok a \<Longrightarrow> ok b \<Longrightarrow> ok (mul a b) \<and> val (mul a b) mod m = val a * val b mod m"
    and sqr_ok: "ok a \<Longrightarrow> ok (sqr a) \<and> val (sqr a) mod m = val a * val a mod m"
begin

definition raised :: "'a \<Rightarrow> nat \<Rightarrow> 'a \<Rightarrow> bool" where
  "raised a k x = (ok x \<and> val x mod m = val a ^ k mod m)"

lemma raised_self: "ok a \<Longrightarrow> raised a 1 a"
  by (simp add: raised_def)

lemma raised_mul: "raised a i x \<Longrightarrow> raised a j y \<Longrightarrow> raised a (i + j) (mul x y)"
  using mul_ok [of x y] by (metis raised_def mod_mult_eq power_add)

lemma raised_sqr: "raised a i x \<Longrightarrow> raised a (2 * i) (sqr x)"
  using sqr_ok [of x] by (metis raised_def mod_mult_eq power_add mult_2)

lemma raised_sqrs: "raised a i x \<Longrightarrow> raised a (2 ^ n * i) ((sqr ^^ n) x)"
  by (induction n) (auto dest: raised_sqr simp: mult.assoc)

text \<open>A window of a chain: \<open>n\<close> squarings and a multiplication.\<close>

lemma raised_window: "raised a i t \<Longrightarrow> raised a j y \<Longrightarrow> raised a (2 ^ n * i + j) (mul ((sqr ^^ n) t) y)"
  by (intro raised_mul raised_sqrs)

end

end
