(* ===== verification/Scalar_Inverse.thy ===== *)
theory Scalar_Inverse
  imports Scalar_4x64_Correct Power_Chain
begin

text \<open>
  \<open>secp256k1/src/scalar_impl.h\<close>: the inverse of a scalar as its power with exponent
  \<open>n - 2\<close>, by an addition chain. \<open>for (i = 0; i < k; i++) sqr(t, t)\<close> is the \<open>k\<close>-fold iterate
  of the squaring.
\<close>

definition secp256k1_scalar_inverse :: "scalar \<Rightarrow> scalar" where
  "secp256k1_scalar_inverse x =
     (let mul = secp256k1_scalar_mul; sqr = secp256k1_scalar_sqr;
          u2 = sqr x;
          x2 = mul u2 x;
          u5 = mul u2 x2;
          x3 = mul u5 u2;
          u9 = mul x3 u2;
          u11 = mul u9 u2;
          u13 = mul u11 u2;
          x6 = sqr u13; x6 = sqr x6; x6 = mul x6 u11;
          x8 = sqr x6; x8 = sqr x8; x8 = mul x8 x2;
          x14 = sqr x8; x14 = (sqr ^^ 5) x14; x14 = mul x14 x6;
          x28 = sqr x14; x28 = (sqr ^^ 13) x28; x28 = mul x28 x14;
          x56 = sqr x28; x56 = (sqr ^^ 27) x56; x56 = mul x56 x28;
          x112 = sqr x56; x112 = (sqr ^^ 55) x112; x112 = mul x112 x56;
          x126 = sqr x112; x126 = (sqr ^^ 13) x126; x126 = mul x126 x14;
          t = x126;
          t = (sqr ^^ 3) t; t = mul t u5;
          t = (sqr ^^ 4) t; t = mul t x3;
          t = (sqr ^^ 4) t; t = mul t u5;
          t = (sqr ^^ 5) t; t = mul t u11;
          t = (sqr ^^ 4) t; t = mul t u11;
          t = (sqr ^^ 4) t; t = mul t x3;
          t = (sqr ^^ 5) t; t = mul t x3;
          t = (sqr ^^ 6) t; t = mul t u13;
          t = (sqr ^^ 4) t; t = mul t u5;
          t = (sqr ^^ 3) t; t = mul t x3;
          t = (sqr ^^ 5) t; t = mul t u9;
          t = (sqr ^^ 6) t; t = mul t u5;
          t = (sqr ^^ 10) t; t = mul t x3;
          t = (sqr ^^ 4) t; t = mul t x3;
          t = (sqr ^^ 9) t; t = mul t x8;
          t = (sqr ^^ 5) t; t = mul t u9;
          t = (sqr ^^ 6) t; t = mul t u11;
          t = (sqr ^^ 4) t; t = mul t u13;
          t = (sqr ^^ 5) t; t = mul t x2;
          t = (sqr ^^ 6) t; t = mul t u13;
          t = (sqr ^^ 10) t; t = mul t u13;
          t = (sqr ^^ 4) t; t = mul t u9;
          t = (sqr ^^ 6) t; t = mul t x;
          t = (sqr ^^ 8) t
      in mul t x6)"

definition secp256k1_scalar_inverse_var :: "scalar \<Rightarrow> scalar" where
  "secp256k1_scalar_inverse_var x = secp256k1_scalar_inverse x"

definition secp256k1_scalar_is_even :: "scalar \<Rightarrow> bool" where
  "secp256k1_scalar_is_even a = ((d0 a AND 1) = 0)"

section \<open>Correctness\<close>

interpretation scalar_power:
  power_chain secp256k1_scalar_mul secp256k1_scalar_sqr sval "\<lambda>a. True" secp256k1_n
  by unfold_locales (simp_all add: mul_val sqr_val)

lemma inverse_raised: "scalar_power.raised x (secp256k1_n - 2) (secp256k1_scalar_inverse x)"
proof -
  note w = scalar_power.raised_window [of x] and m = scalar_power.raised_mul [of x] and q = scalar_power.raised_sqr [of x]
  note qs = scalar_power.raised_sqrs [of x]
  have 1: "scalar_power.raised x 1 x" by (rule scalar_power.raised_self) simp
  define u2 where "u2 = secp256k1_scalar_sqr x"
  have u2: "scalar_power.raised x 2 u2" using q [OF 1] by (simp add: u2_def)
  define x2 where "x2 = secp256k1_scalar_mul u2 x"
  have x2: "scalar_power.raised x 3 x2" using m [OF u2 1] by (simp add: x2_def)
  define u5 where "u5 = secp256k1_scalar_mul u2 x2"
  have u5: "scalar_power.raised x 5 u5" using m [OF u2 x2] by (simp add: u5_def)
  define x3 where "x3 = secp256k1_scalar_mul u5 u2"
  have x3: "scalar_power.raised x 7 x3" using m [OF u5 u2] by (simp add: x3_def)
  define u9 where "u9 = secp256k1_scalar_mul x3 u2"
  have u9: "scalar_power.raised x 9 u9" using m [OF x3 u2] by (simp add: u9_def)
  define u11 where "u11 = secp256k1_scalar_mul u9 u2"
  have u11: "scalar_power.raised x 11 u11" using m [OF u9 u2] by (simp add: u11_def)
  define u13 where "u13 = secp256k1_scalar_mul u11 u2"
  have u13: "scalar_power.raised x 13 u13" using m [OF u11 u2] by (simp add: u13_def)
  define x6 where "x6 = secp256k1_scalar_mul (secp256k1_scalar_sqr (secp256k1_scalar_sqr u13)) u11"
  have x6: "scalar_power.raised x 63 x6" using m [OF q [OF q [OF u13]] u11] by (simp add: x6_def)
  define x8 where "x8 = secp256k1_scalar_mul (secp256k1_scalar_sqr (secp256k1_scalar_sqr x6)) x2"
  have x8: "scalar_power.raised x 255 x8" using m [OF q [OF q [OF x6]] x2] by (simp add: x8_def)
  define x14 where "x14 = secp256k1_scalar_mul ((secp256k1_scalar_sqr ^^ 5) (secp256k1_scalar_sqr x8)) x6"
  have x14: "scalar_power.raised x (2 ^ 14 - 1) x14" using w [OF q [OF x8] x6, of 5] by (simp add: x14_def)
  define x28 where "x28 = secp256k1_scalar_mul ((secp256k1_scalar_sqr ^^ 13) (secp256k1_scalar_sqr x14)) x14"
  have x28: "scalar_power.raised x (2 ^ 28 - 1) x28" using w [OF q [OF x14] x14, of 13] by (simp add: x28_def)
  define x56 where "x56 = secp256k1_scalar_mul ((secp256k1_scalar_sqr ^^ 27) (secp256k1_scalar_sqr x28)) x28"
  have x56: "scalar_power.raised x (2 ^ 56 - 1) x56" using w [OF q [OF x28] x28, of 27] by (simp add: x56_def)
  define x112 where "x112 = secp256k1_scalar_mul ((secp256k1_scalar_sqr ^^ 55) (secp256k1_scalar_sqr x56)) x56"
  have x112: "scalar_power.raised x (2 ^ 112 - 1) x112" using w [OF q [OF x56] x56, of 55] by (simp add: x112_def)
  define x126 where "x126 = secp256k1_scalar_mul ((secp256k1_scalar_sqr ^^ 13) (secp256k1_scalar_sqr x112)) x14"
  have x126: "scalar_power.raised x (2 ^ 126 - 1) x126" using w [OF q [OF x112] x14, of 13] by (simp add: x126_def)
  note T = w [OF w [OF w [OF w [OF w [OF w [OF w [OF w [OF w [OF w [OF w [OF w [OF w [OF w [OF w [OF w [OF w [OF w
    [OF w [OF w [OF w [OF w [OF w [OF w [OF x126 u5, of 3] x3, of 4] u5, of 4] u11, of 5] u11, of 4] x3, of 4] x3, of 5]
    u13, of 6] u5, of 4] x3, of 3] u9, of 5] u5, of 6] x3, of 10] x3, of 4] x8, of 9] u9, of 5] u11, of 6] u13, of 4]
    x2, of 5] u13, of 6] u13, of 10] u9, of 4] 1, of 6] x6, of 8]
  show ?thesis
    using T unfolding secp256k1_scalar_inverse_def Let_def
    unfolding u2_def [symmetric] x2_def [symmetric] u5_def [symmetric] x3_def [symmetric] u9_def [symmetric]
      u11_def [symmetric] u13_def [symmetric] x6_def [symmetric] x8_def [symmetric] x14_def [symmetric]
      x28_def [symmetric] x56_def [symmetric] x112_def [symmetric] x126_def [symmetric]
    by (simp add: secp256k1_n_def)
qed

lemma mul_reduced: "sval (secp256k1_scalar_mul a b) < secp256k1_n"
  by (simp add: mul_val secp256k1_n_def)

lemma inverse_val: "sval (secp256k1_scalar_inverse x) = sval x ^ (secp256k1_n - 2) mod secp256k1_n"
proof -
  have "sval (secp256k1_scalar_inverse x) < secp256k1_n"
    unfolding secp256k1_scalar_inverse_def Let_def by (rule mul_reduced)
  then show ?thesis using inverse_raised [of x] by (simp add: scalar_power.raised_def)
qed

text \<open>the addition chain of \<open>secp256k1_scalar_inverse\<close> raises a scalar to the power
  \<open>n - 2\<close> modulo the group order \<open>n\<close>, so multiplying the result by the scalar gives its power
  with exponent \<open>n - 1\<close>.\<close>

theorem scalar_inverse_power:
  "sval (secp256k1_scalar_inverse x) = sval x ^ (secp256k1_n - 2) mod secp256k1_n \<and>
   sval (secp256k1_scalar_mul (secp256k1_scalar_inverse x) x) = sval x ^ (secp256k1_n - 1) mod secp256k1_n"
proof
  show val: "sval (secp256k1_scalar_inverse x) = sval x ^ (secp256k1_n - 2) mod secp256k1_n"
    by (rule inverse_val)
  have "secp256k1_n - 1 = Suc (secp256k1_n - 2)" by (simp add: secp256k1_n_def)
  then show "sval (secp256k1_scalar_mul (secp256k1_scalar_inverse x) x) = sval x ^ (secp256k1_n - 1) mod secp256k1_n"
    by (simp only: mul_val val power_Suc2 mod_mult_left_eq)
qed

end
