(* ===== verification/Sha256.thy ===== *)
theory Sha256
  imports Prelude
begin

text \<open>
  \<open>secp256k1/src/hash_impl.h\<close>: streaming SHA-256, HMAC-SHA256 and the deterministic generator of
  RFC 6979 that nonces come from. \<open>buf\<close> is kept as the 64 bytes that its sixteen words occupy in
  memory, since the code fills it by \<open>memcpy\<close>; words are read from it in little-endian order.
\<close>

section \<open>State\<close>

record sha256 =
  sh :: "u32 list"
  buf :: bytes
  nbytes :: u64

record hmac_sha256 =
  inner :: sha256
  outer :: sha256

record rfc6979 =
  rv :: bytes
  rk :: bytes
  retry :: bool

section \<open>The compression function\<close>

definition Ch :: "u32 \<Rightarrow> u32 \<Rightarrow> u32 \<Rightarrow> u32" where
  "Ch x y z = z XOR (x AND (y XOR z))"

definition Maj :: "u32 \<Rightarrow> u32 \<Rightarrow> u32 \<Rightarrow> u32" where
  "Maj x y z = (x AND y) OR (z AND (x OR y))"

definition Sigma0 :: "u32 \<Rightarrow> u32" where
  "Sigma0 x = (drop_bit 2 x OR push_bit 30 x) XOR (drop_bit 13 x OR push_bit 19 x) XOR (drop_bit 22 x OR push_bit 10 x)"

definition Sigma1 :: "u32 \<Rightarrow> u32" where
  "Sigma1 x = (drop_bit 6 x OR push_bit 26 x) XOR (drop_bit 11 x OR push_bit 21 x) XOR (drop_bit 25 x OR push_bit 7 x)"

definition sigma0 :: "u32 \<Rightarrow> u32" where
  "sigma0 x = (drop_bit 7 x OR push_bit 25 x) XOR (drop_bit 18 x OR push_bit 14 x) XOR drop_bit 3 x"

definition sigma1 :: "u32 \<Rightarrow> u32" where
  "sigma1 x = (drop_bit 17 x OR push_bit 15 x) XOR (drop_bit 19 x OR push_bit 13 x) XOR drop_bit 10 x"

definition BE32 :: "u32 \<Rightarrow> u32" where
  "BE32 p = push_bit 24 (p AND 0xFF) OR push_bit 8 (p AND 0xFF00) OR drop_bit 8 (p AND 0xFF0000) OR
     drop_bit 24 (p AND 0xFF000000)"

text \<open>The macro \<open>Round\<close> gives the new \<open>d\<close> and \<open>h\<close>.\<close>

definition Round :: "u32 \<Rightarrow> u32 \<Rightarrow> u32 \<Rightarrow> u32 \<Rightarrow> u32 \<Rightarrow> u32 \<Rightarrow> u32 \<Rightarrow> u32 \<Rightarrow> u32 \<Rightarrow> u32 \<Rightarrow> u32 \<times> u32" where
  "Round a b c d e f g h k w =
     (let t1 = h + Sigma1 e + Ch e f g + k + w; t2 = Sigma0 a + Maj a b c in (d + t1, t1 + t2))"

type_synonym sha_vars = "u32 \<times> u32 \<times> u32 \<times> u32 \<times> u32 \<times> u32 \<times> u32 \<times> u32"

text \<open>
  The 64 lines of \<open>Round\<close> repeat one pattern of eight lines, in which the eight variables
  change their roles cyclically. The words \<open>w0\<close> to \<open>w15\<close> are assigned inside the calls; they
  do not depend on the variables, so a pass of assignments is done before its sixteen rounds.
\<close>

definition rounds8 :: "sha_vars \<Rightarrow> u32 list \<Rightarrow> u32 list \<Rightarrow> sha_vars" where
  "rounds8 v k w =
     (let (a, b, c, d, e, f, g, h) = v;
          (d, h) = Round a b c d e f g h (k ! 0) (w ! 0);
          (c, g) = Round h a b c d e f g (k ! 1) (w ! 1);
          (b, f) = Round g h a b c d e f (k ! 2) (w ! 2);
          (a, e) = Round f g h a b c d e (k ! 3) (w ! 3);
          (h, d) = Round e f g h a b c d (k ! 4) (w ! 4);
          (g, c) = Round d e f g h a b c (k ! 5) (w ! 5);
          (f, b) = Round c d e f g h a b (k ! 6) (w ! 6);
          (e, a) = Round b c d e f g h a (k ! 7) (w ! 7)
      in (a, b, c, d, e, f, g, h))"

definition schedule16 :: "u32 list \<Rightarrow> u32 list" where
  "schedule16 w =
     (let w0 = w ! 0; w1 = w ! 1; w2 = w ! 2; w3 = w ! 3; w4 = w ! 4; w5 = w ! 5; w6 = w ! 6; w7 = w ! 7;
          w8 = w ! 8; w9 = w ! 9; w10 = w ! 10; w11 = w ! 11; w12 = w ! 12; w13 = w ! 13; w14 = w ! 14; w15 = w ! 15;
          w0 = w0 + (sigma1 w14 + w9 + sigma0 w1);
          w1 = w1 + (sigma1 w15 + w10 + sigma0 w2);
          w2 = w2 + (sigma1 w0 + w11 + sigma0 w3);
          w3 = w3 + (sigma1 w1 + w12 + sigma0 w4);
          w4 = w4 + (sigma1 w2 + w13 + sigma0 w5);
          w5 = w5 + (sigma1 w3 + w14 + sigma0 w6);
          w6 = w6 + (sigma1 w4 + w15 + sigma0 w7);
          w7 = w7 + (sigma1 w5 + w0 + sigma0 w8);
          w8 = w8 + (sigma1 w6 + w1 + sigma0 w9);
          w9 = w9 + (sigma1 w7 + w2 + sigma0 w10);
          w10 = w10 + (sigma1 w8 + w3 + sigma0 w11);
          w11 = w11 + (sigma1 w9 + w4 + sigma0 w12);
          w12 = w12 + (sigma1 w10 + w5 + sigma0 w13);
          w13 = w13 + (sigma1 w11 + w6 + sigma0 w14);
          w14 = w14 + (sigma1 w12 + w7 + sigma0 w15);
          w15 = w15 + (sigma1 w13 + w8 + sigma0 w0)
      in [w0, w1, w2, w3, w4, w5, w6, w7, w8, w9, w10, w11, w12, w13, w14, w15])"

text \<open>A word in memory and the bytes it occupies.\<close>

definition load32 :: "bytes \<Rightarrow> u32" where
  "load32 b = foldr (\<lambda>x w. push_bit 8 w OR ucast x) b 0"

definition store32 :: "u32 \<Rightarrow> bytes" where
  "store32 w = [ucast w, ucast (drop_bit 8 w), ucast (drop_bit 16 w), ucast (drop_bit 24 w)]"

definition chunk_words :: "bytes \<Rightarrow> u32 list" where
  "chunk_words b = map (\<lambda>i. load32 (take 4 (drop (4 * i) b))) [0..<16]"

definition secp256k1_sha256_transform :: "u32 list \<Rightarrow> bytes \<Rightarrow> u32 list" where
  "secp256k1_sha256_transform s chunk =
     (let v = (s ! 0, s ! 1, s ! 2, s ! 3, s ! 4, s ! 5, s ! 6, s ! 7);
          w = map BE32 (chunk_words chunk);
          v = rounds8 v ([0x428a2f98, 0x71374491, 0xb5c0fbcf, 0xe9b5dba5] @ [0x3956c25b, 0x59f111f1, 0x923f82a4, 0xab1c5ed5]) (take 8 w);
          v = rounds8 v ([0xd807aa98, 0x12835b01, 0x243185be, 0x550c7dc3] @ [0x72be5d74, 0x80deb1fe, 0x9bdc06a7, 0xc19bf174]) (drop 8 w);
          w = schedule16 w;
          v = rounds8 v ([0xe49b69c1, 0xefbe4786, 0x0fc19dc6, 0x240ca1cc] @ [0x2de92c6f, 0x4a7484aa, 0x5cb0a9dc, 0x76f988da]) (take 8 w);
          v = rounds8 v ([0x983e5152, 0xa831c66d, 0xb00327c8, 0xbf597fc7] @ [0xc6e00bf3, 0xd5a79147, 0x06ca6351, 0x14292967]) (drop 8 w);
          w = schedule16 w;
          v = rounds8 v ([0x27b70a85, 0x2e1b2138, 0x4d2c6dfc, 0x53380d13] @ [0x650a7354, 0x766a0abb, 0x81c2c92e, 0x92722c85]) (take 8 w);
          v = rounds8 v ([0xa2bfe8a1, 0xa81a664b, 0xc24b8b70, 0xc76c51a3] @ [0xd192e819, 0xd6990624, 0xf40e3585, 0x106aa070]) (drop 8 w);
          w = schedule16 w;
          v = rounds8 v ([0x19a4c116, 0x1e376c08, 0x2748774c, 0x34b0bcb5] @ [0x391c0cb3, 0x4ed8aa4a, 0x5b9cca4f, 0x682e6ff3]) (take 8 w);
          v = rounds8 v ([0x748f82ee, 0x78a5636f, 0x84c87814, 0x8cc70208] @ [0x90befffa, 0xa4506ceb, 0xbef9a3f7, 0xc67178f2]) (drop 8 w);
          (a, b, c, d, e, f, g, h) = v
      in [s ! 0 + a, s ! 1 + b, s ! 2 + c, s ! 3 + d, s ! 4 + e, s ! 5 + f, s ! 6 + g, s ! 7 + h])"

section \<open>Streaming\<close>

definition sha256_iv :: "u32 list" where
  "sha256_iv = [0x6a09e667, 0xbb67ae85, 0x3c6ef372, 0xa54ff53a] @ [0x510e527f, 0x9b05688c, 0x1f83d9ab, 0x5be0cd19]"

text \<open>The buffer is left as it was; the code does not initialize it.\<close>

definition secp256k1_sha256_initialize :: "sha256 \<Rightarrow> sha256" where
  "secp256k1_sha256_initialize h = h\<lparr>sh := sha256_iv, nbytes := 0\<rparr>"

definition memcpy :: "bytes \<Rightarrow> nat \<Rightarrow> bytes \<Rightarrow> bytes" where
  "memcpy dst off xs = take off dst @ xs @ drop (off + length xs) dst"

function sha_write_loop :: "u32 list \<Rightarrow> bytes \<Rightarrow> nat \<Rightarrow> bytes \<Rightarrow> u32 list \<times> bytes" where
  "sha_write_loop s b bufsize data =
     (if bufsize + length data \<ge> 64 then
        let chunk_len = 64 - bufsize;
            b = memcpy b bufsize (take chunk_len data)
        in sha_write_loop (secp256k1_sha256_transform s b) b 0 (drop chunk_len data)
      else (s, if data \<noteq> [] then memcpy b bufsize data else b))"
  by pat_completeness auto

termination sha_write_loop
  by (relation "measure (\<lambda>(s, b, n, d). n + length d)") auto

declare sha_write_loop.simps [simp del]

definition secp256k1_sha256_write :: "sha256 \<Rightarrow> bytes \<Rightarrow> sha256" where
  "secp256k1_sha256_write h data =
     (let bufsize = nbytes h AND 0x3F;
          (s, b) = sha_write_loop (sh h) (buf h) (unat bufsize) data
      in h\<lparr>nbytes := nbytes h + word_of_nat (length data), sh := s, buf := b\<rparr>)"

text \<open>\<open>BE32\<close> is applied to a 64-bit number here; its masks keep the low 32 bits.\<close>

definition sha_pad :: bytes where
  "sha_pad = 0x80 # replicate 63 0"

definition secp256k1_sha256_finalize :: "sha256 \<Rightarrow> sha256 \<times> bytes" where
  "secp256k1_sha256_finalize h =
     (let sizedesc0 = BE32 (ucast (drop_bit 29 (nbytes h)));
          sizedesc1 = BE32 (ucast (push_bit 3 (nbytes h)));
          h = secp256k1_sha256_write h (take (unat (1 + ((119 - (nbytes h mod 64)) mod 64))) sha_pad);
          h = secp256k1_sha256_write h (store32 sizedesc0 @ store32 sizedesc1);
          out = concat (map (\<lambda>x. store32 (BE32 x)) (sh h))
      in (h\<lparr>sh := replicate 8 0\<rparr>, out))"

section \<open>HMAC\<close>

text \<open>\<open>m\<close> is the memory of the local \<open>secp256k1_sha256\<close>, with whatever its buffer holds.\<close>

definition hmac_rkey :: "sha256 \<Rightarrow> bytes \<Rightarrow> bytes" where
  "hmac_rkey m key =
     (if length key \<le> 64 then key @ replicate (64 - length key) 0
      else snd (secp256k1_sha256_finalize (secp256k1_sha256_write (secp256k1_sha256_initialize m) key)) @ replicate 32 0)"

definition secp256k1_hmac_sha256_initialize :: "sha256 \<Rightarrow> hmac_sha256 \<Rightarrow> bytes \<Rightarrow> hmac_sha256" where
  "secp256k1_hmac_sha256_initialize m h key =
     (let rkey = hmac_rkey m key;
          rkey = map (\<lambda>b. b XOR 0x5c) rkey;
          h = h\<lparr>outer := secp256k1_sha256_write (secp256k1_sha256_initialize (outer h)) rkey\<rparr>;
          rkey = map (\<lambda>b. b XOR (0x5c XOR 0x36)) rkey
      in h\<lparr>inner := secp256k1_sha256_write (secp256k1_sha256_initialize (inner h)) rkey\<rparr>)"

definition secp256k1_hmac_sha256_write :: "hmac_sha256 \<Rightarrow> bytes \<Rightarrow> hmac_sha256" where
  "secp256k1_hmac_sha256_write h data = h\<lparr>inner := secp256k1_sha256_write (inner h) data\<rparr>"

definition secp256k1_hmac_sha256_finalize :: "hmac_sha256 \<Rightarrow> hmac_sha256 \<times> bytes" where
  "secp256k1_hmac_sha256_finalize h =
     (let (i, temp) = secp256k1_sha256_finalize (inner h);
          ot = secp256k1_sha256_write (outer h) temp;
          (ot, out) = secp256k1_sha256_finalize ot
      in (h\<lparr>inner := i, outer := ot\<rparr>, out))"

section \<open>The generator of RFC 6979\<close>

text \<open>A message authenticated in one go: initialize, the writes, finalize, on a local \<open>hmac\<close>
  whose memory is \<open>m\<close>.\<close>

definition hmac_parts :: "sha256 \<Rightarrow> hmac_sha256 \<Rightarrow> bytes \<Rightarrow> bytes list \<Rightarrow> hmac_sha256 \<times> bytes" where
  "hmac_parts m h key parts =
     secp256k1_hmac_sha256_finalize (fold (\<lambda>p h. secp256k1_hmac_sha256_write h p) parts (secp256k1_hmac_sha256_initialize m h key))"

definition secp256k1_rfc6979_hmac_sha256_initialize :: "sha256 \<Rightarrow> hmac_sha256 \<Rightarrow> bytes \<Rightarrow> rfc6979" where
  "secp256k1_rfc6979_hmac_sha256_initialize m hmac key =
     (let v = replicate 32 0x01;
          k = replicate 32 0x00;
          (hmac, k) = hmac_parts m hmac k [v, [0x00], key];
          (hmac, v) = hmac_parts m hmac k [v];
          (hmac, k) = hmac_parts m hmac k [v, [0x01], key];
          (hmac, v) = hmac_parts m hmac k [v]
      in \<lparr>rv = v, rk = k, retry = False\<rparr>)"

function rfc6979_loop :: "sha256 \<Rightarrow> hmac_sha256 \<Rightarrow> bytes \<Rightarrow> bytes \<Rightarrow> nat \<Rightarrow> bytes \<times> bytes" where
  "rfc6979_loop m hmac k v outlen =
     (if outlen > 0 then
        let (hm, v) = hmac_parts m hmac k [v];
            now = (if outlen > 32 then 32 else outlen);
            (v', rest) = rfc6979_loop m hmac k v (outlen - now)
        in (v', take now v @ rest)
      else (v, []))"
  by pat_completeness auto

termination rfc6979_loop
  by (relation "measure (\<lambda>(m, h, k, v, n). n)") auto

declare rfc6979_loop.simps [simp del]

definition secp256k1_rfc6979_hmac_sha256_generate :: "sha256 \<Rightarrow> hmac_sha256 \<Rightarrow> rfc6979 \<Rightarrow> nat \<Rightarrow> rfc6979 \<times> bytes" where
  "secp256k1_rfc6979_hmac_sha256_generate m hmac rng outlen =
     (let (k, v) = (if retry rng then
                      let (hmac, k) = hmac_parts m hmac (rk rng) [rv rng, [0x00]];
                          (hmac, v) = hmac_parts m hmac k [rv rng]
                      in (k, v)
                    else (rk rng, rv rng));
          (v, out) = rfc6979_loop m hmac k v outlen
      in (\<lparr>rv = v, rk = k, retry = True\<rparr>, out))"

definition secp256k1_rfc6979_hmac_sha256_finalize :: "rfc6979 \<Rightarrow> rfc6979" where
  "secp256k1_rfc6979_hmac_sha256_finalize rng = \<lparr>rv = replicate 32 0, rk = replicate 32 0, retry = False\<rparr>"

end
