(* ===== verification/Sha256_Correct.thy ===== *)
theory Sha256_Correct
  imports Sha256
begin

text \<open>
  The streaming code computes SHA-256. The reference follows the standard (FIPS 180-4): a message
  schedule of 64 words, 64 steps that shift the eight working variables, and a message padded to
  whole blocks. HMAC and the generator of RFC 6979 are then given by their defining equations.
\<close>

section \<open>Reference\<close>

text \<open>
  The constants of the standard: the first 32 bits of the fractional parts of the cube roots of the
  first 64 primes, and of the square roots of the first eight for the initial value.
\<close>

definition iroot :: "nat \<Rightarrow> nat \<Rightarrow> nat" where
  "iroot k n = Max {c \<in> {..n}. c ^ k \<le> n}"

definition sha_primes :: "nat list" where
  "sha_primes =
     [2, 3, 5, 7, 11, 13, 17, 19, 23, 29, 31, 37, 41, 43, 47, 53] @
     [59, 61, 67, 71, 73, 79, 83, 89, 97, 101, 103, 107, 109, 113, 127, 131] @
     [137, 139, 149, 151, 157, 163, 167, 173, 179, 181, 191, 193, 197, 199, 211, 223] @
     [227, 229, 233, 239, 241, 251, 257, 263, 269, 271, 277, 281, 283, 293, 307, 311]"

definition sha_K :: "u32 list" where
  "sha_K = map (\<lambda>p. word_of_nat (iroot 3 (p * 2 ^ 96))) sha_primes"

definition sha_H0 :: "u32 list" where
  "sha_H0 = map (\<lambda>p. word_of_nat (iroot 2 (p * 2 ^ 64))) (take 8 sha_primes)"

lemma iroot_eqI:
  assumes "0 < k" "c ^ k \<le> n" "n < (c + 1) ^ k"
  shows "iroot k n = c"
  unfolding iroot_def
proof (rule Max_eqI)
  have "finite {..n}" by simp
  then show "finite {c \<in> {..n}. c ^ k \<le> n}" by (rule finite_subset [rotated]) auto
  show "d \<le> c" if "d \<in> {c \<in> {..n}. c ^ k \<le> n}" for d
  proof (rule ccontr)
    assume "\<not> d \<le> c"
    then have "(c + 1) ^ k \<le> d ^ k" by (intro power_mono) auto
    then show False using that assms(3) by simp
  qed
  have "c \<le> c ^ k" using assms(1) by (cases c) (auto intro: self_le_power)
  then show "c \<in> {c \<in> {..n}. c ^ k \<le> n}" using assms(2) by simp
qed

lemma sha_cube_roots:
  "iroot 3 (2 * 2 ^ 96) = 0x1428a2f98"
  "iroot 3 (3 * 2 ^ 96) = 0x171374491"
  "iroot 3 (5 * 2 ^ 96) = 0x1b5c0fbcf"
  "iroot 3 (7 * 2 ^ 96) = 0x1e9b5dba5"
  "iroot 3 (11 * 2 ^ 96) = 0x23956c25b"
  "iroot 3 (13 * 2 ^ 96) = 0x259f111f1"
  "iroot 3 (17 * 2 ^ 96) = 0x2923f82a4"
  "iroot 3 (19 * 2 ^ 96) = 0x2ab1c5ed5"
  "iroot 3 (23 * 2 ^ 96) = 0x2d807aa98"
  "iroot 3 (29 * 2 ^ 96) = 0x312835b01"
  "iroot 3 (31 * 2 ^ 96) = 0x3243185be"
  "iroot 3 (37 * 2 ^ 96) = 0x3550c7dc3"
  "iroot 3 (41 * 2 ^ 96) = 0x372be5d74"
  "iroot 3 (43 * 2 ^ 96) = 0x380deb1fe"
  "iroot 3 (47 * 2 ^ 96) = 0x39bdc06a7"
  "iroot 3 (53 * 2 ^ 96) = 0x3c19bf174"
  "iroot 3 (59 * 2 ^ 96) = 0x3e49b69c1"
  "iroot 3 (61 * 2 ^ 96) = 0x3efbe4786"
  "iroot 3 (67 * 2 ^ 96) = 0x40fc19dc6"
  "iroot 3 (71 * 2 ^ 96) = 0x4240ca1cc"
  "iroot 3 (73 * 2 ^ 96) = 0x42de92c6f"
  "iroot 3 (79 * 2 ^ 96) = 0x44a7484aa"
  "iroot 3 (83 * 2 ^ 96) = 0x45cb0a9dc"
  "iroot 3 (89 * 2 ^ 96) = 0x476f988da"
  "iroot 3 (97 * 2 ^ 96) = 0x4983e5152"
  "iroot 3 (101 * 2 ^ 96) = 0x4a831c66d"
  "iroot 3 (103 * 2 ^ 96) = 0x4b00327c8"
  "iroot 3 (107 * 2 ^ 96) = 0x4bf597fc7"
  "iroot 3 (109 * 2 ^ 96) = 0x4c6e00bf3"
  "iroot 3 (113 * 2 ^ 96) = 0x4d5a79147"
  "iroot 3 (127 * 2 ^ 96) = 0x506ca6351"
  "iroot 3 (131 * 2 ^ 96) = 0x514292967"
  "iroot 3 (137 * 2 ^ 96) = 0x527b70a85"
  "iroot 3 (139 * 2 ^ 96) = 0x52e1b2138"
  "iroot 3 (149 * 2 ^ 96) = 0x54d2c6dfc"
  "iroot 3 (151 * 2 ^ 96) = 0x553380d13"
  "iroot 3 (157 * 2 ^ 96) = 0x5650a7354"
  "iroot 3 (163 * 2 ^ 96) = 0x5766a0abb"
  "iroot 3 (167 * 2 ^ 96) = 0x581c2c92e"
  "iroot 3 (173 * 2 ^ 96) = 0x592722c85"
  "iroot 3 (179 * 2 ^ 96) = 0x5a2bfe8a1"
  "iroot 3 (181 * 2 ^ 96) = 0x5a81a664b"
  "iroot 3 (191 * 2 ^ 96) = 0x5c24b8b70"
  "iroot 3 (193 * 2 ^ 96) = 0x5c76c51a3"
  "iroot 3 (197 * 2 ^ 96) = 0x5d192e819"
  "iroot 3 (199 * 2 ^ 96) = 0x5d6990624"
  "iroot 3 (211 * 2 ^ 96) = 0x5f40e3585"
  "iroot 3 (223 * 2 ^ 96) = 0x6106aa070"
  "iroot 3 (227 * 2 ^ 96) = 0x619a4c116"
  "iroot 3 (229 * 2 ^ 96) = 0x61e376c08"
  "iroot 3 (233 * 2 ^ 96) = 0x62748774c"
  "iroot 3 (239 * 2 ^ 96) = 0x634b0bcb5"
  "iroot 3 (241 * 2 ^ 96) = 0x6391c0cb3"
  "iroot 3 (251 * 2 ^ 96) = 0x64ed8aa4a"
  "iroot 3 (257 * 2 ^ 96) = 0x65b9cca4f"
  "iroot 3 (263 * 2 ^ 96) = 0x6682e6ff3"
  "iroot 3 (269 * 2 ^ 96) = 0x6748f82ee"
  "iroot 3 (271 * 2 ^ 96) = 0x678a5636f"
  "iroot 3 (277 * 2 ^ 96) = 0x684c87814"
  "iroot 3 (281 * 2 ^ 96) = 0x68cc70208"
  "iroot 3 (283 * 2 ^ 96) = 0x690befffa"
  "iroot 3 (293 * 2 ^ 96) = 0x6a4506ceb"
  "iroot 3 (307 * 2 ^ 96) = 0x6bef9a3f7"
  "iroot 3 (311 * 2 ^ 96) = 0x6c67178f2"
  by (rule iroot_eqI; simp)+

lemma sha_square_roots:
  "iroot 2 (2 * 2 ^ 64) = 0x16a09e667"
  "iroot 2 (3 * 2 ^ 64) = 0x1bb67ae85"
  "iroot 2 (5 * 2 ^ 64) = 0x23c6ef372"
  "iroot 2 (7 * 2 ^ 64) = 0x2a54ff53a"
  "iroot 2 (11 * 2 ^ 64) = 0x3510e527f"
  "iroot 2 (13 * 2 ^ 64) = 0x39b05688c"
  "iroot 2 (17 * 2 ^ 64) = 0x41f83d9ab"
  "iroot 2 (19 * 2 ^ 64) = 0x45be0cd19"
  by (rule iroot_eqI; simp)+

lemma sha256_iv_H0: "sha256_iv = sha_H0"
proof -
  have "take 8 sha_primes = [2, 3, 5, 7, 11, 13, 17, 19]" by (simp add: sha_primes_def)
  then show ?thesis unfolding sha_H0_def by (simp only: list.map sha_square_roots) (simp add: sha256_iv_def)
qed

fun W :: "(nat \<Rightarrow> u32) \<Rightarrow> nat \<Rightarrow> u32" where
  "W m t = (if t < 16 then m t else sigma1 (W m (t - 2)) + W m (t - 7) + sigma0 (W m (t - 15)) + W m (t - 16))"

declare W.simps [simp del]

fun sha_step :: "u32 \<Rightarrow> u32 \<Rightarrow> sha_vars \<Rightarrow> sha_vars" where
  "sha_step k w (a, b, c, d, e, f, g, h) =
     (let (d', h') = Round a b c d e f g h k w in (h', a, b, c, d', e, f, g))"

definition block_word :: "bytes \<Rightarrow> nat \<Rightarrow> u32" where
  "block_word b t = word_of_nat (of_be (take 4 (drop (4 * t) b)))"

definition sha_compress :: "u32 list \<Rightarrow> bytes \<Rightarrow> u32 list" where
  "sha_compress s b =
     (let (a', b', c', d', e', f', g', h') =
        fold (\<lambda>t. sha_step (sha_K ! t) (W (block_word b) t)) [0..<64]
          (s ! 0, s ! 1, s ! 2, s ! 3, s ! 4, s ! 5, s ! 6, s ! 7)
      in [s ! 0 + a', s ! 1 + b', s ! 2 + c', s ! 3 + d', s ! 4 + e', s ! 5 + f', s ! 6 + g', s ! 7 + h'])"

function sha_blocks :: "u32 list \<Rightarrow> bytes \<Rightarrow> u32 list" where
  "sha_blocks s m = (if 64 \<le> length m then sha_blocks (sha_compress s (take 64 m)) (drop 64 m) else s)"
  by pat_completeness auto

termination sha_blocks
  by (relation "measure (\<lambda>(s, m). length m)") auto

declare sha_blocks.simps [simp del]

definition sha_padded :: "bytes \<Rightarrow> bytes" where
  "sha_padded m = m @ [0x80] @ replicate ((119 - length m mod 64) mod 64) 0 @ to_be 8 (8 * length m)"

definition sha256_spec :: "bytes \<Rightarrow> bytes" where
  "sha256_spec m = concat (map (\<lambda>x. to_be 4 (unat x)) (sha_blocks sha_H0 (sha_padded m)))"

section \<open>The compression function\<close>

lemma rounds8_steps: "rounds8 v k w = fold (\<lambda>i. sha_step (k ! i) (w ! i)) [0..<8] v"
proof -
  obtain a b c d e f g h where v: "v = (a, b, c, d, e, f, g, h)" by (metis surj_pair)
  obtain x0 y0 where r0: "Round a b c d e f g h (k ! 0) (w ! 0) = (x0, y0)" by force
  obtain x1 y1 where r1: "Round y0 a b c x0 e f g (k ! 1) (w ! 1) = (x1, y1)" by force
  obtain x2 y2 where r2: "Round y1 y0 a b x1 x0 e f (k ! 2) (w ! 2) = (x2, y2)" by force
  obtain x3 y3 where r3: "Round y2 y1 y0 a x2 x1 x0 e (k ! 3) (w ! 3) = (x3, y3)" by force
  obtain x4 y4 where r4: "Round y3 y2 y1 y0 x3 x2 x1 x0 (k ! 4) (w ! 4) = (x4, y4)" by force
  obtain x5 y5 where r5: "Round y4 y3 y2 y1 x4 x3 x2 x1 (k ! 5) (w ! 5) = (x5, y5)" by force
  obtain x6 y6 where r6: "Round y5 y4 y3 y2 x5 x4 x3 x2 (k ! 6) (w ! 6) = (x6, y6)" by force
  obtain x7 y7 where r7: "Round y6 y5 y4 y3 x6 x5 x4 x3 (k ! 7) (w ! 7) = (x7, y7)" by force
  have eight: "[0..<8] = [0, 1, 2, 3, 4, 5, 6, 7]" by (simp add: upt_conv_Cons)
  show ?thesis
    unfolding v rounds8_def eight
    by (simp only: fold.simps comp_apply id_apply sha_step.simps Let_def prod.case r0 r1 r2 r3 r4 r5 r6 r7)
qed

lemma W_step: "W m (t + 16) = W m t + (sigma1 (W m (t + 14)) + W m (t + 9) + sigma0 (W m (t + 1)))"
  using W.simps [of m "t + 16"] by (simp add: algebra_simps)

definition words_at :: "(nat \<Rightarrow> u32) \<Rightarrow> nat \<Rightarrow> u32 list" where
  "words_at m n = map (\<lambda>i. W m (n + i)) [0..<16]"

lemma schedule16_words: "schedule16 (words_at m n) = words_at m (n + 16)"
proof -
  have w: "words_at m n ! i = W m (n + i)" if "i < 16" for i n using that by (simp add: words_at_def)
  have l: "[0..<16] = [0, 1, 2, 3, 4, 5, 6, 7, 8, 9, 10, 11, 12, 13, 14, 15 :: nat]" by (simp add: upt_conv_Cons)
  have e0: "W m n + (sigma1 (W m (n + 14)) + W m (n + 9) + sigma0 (W m (n + 1))) = W m (n + 16)" using W_step [of m n] by simp
  have e1: "W m (n + 1) + (sigma1 (W m (n + 15)) + W m (n + 10) + sigma0 (W m (n + 2))) = W m (n + 17)" using W_step [of m "n + 1"] by (simp only: add.assoc arith_simps one_plus_numeral one_add_one numeral_plus_one)
  have e2: "W m (n + 2) + (sigma1 (W m (n + 16)) + W m (n + 11) + sigma0 (W m (n + 3))) = W m (n + 18)" using W_step [of m "n + 2"] by (simp only: add.assoc arith_simps one_plus_numeral one_add_one numeral_plus_one)
  have e3: "W m (n + 3) + (sigma1 (W m (n + 17)) + W m (n + 12) + sigma0 (W m (n + 4))) = W m (n + 19)" using W_step [of m "n + 3"] by (simp only: add.assoc arith_simps one_plus_numeral one_add_one numeral_plus_one)
  have e4: "W m (n + 4) + (sigma1 (W m (n + 18)) + W m (n + 13) + sigma0 (W m (n + 5))) = W m (n + 20)" using W_step [of m "n + 4"] by (simp only: add.assoc arith_simps one_plus_numeral one_add_one numeral_plus_one)
  have e5: "W m (n + 5) + (sigma1 (W m (n + 19)) + W m (n + 14) + sigma0 (W m (n + 6))) = W m (n + 21)" using W_step [of m "n + 5"] by (simp only: add.assoc arith_simps one_plus_numeral one_add_one numeral_plus_one)
  have e6: "W m (n + 6) + (sigma1 (W m (n + 20)) + W m (n + 15) + sigma0 (W m (n + 7))) = W m (n + 22)" using W_step [of m "n + 6"] by (simp only: add.assoc arith_simps one_plus_numeral one_add_one numeral_plus_one)
  have e7: "W m (n + 7) + (sigma1 (W m (n + 21)) + W m (n + 16) + sigma0 (W m (n + 8))) = W m (n + 23)" using W_step [of m "n + 7"] by (simp only: add.assoc arith_simps one_plus_numeral one_add_one numeral_plus_one)
  have e8: "W m (n + 8) + (sigma1 (W m (n + 22)) + W m (n + 17) + sigma0 (W m (n + 9))) = W m (n + 24)" using W_step [of m "n + 8"] by (simp only: add.assoc arith_simps one_plus_numeral one_add_one numeral_plus_one)
  have e9: "W m (n + 9) + (sigma1 (W m (n + 23)) + W m (n + 18) + sigma0 (W m (n + 10))) = W m (n + 25)" using W_step [of m "n + 9"] by (simp only: add.assoc arith_simps one_plus_numeral one_add_one numeral_plus_one)
  have e10: "W m (n + 10) + (sigma1 (W m (n + 24)) + W m (n + 19) + sigma0 (W m (n + 11))) = W m (n + 26)" using W_step [of m "n + 10"] by (simp only: add.assoc arith_simps one_plus_numeral one_add_one numeral_plus_one)
  have e11: "W m (n + 11) + (sigma1 (W m (n + 25)) + W m (n + 20) + sigma0 (W m (n + 12))) = W m (n + 27)" using W_step [of m "n + 11"] by (simp only: add.assoc arith_simps one_plus_numeral one_add_one numeral_plus_one)
  have e12: "W m (n + 12) + (sigma1 (W m (n + 26)) + W m (n + 21) + sigma0 (W m (n + 13))) = W m (n + 28)" using W_step [of m "n + 12"] by (simp only: add.assoc arith_simps one_plus_numeral one_add_one numeral_plus_one)
  have e13: "W m (n + 13) + (sigma1 (W m (n + 27)) + W m (n + 22) + sigma0 (W m (n + 14))) = W m (n + 29)" using W_step [of m "n + 13"] by (simp only: add.assoc arith_simps one_plus_numeral one_add_one numeral_plus_one)
  have e14: "W m (n + 14) + (sigma1 (W m (n + 28)) + W m (n + 23) + sigma0 (W m (n + 15))) = W m (n + 30)" using W_step [of m "n + 14"] by (simp only: add.assoc arith_simps one_plus_numeral one_add_one numeral_plus_one)
  have e15: "W m (n + 15) + (sigma1 (W m (n + 29)) + W m (n + 24) + sigma0 (W m (n + 16))) = W m (n + 31)" using W_step [of m "n + 15"] by (simp only: add.assoc arith_simps one_plus_numeral one_add_one numeral_plus_one)
  note e = e0 e1 e2 e3 e4 e5 e6 e7 e8 e9 e10 e11 e12 e13 e14 e15
  have r: "words_at m (n + 16) = [W m (n + 16), W m (n + 17), W m (n + 18), W m (n + 19), W m (n + 20), W m (n + 21), W m (n + 22),
    W m (n + 23), W m (n + 24), W m (n + 25), W m (n + 26), W m (n + 27), W m (n + 28), W m (n + 29), W m (n + 30), W m (n + 31)]"
    unfolding words_at_def l by (simp add: add.assoc)
  have w0: "words_at m n ! 0 = W m n" using w [of 0 n] by simp
  show ?thesis unfolding r schedule16_def
    by (simp only: w0 w [of 1] w [of 2] w [of 3] w [of 4] w [of 5] w [of 6] w [of 7] w [of 8] w [of 9] w [of 10] w [of 11] w [of 12]
      w [of 13] w [of 14] w [of 15] rel_simps e Let_def cong: let_weak_cong)
qed

text \<open>Swapping the bytes of a word.\<close>

lemma BE32_alt:
  "BE32 p = push_bit 24 (take_bit 8 p) OR (push_bit 16 (take_bit 8 (drop_bit 8 p)) OR
     (push_bit 8 (take_bit 8 (drop_bit 16 p)) OR take_bit 8 (drop_bit 24 p)))"
proof -
  have m: "(0xFF :: u32) = mask 8" "(0xFF00 :: u32) = push_bit 8 (mask 8)" "(0xFF0000 :: u32) = push_bit 16 (mask 8)"
    "(0xFF000000 :: u32) = push_bit 24 (mask 8)"
    by (simp_all add: mask_eq_exp_minus_1 push_bit_eq_mult)
  have "push_bit 8 (p AND push_bit 8 (mask 8)) = push_bit 16 (take_bit 8 (drop_bit 8 p))"
    by (rule bit_eqI) (auto simp: bit_simps)
  moreover have "drop_bit 8 (p AND push_bit 16 (mask 8)) = push_bit 8 (take_bit 8 (drop_bit 16 p))"
    by (rule bit_eqI) (auto simp: bit_simps)
  moreover have "drop_bit 24 (p AND push_bit 24 (mask 8)) = take_bit 8 (drop_bit 24 p)"
    by (rule bit_eqI) (auto simp: bit_simps)
  moreover have "push_bit 24 (p AND mask 8) = push_bit 24 (take_bit 8 p)" by (simp only: take_bit_eq_mask)
  ultimately show ?thesis unfolding BE32_def m by (simp only: or.assoc)
qed

lemma BE32_val:
  "unat (BE32 p) = (unat p mod 256) * 2 ^ 24 + ((unat p div 2 ^ 8 mod 256) * 2 ^ 16 +
     ((unat p div 2 ^ 16 mod 256) * 2 ^ 8 + unat p div 2 ^ 24))"
proof -
  let ?t = "\<lambda>k. take_bit 8 (drop_bit k p)"
  have t: "unat (?t k) = unat p div 2 ^ k mod 256" for k
    by (simp only: unsigned_take_bit_eq unat_drop_bit_div) (simp add: take_bit_eq_mod)
  have t0: "unat (take_bit 8 p) = unat p mod 256" by (simp only: unsigned_take_bit_eq) (simp add: take_bit_eq_mod)
  have lt: "unat (?t k) < 2 ^ 8" "unat (take_bit 8 p) < 2 ^ 8" for k unfolding t t0 by simp_all
  have 1: "unat (push_bit 8 (?t 16) OR ?t 24) = unat (?t 16) * 2 ^ 8 + unat (?t 24)"
    using lt(1) [of 16] lt(1) [of 24] by (intro unat_or_push(1)) simp_all
  have 2: "unat (push_bit 16 (?t 8) OR (push_bit 8 (?t 16) OR ?t 24)) = unat (?t 8) * 2 ^ 16 + unat (push_bit 8 (?t 16) OR ?t 24)"
    using 1 lt(1) [of 8] lt(1) [of 16] lt(1) [of 24] by (intro unat_or_push(1)) simp_all
  have 3: "unat (BE32 p) = unat (take_bit 8 p) * 2 ^ 24 + unat (push_bit 16 (?t 8) OR (push_bit 8 (?t 16) OR ?t 24))"
    unfolding BE32_alt using 1 2 lt(1) [of 8] lt(1) [of 16] lt(1) [of 24] lt(2) by (intro unat_or_push(1)) simp_all
  have "unat p < 2 ^ 32" using unsigned_less [of p, where 'a = nat] by simp
  then have "unat p div 2 ^ 24 mod 256 = unat p div 2 ^ 24" by simp
  then show ?thesis unfolding 3 2 1 t t0 by simp
qed

lemma BE32_bytes:
  assumes "length b = 4"
  shows "BE32 (word_of_nat (of_le b)) = word_of_nat (of_be b)"
proof -
  obtain b0 b1 b2 b3 where b: "b = [b0, b1, b2, b3]" using assms by (auto simp: numeral_eq_Suc length_Suc_conv)
  have lt: "unat x < 256" for x :: u8 using unsigned_less [of x, where 'a = nat] by simp
  have "of_le b < 256 ^ 4" using of_le_bound [of b] assms by simp
  then have u: "unat (word_of_nat (of_le b) :: u32) = of_le b" by (simp add: unat_of_nat)
  have v: "of_le b = unat b0 + 256 * (unat b1 + 256 * (unat b2 + 256 * unat b3))" by (simp add: b)
  have d: "(x + 256 * y) div 256 = y" "(x + 256 * y) mod 256 = x" if "x < 256" for x y :: nat using that by auto
  have p: "(2 :: nat) ^ 8 = 256" "(2 :: nat) ^ 16 = 256 * 256" "(2 :: nat) ^ 24 = 256 * (256 * 256)" by simp_all
  have "unat (BE32 (word_of_nat (of_le b))) = of_be b"
    unfolding BE32_val u unfolding v p div_mult2_eq by (simp only: d lt) (simp add: of_be_def b)
  then show ?thesis by (metis word_nat_cast_unat)
qed

lemma load32_val: "length b \<le> 4 \<Longrightarrow> load32 b = word_of_nat (of_le b)"
proof (induction b)
  case (Cons x b)
  have "push_bit 8 w OR ucast x = push_bit 8 w + (ucast x :: u32)" for w :: u32
    by (rule disjunctive_add [symmetric]) (auto simp: bit_simps dest: bit_imp_le_length)
  then show ?case using Cons by (simp add: load32_def push_bit_eq_mult)
qed (simp add: load32_def)

lemma store32_val: "store32 w = to_le 4 (unat w)"
proof -
  have "(word_of_nat (unat (drop_bit k w)) :: u8) = ucast (drop_bit k w)" for k by simp
  then have "ucast (drop_bit k w) = (word_of_nat (unat w div 2 ^ k) :: u8)" for k by (metis unat_drop_bit_div)
  then have d: "ucast (drop_bit 8 w) = (word_of_nat (unat w div 2 ^ 8) :: u8)"
      "ucast (drop_bit 16 w) = (word_of_nat (unat w div 2 ^ 16) :: u8)" "ucast (drop_bit 24 w) = (word_of_nat (unat w div 2 ^ 24) :: u8)" by blast+
  show ?thesis unfolding store32_def to_le_4 d by (simp add: div_mult2_eq [symmetric])
qed

lemma BE32_out: "store32 (BE32 x) = to_be 4 (unat x)"
proof -
  have "unat x < 256 ^ 4" using unsigned_less [of x, where 'a = nat] by simp
  then have "word_of_nat (of_le (to_le 4 (unat x))) = x" by (simp add: of_le_to_le)
  then have "BE32 x = word_of_nat (of_be (to_le 4 (unat x)))" using BE32_bytes [of "to_le 4 (unat x)"] by simp
  moreover have "of_be (to_le 4 (unat x)) < 256 ^ 4" using of_be_bound [of "to_le 4 (unat x)"] by simp
  ultimately have "unat (BE32 x) = of_be (to_le 4 (unat x))" by (simp add: unat_of_nat)
  then have "to_le 4 (unat (BE32 x)) = to_le 4 (of_le (rev (to_le 4 (unat x))))" by (simp add: of_be_def)
  also have "\<dots> = rev (to_le 4 (unat x))" by (rule to_le_of_le_length) simp
  finally show ?thesis by (simp add: to_be_def store32_val)
qed

lemma chunk_words_W:
  assumes "length b = 64"
  shows "map BE32 (chunk_words b) = words_at (block_word b) 0"
  using assms by (auto simp: chunk_words_def words_at_def block_word_def W.simps load32_val intro!: BE32_bytes)

lemma rounds8_fold:
  assumes "\<And>i. i < 8 \<Longrightarrow> w ! i = W m (n + i)" "n + 8 \<le> 64"
  shows "rounds8 v (take 8 (drop n sha_K)) w = fold (\<lambda>t. sha_step (sha_K ! t) (W m t)) [n..<n + 8] v"
proof -
  have len: "length sha_K = 64" by (simp add: sha_K_def sha_primes_def)
  have "[n..<n + 8] = map (\<lambda>i. n + i) [0..<8]" using map_add_upt [of n 8] by (simp add: add.commute)
  then have "fold (\<lambda>t. sha_step (sha_K ! t) (W m t)) [n..<n + 8] v = fold (\<lambda>i. sha_step (sha_K ! (n + i)) (W m (n + i))) [0..<8] v"
    by (simp add: fold_map comp_def)
  also have "\<dots> = fold (\<lambda>i. sha_step (take 8 (drop n sha_K) ! i) (w ! i)) [0..<8] v"
    by (rule fold_cong) (use assms len in auto)
  finally show ?thesis by (simp only: rounds8_steps)
qed

lemma rounds16_fold:
  assumes "n + 16 \<le> 64"
  shows "rounds8 (rounds8 v (take 8 (drop n sha_K)) (take 8 (words_at m n))) (take 8 (drop (n + 8) sha_K)) (drop 8 (words_at m n)) =
    fold (\<lambda>t. sha_step (sha_K ! t) (W m t)) [n..<n + 16] v"
proof -
  have w: "i < 8 \<Longrightarrow> take 8 (words_at m n) ! i = W m (n + i)" "i < 8 \<Longrightarrow> drop 8 (words_at m n) ! i = W m (n + 8 + i)" for i
    by (simp_all add: words_at_def add.assoc)
  have 1: "rounds8 v (take 8 (drop n sha_K)) (take 8 (words_at m n)) = fold (\<lambda>t. sha_step (sha_K ! t) (W m t)) [n..<n + 8] v"
    by (rule rounds8_fold) (use w(1) assms in auto)
  have 2: "rounds8 v' (take 8 (drop (n + 8) sha_K)) (drop 8 (words_at m n)) = fold (\<lambda>t. sha_step (sha_K ! t) (W m t)) [n + 8..<n + 8 + 8] v'" for v'
    by (rule rounds8_fold) (use w(2) assms in auto)
  have "[n..<n + 16] = [n..<n + 8] @ [n + 8..<n + 8 + 8]" using upt_add_eq_append [of n "n + 8" 8] by (simp add: add.assoc)
  then show ?thesis unfolding 1 2 by simp
qed

lemma sha_K_rows:
  "take 8 (drop 0 sha_K) = [0x428a2f98, 0x71374491, 0xb5c0fbcf, 0xe9b5dba5] @ [0x3956c25b, 0x59f111f1, 0x923f82a4, 0xab1c5ed5]"
  "take 8 (drop 8 sha_K) = [0xd807aa98, 0x12835b01, 0x243185be, 0x550c7dc3] @ [0x72be5d74, 0x80deb1fe, 0x9bdc06a7, 0xc19bf174]"
  "take 8 (drop 16 sha_K) = [0xe49b69c1, 0xefbe4786, 0x0fc19dc6, 0x240ca1cc] @ [0x2de92c6f, 0x4a7484aa, 0x5cb0a9dc, 0x76f988da]"
  "take 8 (drop 24 sha_K) = [0x983e5152, 0xa831c66d, 0xb00327c8, 0xbf597fc7] @ [0xc6e00bf3, 0xd5a79147, 0x06ca6351, 0x14292967]"
  "take 8 (drop 32 sha_K) = [0x27b70a85, 0x2e1b2138, 0x4d2c6dfc, 0x53380d13] @ [0x650a7354, 0x766a0abb, 0x81c2c92e, 0x92722c85]"
  "take 8 (drop 40 sha_K) = [0xa2bfe8a1, 0xa81a664b, 0xc24b8b70, 0xc76c51a3] @ [0xd192e819, 0xd6990624, 0xf40e3585, 0x106aa070]"
  "take 8 (drop 48 sha_K) = [0x19a4c116, 0x1e376c08, 0x2748774c, 0x34b0bcb5] @ [0x391c0cb3, 0x4ed8aa4a, 0x5b9cca4f, 0x682e6ff3]"
  "take 8 (drop 56 sha_K) = [0x748f82ee, 0x78a5636f, 0x84c87814, 0x8cc70208] @ [0x90befffa, 0xa4506ceb, 0xbef9a3f7, 0xc67178f2]"
  unfolding sha_K_def sha_primes_def
  by (simp_all only: map_append list.map sha_cube_roots append.simps drop_Cons_numeral take_Cons_numeral drop0 take0
      pred_numeral_simps) simp_all

lemma transform_spec:
  assumes "length b = 64"
  shows "secp256k1_sha256_transform s b = sha_compress s b"
proof -
  note K = sha_K_rows
  let ?m = "block_word b" and ?v = "(s ! 0, s ! 1, s ! 2, s ! 3, s ! 4, s ! 5, s ! 6, s ! 7)"
  let ?f = "\<lambda>n v. fold (\<lambda>t. sha_step (sha_K ! t) (W ?m t)) [n..<n + 16] v"
  note s16 = schedule16_words [of ?m 0, simplified add_0] schedule16_words [of ?m 16, simplified arith_simps] schedule16_words [of ?m 32, simplified arith_simps]
  note r16 = rounds16_fold [of 0, simplified add_0 arith_simps rel_simps drop0] rounds16_fold [of 16, simplified arith_simps rel_simps] rounds16_fold [of 32, simplified arith_simps rel_simps] rounds16_fold [of 48, simplified arith_simps rel_simps]
  have "[0..<64] = [0..<16] @ [16..<32] @ [32..<48] @ [48..<64]"
    using upt_add_eq_append [of 0 16 48] upt_add_eq_append [of 16 32 32] upt_add_eq_append [of 32 48 16] by simp
  then show ?thesis
    unfolding secp256k1_sha256_transform_def sha_compress_def K [symmetric] chunk_words_W [OF assms] Let_def
    by (simp only: s16 r16 drop0 fold_append comp_apply)
qed

section \<open>Digests computed piece by piece\<close>

text \<open>
  What a streaming digest promises: \<open>rep m h\<close> says that \<open>h\<close> has absorbed \<open>m\<close>, \<open>mem\<close> that the memory
  of a state may be used for a new computation.
\<close>

locale digest =
  fixes rep :: "bytes \<Rightarrow> 'h \<Rightarrow> bool" and mem :: "'h \<Rightarrow> bool" and wr :: "'h \<Rightarrow> bytes \<Rightarrow> 'h"
    and fin :: "'h \<Rightarrow> 'h \<times> bytes" and spec :: "bytes \<Rightarrow> bytes" and lim :: nat
  assumes wr_rep: "rep m h \<Longrightarrow> rep (m @ d) (wr h d)"
    and fin_spec: "rep m h \<Longrightarrow> length m < lim \<Longrightarrow> snd (fin h) = spec m"
    and fin_mem: "rep m h \<Longrightarrow> mem (fst (fin h))"
begin

lemma fold_rep: "rep m h \<Longrightarrow> rep (m @ concat ds) (fold (\<lambda>d h. wr h d) ds h)"
proof (induction ds arbitrary: m h)
  case (Cons d ds)
  then show ?case using Cons.IH [OF wr_rep [OF Cons.prems, of d]] by simp
qed simp

lemma digest_spec: "rep m h \<Longrightarrow> length (m @ concat ds) < lim \<Longrightarrow> snd (fin (fold (\<lambda>d h. wr h d) ds h)) = spec (m @ concat ds)"
  by (rule fin_spec [OF fold_rep])

lemma digest_mem: "rep m h \<Longrightarrow> mem (fst (fin (fold (\<lambda>d h. wr h d) ds h)))"
  by (rule fin_mem [OF fold_rep])

end

section \<open>The streaming code\<close>

lemma drop_whole_blocks:
  "64 \<le> length m \<Longrightarrow> drop (64 * (length m div 64)) m = drop (64 * ((length m - 64) div 64)) (drop 64 m)"
proof -
  assume "64 \<le> length m"
  then have "length m div 64 = Suc ((length m - 64) div 64)" by (metis le_div_geq zero_less_numeral)
  then show ?thesis by (simp add: add.commute)
qed

lemma sha_blocks_append: "sha_blocks s (m @ d) = sha_blocks (sha_blocks s m) (drop (64 * (length m div 64)) m @ d)"
proof (induction s m rule: sha_blocks.induct)
  case (1 s m)
  show ?case
  proof (cases "64 \<le> length m")
    case True
    then show ?thesis using "1.IH" [OF True] sha_blocks.simps [of s "m @ d"] sha_blocks.simps [of s m] drop_whole_blocks [OF True]
      by simp
  next
    case False
    then show ?thesis using sha_blocks.simps [of s m] by simp
  qed
qed

lemma sha_write_loop_val:
  assumes "length b = 64" "n < 64"
  shows "fst (sha_write_loop s b n d) = sha_blocks s (take n b @ d) \<and> length (snd (sha_write_loop s b n d)) = 64 \<and>
    take ((n + length d) mod 64) (snd (sha_write_loop s b n d)) = drop (64 * ((n + length d) div 64)) (take n b @ d)"
  using assms
proof (induction s b n d rule: sha_write_loop.induct)
  case (1 s b n d)
  show ?case
  proof (cases "64 \<le> n + length d")
    case True
    define L where "L = take n b @ d"
    let ?b = "memcpy b n (take (64 - n) d)"
    have b: "?b = take 64 L" "length ?b = 64" using True "1.prems" by (simp_all add: memcpy_def L_def)
    have r: "drop (64 - n) d = drop 64 L" "n + length d = length L" "64 \<le> length L" using True "1.prems" by (simp_all add: L_def)
    let ?X = "sha_write_loop (sha_compress s ?b) ?b 0 (drop 64 L)"
    have X: "sha_write_loop s b n d = ?X"
      using True r(1) by (simp add: sha_write_loop.simps [of s b n d] Let_def transform_spec [OF b(2)])
    have "fst ?X = sha_blocks (sha_compress s ?b) (drop 64 L) \<and> length (snd ?X) = 64 \<and>
        take ((length L - 64) mod 64) (snd ?X) = drop (64 * ((length L - 64) div 64)) (drop 64 L)"
      using "1.IH" [OF True refl refl b(2)] unfolding r(1) transform_spec [OF b(2)] by (simp only: take_0 append_Nil add_0 length_drop rel_simps simp_thms)
    moreover have "sha_blocks s L = sha_blocks (sha_compress s ?b) (drop 64 L)"
      using sha_blocks.simps [of s L] r(3) b(1) by simp
    moreover have "length L mod 64 = (length L - 64) mod 64" using r(3) by (rule le_mod_geq)
    ultimately show ?thesis unfolding X L_def [symmetric] r(2) drop_whole_blocks [OF r(3)] by simp
  next
    case False
    then show ?thesis using "1.prems" sha_blocks.simps [of s "take n b @ d"]
      by (auto simp: sha_write_loop.simps [of s b n d] memcpy_def)
  qed
qed

definition sha_mem :: "sha256 \<Rightarrow> bool" where
  "sha_mem h = (length (buf h) = 64)"

definition sha_ok :: "bytes \<Rightarrow> sha256 \<Rightarrow> bool" where
  "sha_ok m h = (nbytes h = word_of_nat (length m) \<and> length (buf h) = 64 \<and> sh h = sha_blocks sha256_iv m \<and>
     take (length m mod 64) (buf h) = drop (64 * (length m div 64)) m)"

lemma sha_initialize_ok: "sha_mem h \<Longrightarrow> sha_ok [] (secp256k1_sha256_initialize h)"
  by (simp add: sha_mem_def sha_ok_def secp256k1_sha256_initialize_def sha_blocks.simps)

lemma word_mod_64: "unat (word_of_nat n AND 0x3F :: u64) = n mod 64"
proof -
  have "(0x3F :: u64) = mask 6" by (simp add: mask_eq_exp_minus_1)
  then have "unat (word_of_nat n AND 0x3F :: u64) = unat (word_of_nat n :: u64) mod 2 ^ 6" by (simp only: unat_and_mask_eq)
  also have "\<dots> = n mod 2 ^ 64 mod 2 ^ 6" by (simp only: unat_of_nat) simp
  also have "\<dots> = n mod 64" using mod_mod_cancel [of "64 :: nat" "2 ^ 64" n] by simp
  finally show ?thesis .
qed

lemma sha_write_ok:
  assumes "sha_ok m h"
  shows "sha_ok (m @ d) (secp256k1_sha256_write h d)"
proof -
  let ?n = "length m mod 64" and ?t = "drop (64 * (length m div 64)) m"
  have h: "nbytes h = word_of_nat (length m)" "length (buf h) = 64" "sh h = sha_blocks sha256_iv m" "take ?n (buf h) = ?t"
    using assms by (auto simp: sha_ok_def)
  let ?r = "sha_write_loop (sh h) (buf h) ?n d"
  have w: "secp256k1_sha256_write h d = h\<lparr>nbytes := word_of_nat (length (m @ d)), sh := fst ?r, buf := snd ?r\<rparr>"
    by (simp add: secp256k1_sha256_write_def h(1) word_mod_64 case_prod_beta Let_def)
  note v = sha_write_loop_val [OF h(2), of ?n "sh h" d, unfolded h(4)]
  have "length m + length d = ?n + length d + 64 * (length m div 64)" by simp
  then have dm: "(length m + length d) mod 64 = (?n + length d) mod 64"
      "(length m + length d) div 64 = length m div 64 + (?n + length d) div 64"
    by (simp_all only: mod_mult_self2 div_mult_self2 zero_neq_numeral not_False_eq_True)
  have "drop (64 * (length (m @ d) div 64)) (m @ d) = drop (64 * ((?n + length d) div 64)) (drop (64 * (length m div 64)) (m @ d))"
    unfolding length_append dm(2) drop_drop by (simp only: add_mult_distrib2 add.commute)
  also have "drop (64 * (length m div 64)) (m @ d) = ?t @ d" by simp
  finally show ?thesis using v by (simp add: w sha_ok_def sha_blocks_append [of sha256_iv m d] h(3) dm(1))
qed

section \<open>Padding\<close>

lemma to_le_add: "to_le (m + n) v = to_le m v @ to_le n (v div 256 ^ m)"
  by (induction m arbitrary: v) (simp_all add: div_mult2_eq)

lemma to_le_cong: "v mod 256 ^ n = v' mod 256 ^ n \<Longrightarrow> to_le n v = to_le n v'"
  by (metis length_to_le of_le_to_le to_le_of_le)

lemma to_be_8: "to_be 8 v = to_be 4 (v div 2 ^ 32 mod 2 ^ 32) @ to_be 4 (v mod 2 ^ 32)"
proof -
  have "to_le 8 v = to_le 4 v @ to_le 4 (v div 256 ^ 4)" using to_le_add [of 4 4 v] by simp
  also have "to_le 4 v = to_le 4 (v mod 2 ^ 32)" by (rule to_le_cong) simp
  also have "to_le 4 (v div 256 ^ 4) = to_le 4 (v div 2 ^ 32 mod 2 ^ 32)" by (rule to_le_cong) simp
  finally show ?thesis by (simp add: to_be_def)
qed

lemma unat_low32: "unat (ucast (w :: u64) :: u32) = unat w mod 2 ^ 32"
  by (simp add: unsigned_ucast_eq take_bit_eq_mod)

lemma sizedesc_bytes:
  assumes "L < 2 ^ 61"
  shows "store32 (BE32 (ucast (drop_bit 29 (word_of_nat L :: u64)))) @ store32 (BE32 (ucast (push_bit 3 (word_of_nat L :: u64)))) =
    to_be 8 (8 * L)"
proof -
  have L: "unat (word_of_nat L :: u64) = L" using assms by (simp add: unat_of_nat)
  have hi: "unat (ucast (drop_bit 29 (word_of_nat L :: u64)) :: u32) = 8 * L div 2 ^ 32 mod 2 ^ 32"
    using div_mult_mult1 [of "8 :: nat" L "2 ^ 29"] by (simp only: unat_low32 unat_drop_bit_div L) simp
  have "unat (push_bit 3 (word_of_nat L :: u64)) = 8 * L"
    using assms unat_mult_no_overflow [of "8 :: u64" "word_of_nat L"] L by (simp add: push_bit_eq_mult mult.commute)
  then have lo: "unat (ucast (push_bit 3 (word_of_nat L :: u64)) :: u32) = 8 * L mod 2 ^ 32" by (simp only: unat_low32)
  show ?thesis unfolding BE32_out hi lo by (rule to_be_8 [symmetric])
qed

lemma pad_bytes:
  "take (unat (1 + ((119 - (word_of_nat L mod 64)) mod 64) :: u64)) sha_pad = [0x80] @ replicate ((119 - L mod 64) mod 64) 0"
proof -
  have m: "unat (word_of_nat L mod 64 :: u64) = L mod 64"
    using mod_mod_cancel [of "64 :: nat" "2 ^ 64" L] by (simp add: unat_mod_distrib unat_of_nat)
  then have "unat (119 - (word_of_nat L mod 64) :: u64) = 119 - L mod 64"
    using mod_less_divisor [of 64 L] unat_sub_no_underflow [of "word_of_nat L mod 64 :: u64" 119] by simp
  then have "unat ((119 - (word_of_nat L mod 64)) mod 64 :: u64) = (119 - L mod 64) mod 64" by (simp add: unat_mod_distrib)
  then have "unat (1 + ((119 - (word_of_nat L mod 64)) mod 64) :: u64) = Suc ((119 - L mod 64) mod 64)"
    by (subst unat_add_no_overflow) simp_all
  moreover have "(119 - L mod 64) mod 64 \<le> 63" by (simp add: less_Suc_eq_le [symmetric])
  ultimately show ?thesis by (simp add: sha_pad_def min_def)
qed

lemma sha_blocks_length: "length s = 8 \<Longrightarrow> length (sha_blocks s m) = 8"
proof (induction s m rule: sha_blocks.induct)
  case (1 s m)
  have "length (sha_compress s x) = 8" for x by (simp add: sha_compress_def case_prod_beta Let_def)
  then show ?case using 1 by (simp add: sha_blocks.simps [of s m])
qed

lemma sha_finalize_ok:
  assumes "sha_ok m h"
  shows "sha_mem (fst (secp256k1_sha256_finalize h)) \<and>
    (length m < 2 ^ 61 \<longrightarrow> snd (secp256k1_sha256_finalize h) = sha256_spec m)"
proof -
  let ?p = "[0x80] @ replicate ((119 - length m mod 64) mod 64) 0"
  let ?z = "store32 (BE32 (ucast (drop_bit 29 (word_of_nat (length m) :: u64)))) @
    store32 (BE32 (ucast (push_bit 3 (word_of_nat (length m) :: u64))))"
  let ?h = "secp256k1_sha256_write (secp256k1_sha256_write h ?p) ?z"
  have nb: "nbytes h = word_of_nat (length m)" using assms by (simp add: sha_ok_def)
  have ok: "sha_ok ((m @ ?p) @ ?z) ?h" by (intro sha_write_ok assms)
  have f: "secp256k1_sha256_finalize h = (?h\<lparr>sh := replicate 8 0\<rparr>, concat (map (\<lambda>x. store32 (BE32 x)) (sh ?h)))"
    unfolding secp256k1_sha256_finalize_def nb pad_bytes Let_def by (rule refl)
  show ?thesis
  proof
    show "sha_mem (fst (secp256k1_sha256_finalize h))" using ok by (simp add: f sha_mem_def sha_ok_def)
    show "length m < 2 ^ 61 \<longrightarrow> snd (secp256k1_sha256_finalize h) = sha256_spec m"
    proof
      assume "length m < 2 ^ 61"
      then have "(m @ ?p) @ ?z = sha_padded m" by (simp only: sizedesc_bytes sha_padded_def append_assoc)
      then have "sh ?h = sha_blocks sha256_iv (sha_padded m)" using ok by (simp only: sha_ok_def)
      then show "snd (secp256k1_sha256_finalize h) = sha256_spec m"
        by (simp only: f snd_conv BE32_out sha256_spec_def sha256_iv_H0)
    qed
  qed
qed

interpretation sha: digest sha_ok sha_mem secp256k1_sha256_write secp256k1_sha256_finalize sha256_spec "2 ^ 61"
  by unfold_locales (use sha_write_ok sha_finalize_ok in auto)


definition sha_blank :: sha256 where
  "sha_blank = \<lparr>sh = [], buf = replicate 64 0, nbytes = 0\<rparr>"


section \<open>HMAC\<close>

definition hmac_key :: "bytes \<Rightarrow> bytes" where
  "hmac_key key = (if length key \<le> 64 then key @ replicate (64 - length key) 0 else sha256_spec key @ replicate 32 0)"

definition hmac_spec :: "bytes \<Rightarrow> bytes \<Rightarrow> bytes" where
  "hmac_spec key m = sha256_spec (map (\<lambda>b. b XOR 0x5c) (hmac_key key) @ sha256_spec (map (\<lambda>b. b XOR 0x36) (hmac_key key) @ m))"

definition hmac_mem :: "hmac_sha256 \<Rightarrow> bool" where
  "hmac_mem h = (sha_mem (inner h) \<and> sha_mem (outer h))"

definition hmac_ok :: "bytes \<Rightarrow> bytes \<Rightarrow> hmac_sha256 \<Rightarrow> bool" where
  "hmac_ok key m h = (sha_ok (map (\<lambda>b. b XOR 0x36) (hmac_key key) @ m) (inner h) \<and>
     sha_ok (map (\<lambda>b. b XOR 0x5c) (hmac_key key)) (outer h))"

lemma sha256_spec_length: "length (sha256_spec m) = 32"
proof -
  have "length (concat (map (\<lambda>x. to_be 4 (unat x)) ws)) = 4 * length ws" for ws :: "u32 list" by (induction ws) auto
  then show ?thesis using sha_blocks_length [of sha256_iv "sha_padded m"] by (simp add: sha256_spec_def sha256_iv_H0 [symmetric] sha256_iv_def)
qed

lemma hmac_key_length: "length (hmac_key key) = 64"
  by (simp add: hmac_key_def sha256_spec_length)

lemma hmac_rkey_spec: "sha_mem m \<Longrightarrow> length key < 2 ^ 61 \<Longrightarrow> hmac_rkey m key = hmac_key key"
  using sha.digest_spec [OF sha_initialize_ok, of m "[key]"] by (simp add: hmac_rkey_def hmac_key_def)

lemma hmac_initialize_ok:
  assumes "sha_mem m" "hmac_mem h" "length key < 2 ^ 61"
  shows "hmac_ok key [] (secp256k1_hmac_sha256_initialize m h key)"
proof -
  have x: "map (\<lambda>b. b XOR (0x5c XOR 0x36)) (map (\<lambda>b. b XOR 0x5c) k) = map (\<lambda>b. b XOR 0x36) k" for k :: bytes
    by (simp add: xor.assoc comp_def)
  have "sha_ok (map (\<lambda>b. b XOR 0x36) (hmac_key key)) (secp256k1_sha256_write (secp256k1_sha256_initialize (inner h)) (map (\<lambda>b. b XOR 0x36) (hmac_key key)))"
    "sha_ok (map (\<lambda>b. b XOR 0x5c) (hmac_key key)) (secp256k1_sha256_write (secp256k1_sha256_initialize (outer h)) (map (\<lambda>b. b XOR 0x5c) (hmac_key key)))"
    using sha_write_ok [OF sha_initialize_ok] assms(2) unfolding hmac_mem_def by fastforce+
  then show ?thesis
    unfolding hmac_ok_def secp256k1_hmac_sha256_initialize_def hmac_rkey_spec [OF assms(1,3)] Let_def x by simp
qed

lemma hmac_finalize_ok:
  assumes "hmac_ok key m h"
  shows "hmac_mem (fst (secp256k1_hmac_sha256_finalize h)) \<and>
    (length m < 2 ^ 60 \<longrightarrow> snd (secp256k1_hmac_sha256_finalize h) = hmac_spec key m)"
proof -
  have h: "sha_ok (map (\<lambda>b. b XOR 0x36) (hmac_key key) @ m) (inner h)" "sha_ok (map (\<lambda>b. b XOR 0x5c) (hmac_key key)) (outer h)"
    using assms by (auto simp: hmac_ok_def)
  note i = sha_finalize_ok [OF h(1)]
  note ot = sha_finalize_ok [OF sha_write_ok [OF h(2), of "snd (secp256k1_sha256_finalize (inner h))"]]
  have f: "fst (secp256k1_hmac_sha256_finalize h) = h\<lparr>inner := fst (secp256k1_sha256_finalize (inner h)),
      outer := fst (secp256k1_sha256_finalize (secp256k1_sha256_write (outer h) (snd (secp256k1_sha256_finalize (inner h)))))\<rparr>"
    "snd (secp256k1_hmac_sha256_finalize h) = snd (secp256k1_sha256_finalize (secp256k1_sha256_write (outer h) (snd (secp256k1_sha256_finalize (inner h)))))"
    by (simp_all add: secp256k1_hmac_sha256_finalize_def case_prod_beta Let_def)
  show ?thesis
  proof
    show "hmac_mem (fst (secp256k1_hmac_sha256_finalize h))" using i ot by (simp add: f hmac_mem_def)
    show "length m < 2 ^ 60 \<longrightarrow> snd (secp256k1_hmac_sha256_finalize h) = hmac_spec key m"
      using i ot by (auto simp: f(2) hmac_spec_def hmac_key_length sha256_spec_length)
  qed
qed

interpretation hmac: digest "hmac_ok key" hmac_mem secp256k1_hmac_sha256_write secp256k1_hmac_sha256_finalize "hmac_spec key" "2 ^ 60"
  for key
proof unfold_locales
  fix m h d
  assume "hmac_ok key m h"
  then show "hmac_ok key (m @ d) (secp256k1_hmac_sha256_write h d)"
    using sha_write_ok by (fastforce simp: hmac_ok_def secp256k1_hmac_sha256_write_def append_assoc [symmetric] simp del: append_assoc)
qed (use hmac_finalize_ok in auto)

lemma hmac_parts_spec:
  assumes "sha_mem m" "hmac_mem h" "length key < 2 ^ 61" "length (concat parts) < 2 ^ 60"
  shows "snd (hmac_parts m h key parts) = hmac_spec key (concat parts)" "hmac_mem (fst (hmac_parts m h key parts))"
  using hmac.digest_spec [OF hmac_initialize_ok [OF assms(1-3)], of parts] hmac.digest_mem [OF hmac_initialize_ok [OF assms(1-3)], of parts] assms(4)
  by (simp_all add: hmac_parts_def)

lemma hmac_spec_length [simp]: "length (hmac_spec k m) = 32"
  by (simp add: hmac_spec_def sha256_spec_length)

text \<open>HMAC-SHA256 as the code streams it is the function of RFC 2104: the digest of the key block
  xored with \<open>0x5c\<close> followed by the digest of the key block xored with \<open>0x36\<close> and the message, long keys
  being hashed first.\<close>

theorem hmac_correct:
  assumes "sha_mem m" "hmac_mem h" "length key < 2 ^ 61" "length (concat parts) < 2 ^ 60"
  shows "snd (secp256k1_hmac_sha256_finalize (fold (\<lambda>p h. secp256k1_hmac_sha256_write h p) parts
      (secp256k1_hmac_sha256_initialize m h key))) = hmac_spec key (concat parts)"
  using hmac_parts_spec(1) [OF assms] by (simp only: hmac_parts_def)

theorem hmac_correct_witness:
  "snd (secp256k1_hmac_sha256_finalize (fold (\<lambda>p h. secp256k1_hmac_sha256_write h p) [[1, 2], [3]]
      (secp256k1_hmac_sha256_initialize sha_blank \<lparr>inner = sha_blank, outer = sha_blank\<rparr> [7]))) = hmac_spec [7] [1, 2, 3]"
  using hmac_correct [of sha_blank "\<lparr>inner = sha_blank, outer = sha_blank\<rparr>" "[7]" "[[1, 2], [3]]"]
  by (simp add: sha_mem_def hmac_mem_def sha_blank_def)

section \<open>The generator of RFC 6979\<close>

definition rfc6979_rep :: "bytes \<Rightarrow> bytes \<Rightarrow> rfc6979 \<Rightarrow> bool" where
  "rfc6979_rep k v rng = (rk rng = k \<and> rv rng = v \<and> length k = 32 \<and> length v = 32)"

lemma rfc6979_initialize_spec:
  assumes "sha_mem m" "hmac_mem h" "length key < 2 ^ 59"
  defines "k1 \<equiv> hmac_spec (replicate 32 0) (replicate 32 1 @ [0] @ key)"
  defines "v1 \<equiv> hmac_spec k1 (replicate 32 1)"
  defines "k2 \<equiv> hmac_spec k1 (v1 @ [1] @ key)"
  shows "secp256k1_rfc6979_hmac_sha256_initialize m h key = \<lparr>rv = hmac_spec k2 v1, rk = k2, retry = False\<rparr>"
proof -
  have h1: "snd (hmac_parts m h (replicate 32 0) [replicate 32 1, [0], key]) = k1"
      "hmac_mem (fst (hmac_parts m h (replicate 32 0) [replicate 32 1, [0], key]))"
    using hmac_parts_spec [OF assms(1,2), of "replicate 32 0" "[replicate 32 1, [0], key]"] assms(3) by (simp_all add: k1_def)
  have h2: "snd (hmac_parts m h' k1 [replicate 32 1]) = v1" "hmac_mem (fst (hmac_parts m h' k1 [replicate 32 1]))" if "hmac_mem h'" for h'
    using hmac_parts_spec [OF assms(1) that, of k1 "[replicate 32 1]"] by (simp_all add: k1_def v1_def)
  have h3: "snd (hmac_parts m h' k1 [v1, [1], key]) = k2" "hmac_mem (fst (hmac_parts m h' k1 [v1, [1], key]))" if "hmac_mem h'" for h'
    using hmac_parts_spec [OF assms(1) that, of k1 "[v1, [1], key]"] assms(3) by (simp_all add: k1_def k2_def v1_def)
  have h4: "snd (hmac_parts m h' k2 [v1]) = hmac_spec k2 v1" if "hmac_mem h'" for h'
    using hmac_parts_spec [OF assms(1) that, of k2 "[v1]"] by (simp add: k2_def v1_def)
  show ?thesis
    unfolding secp256k1_rfc6979_hmac_sha256_initialize_def Let_def case_prod_beta using h1 h2 h3 h4 by simp
qed

lemma rfc6979_loop_spec:
  assumes "sha_mem m" "hmac_mem h" "length k = 32" "length v = 32"
  shows "rfc6979_loop m h k v n = ((hmac_spec k ^^ ((n + 31) div 32)) v,
    take n (concat (map (\<lambda>i. (hmac_spec k ^^ Suc i) v) [0..<(n + 31) div 32])))"
  using assms
proof (induction m h k v n rule: rfc6979_loop.induct)
  case (1 m h k v n)
  let ?v = "hmac_spec k v"
  have p: "snd (hmac_parts m h k [v]) = ?v" using hmac_parts_spec(1) [OF "1.prems"(1,2), of k "[v]"] "1.prems"(3,4) by simp
  show ?case
  proof (cases "n > 0")
    case True
    define j where "j = (if n > 32 then 32 else n)"
    define q where "q = (n - j + 31) div 32"
    have q: "(n + 31) div 32 = Suc q" using True by (auto simp: q_def j_def le_div_geq)
    have jn: "take n (?v @ ys) = take j ?v @ take (n - j) ys" for ys by (auto simp: j_def)
    have "rfc6979_loop m h k ?v (n - j) = ((hmac_spec k ^^ q) ?v, take (n - j) (concat (map (\<lambda>i. (hmac_spec k ^^ Suc i) ?v) [0..<q])))"
      using "1.IH" [OF True prod.collapse _ j_def] "1.prems" p by (simp add: q_def)
    then have "rfc6979_loop m h k v n = ((hmac_spec k ^^ q) ?v, take j ?v @ take (n - j) (concat (map (\<lambda>i. (hmac_spec k ^^ Suc i) ?v) [0..<q])))"
      using True p by (simp add: rfc6979_loop.simps [of m h k v n] case_prod_beta Let_def j_def)
    moreover have "concat (map (\<lambda>i. (hmac_spec k ^^ Suc i) v) [0..<Suc q]) = ?v @ concat (map (\<lambda>i. (hmac_spec k ^^ Suc i) ?v) [0..<q])"
      by (simp add: map_upt_Suc funpow_swap1 del: upt_Suc)
    ultimately show ?thesis unfolding q by (simp only: jn funpow_Suc_right comp_apply)
  next
    case False
    then have "n = 0" by simp
    then show ?thesis using rfc6979_loop.simps [of m h k v 0] by simp
  qed
qed

text \<open>C23: the generator follows RFC 6979: the seed gives the key and value of steps 3.2.b to 3.2.g;
  a first call outputs the iterates of HMAC on the value, cut to the requested length, and later calls
  first refresh the key and value as step 3.2.h says.\<close>

theorem rfc6979_correct:
  assumes "sha_mem m" "hmac_mem h" "length key < 2 ^ 59" "length (rk rng) = 32" "length (rv rng) = 32"
  shows "(let k1 = hmac_spec (replicate 32 0) (replicate 32 1 @ [0] @ key); v1 = hmac_spec k1 (replicate 32 1);
       k2 = hmac_spec k1 (v1 @ [1] @ key)
     in secp256k1_rfc6979_hmac_sha256_initialize m h key = \<lparr>rv = hmac_spec k2 v1, rk = k2, retry = False\<rparr>) \<and>
    (let k = (if retry rng then hmac_spec (rk rng) (rv rng @ [0]) else rk rng);
         v = (if retry rng then hmac_spec k (rv rng) else rv rng)
     in secp256k1_rfc6979_hmac_sha256_generate m h rng n =
       (\<lparr>rv = (hmac_spec k ^^ ((n + 31) div 32)) v, rk = k, retry = True\<rparr>,
        take n (concat (map (\<lambda>i. (hmac_spec k ^^ Suc i) v) [0..<(n + 31) div 32]))))"
proof
  show "let k1 = hmac_spec (replicate 32 0) (replicate 32 1 @ [0] @ key); v1 = hmac_spec k1 (replicate 32 1);
       k2 = hmac_spec k1 (v1 @ [1] @ key)
     in secp256k1_rfc6979_hmac_sha256_initialize m h key = \<lparr>rv = hmac_spec k2 v1, rk = k2, retry = False\<rparr>"
    unfolding Let_def by (rule rfc6979_initialize_spec [OF assms(1-3)])
  define k where "k = (if retry rng then hmac_spec (rk rng) (rv rng @ [0]) else rk rng)"
  define v where "v = (if retry rng then hmac_spec k (rv rng) else rv rng)"
  let ?p = "hmac_parts m h (rk rng) [rv rng, [0]]"
  have p: "snd ?p = hmac_spec (rk rng) (rv rng @ [0])" "hmac_mem (fst ?p)"
    using hmac_parts_spec [OF assms(1,2), of "rk rng" "[rv rng, [0]]"] assms(4,5) by simp_all
  have q: "snd (hmac_parts m (fst ?p) (snd ?p) [rv rng]) = hmac_spec (snd ?p) (rv rng)"
    using hmac_parts_spec(1) [OF assms(1) p(2), of "snd ?p" "[rv rng]"] p(1) assms(5) by simp
  have kv: "length k = 32" "length v = 32" using assms(4,5) by (simp_all add: k_def v_def)
  have "secp256k1_rfc6979_hmac_sha256_generate m h rng n =
      (\<lparr>rv = fst (rfc6979_loop m h k v n), rk = k, retry = True\<rparr>, snd (rfc6979_loop m h k v n))"
    using p q by (simp add: secp256k1_rfc6979_hmac_sha256_generate_def case_prod_beta Let_def k_def v_def)
  then show "let k = (if retry rng then hmac_spec (rk rng) (rv rng @ [0]) else rk rng);
         v = (if retry rng then hmac_spec k (rv rng) else rv rng)
     in secp256k1_rfc6979_hmac_sha256_generate m h rng n =
       (\<lparr>rv = (hmac_spec k ^^ ((n + 31) div 32)) v, rk = k, retry = True\<rparr>,
        take n (concat (map (\<lambda>i. (hmac_spec k ^^ Suc i) v) [0..<(n + 31) div 32])))"
    unfolding Let_def k_def [symmetric] v_def [symmetric] rfc6979_loop_spec [OF assms(1,2) kv] by simp
qed

theorem rfc6979_correct_witness:
  "snd (secp256k1_rfc6979_hmac_sha256_generate sha_blank \<lparr>inner = sha_blank, outer = sha_blank\<rparr>
      \<lparr>rv = replicate 32 1, rk = replicate 32 0, retry = False\<rparr> 32) = hmac_spec (replicate 32 0) (replicate 32 1)"
  using conjunct2 [OF rfc6979_correct [of sha_blank "\<lparr>inner = sha_blank, outer = sha_blank\<rparr>" "[]"
      "\<lparr>rv = replicate 32 1, rk = replicate 32 0, retry = False\<rparr>" 32]]
  by (simp add: sha_mem_def hmac_mem_def sha_blank_def Let_def)

end
