(* ===== verification/Messages.thy ===== *)
theory Messages
  imports Consensus
begin

text \<open>
  The messages between replicas and clients: \<open>Proposal\<close>, \<open>Vote\<close>, \<open>Finality\<close>,
  \<open>Ordering1Finality\<close>, \<open>Ordering2Finality\<close> (\<open>include/hotstuff/consensus.h\<close>), the \<open>Msg\<close>
  structures of \<open>include/hotstuff/hotstuff.h\<close>, \<open>src/hotstuff.cpp\<close> and
  \<open>include/hotstuff/client.h\<close>. A message is the stream its constructor fills; parsing
  gives the fields. The host is little-endian, so \<open>htole\<close> and \<open>letoh\<close> are the identity.
\<close>

section \<open>Proposals and votes\<close>

text \<open>A proposal refers to its block by a handle; parsing adds the block to the storage.\<close>

definition proposal_serialize :: "'pk core \<Rightarrow> proposal \<Rightarrow> datastream \<Rightarrow> core_error + datastream" where
  "proposal_serialize c p s =
     sbind (get_blk c (prop_blk p)) (\<lambda>b. map_err CertError (block_serialize b (ds_put (proposer p) s)))"

definition proposal_unserialize ::
  "(bytes \<Rightarrow> hash) \<Rightarrow> 'pk core \<Rightarrow> datastream \<Rightarrow> cert_error + (proposal \<times> 'pk core \<times> datastream)"
where
  "proposal_unserialize sha c s =
     sbind (map_err StreamError (ds_get s)) (\<lambda>(r, s).
     sbind (block_unserialize sha s) (\<lambda>(b, s).
     let (h, st) = add_blk b (storage c)
     in Inr (\<lparr>proposer = r, prop_blk = h\<rparr>, c\<lparr>storage := st\<rparr>, s)))"

definition vote_serialize :: "vote \<Rightarrow> datastream \<Rightarrow> datastream" where
  "vote_serialize v s = pc_serialize (vote_cert v) (ds_put (vote_hash v) (ds_put (voter v) s))"

definition vote_unserialize :: "datastream \<Rightarrow> cert_error + (vote \<times> datastream)" where
  "vote_unserialize s =
     sbind (map_err StreamError (ds_get s)) (\<lambda>(r, s).
     sbind (map_err StreamError (ds_get s)) (\<lambda>(h, s).
     sbind (pc_unserialize s) (\<lambda>(pc, s). Inr (\<lparr>voter = r, vote_hash = h, vote_cert = pc\<rparr>, s))))"

definition msg_propose_new :: "'pk core \<Rightarrow> proposal \<Rightarrow> core_error + datastream" where
  "msg_propose_new c p = proposal_serialize c p ds_new"

definition msg_propose_parse ::
  "(bytes \<Rightarrow> hash) \<Rightarrow> 'pk core \<Rightarrow> datastream \<Rightarrow> cert_error + (proposal \<times> 'pk core \<times> datastream)"
where
  "msg_propose_parse sha c s = proposal_unserialize sha c s"

definition msg_vote_new :: "vote \<Rightarrow> datastream" where
  "msg_vote_new v = vote_serialize v ds_new"

definition msg_vote_parse :: "datastream \<Rightarrow> cert_error + (vote \<times> datastream)" where
  "msg_vote_parse s = vote_unserialize s"

section \<open>Results for clients\<close>

text \<open>\<open>blk_hash\<close> is sent only with a decision; otherwise it stays the null value, which is zero.\<close>

definition finality_serialize :: "finality \<Rightarrow> datastream \<Rightarrow> datastream" where
  "finality_serialize f s =
     (let s = ds_put (fin_cmd_hash f) (ds_put (fin_cmd_height f) (ds_put (fin_cmd_idx f)
                (ds_put (fin_decision f) (ds_put (fin_rid f) s))))
      in if fin_decision f = 1 then ds_put (fin_blk_hash f) s else s)"

definition finality_unserialize :: "datastream \<Rightarrow> stream_error + (finality \<times> datastream)" where
  "finality_unserialize s =
     sbind (ds_get s) (\<lambda>(r, s). sbind (ds_get s) (\<lambda>(d, s). sbind (ds_get s) (\<lambda>(i, s).
     sbind (ds_get s) (\<lambda>(ht, s). sbind (ds_get s) (\<lambda>(h, s).
     sbind (if d = 1 then ds_get s else Inr (0, s)) (\<lambda>(bh, s).
     Inr (\<lparr>fin_rid = r, fin_decision = d, fin_cmd_idx = i, fin_cmd_height = ht, fin_cmd_hash = h, fin_blk_hash = bh\<rparr>, s)))))))"

record ordering1_finality =
  o1_cmd_hash :: hash
  o1_timestamp :: hash
  o1_timestamp_us :: u64
  o1_sig :: signature

record ordering2_finality =
  o2_cmd_hash :: hash
  o2_timestamp :: hash
  o2_sig :: signature

definition ordering1_serialize :: "ordering1_finality \<Rightarrow> datastream \<Rightarrow> datastream" where
  "ordering1_serialize f s =
     ds_put (o1_timestamp_us f) (sig_serialize (o1_sig f) (ds_put (o1_timestamp f) (ds_put (o1_cmd_hash f) s)))"

definition ordering1_unserialize :: "datastream \<Rightarrow> cert_error + (ordering1_finality \<times> datastream)" where
  "ordering1_unserialize s =
     sbind (map_err StreamError (ds_get s)) (\<lambda>(h, s).
     sbind (map_err StreamError (ds_get s)) (\<lambda>(t, s).
     sbind (sig_unserialize s) (\<lambda>(g, s).
     sbind (map_err StreamError (ds_get s)) (\<lambda>(us, s).
     Inr (\<lparr>o1_cmd_hash = h, o1_timestamp = t, o1_timestamp_us = us, o1_sig = g\<rparr>, s)))))"

definition ordering2_serialize :: "ordering2_finality \<Rightarrow> datastream \<Rightarrow> datastream" where
  "ordering2_serialize f s = sig_serialize (o2_sig f) (ds_put (o2_timestamp f) (ds_put (o2_cmd_hash f) s))"

definition ordering2_unserialize :: "datastream \<Rightarrow> cert_error + (ordering2_finality \<times> datastream)" where
  "ordering2_unserialize s =
     sbind (map_err StreamError (ds_get s)) (\<lambda>(h, s).
     sbind (map_err StreamError (ds_get s)) (\<lambda>(t, s).
     sbind (sig_unserialize s) (\<lambda>(g, s). Inr (\<lparr>o2_cmd_hash = h, o2_timestamp = t, o2_sig = g\<rparr>, s))))"

text \<open>The response messages of \<open>client.h\<close> carry the same fields in the same order.\<close>

definition msg_resp_cmd_new :: "finality \<Rightarrow> datastream" where
  "msg_resp_cmd_new f = finality_serialize f ds_new"

definition msg_resp_cmd_parse :: "datastream \<Rightarrow> stream_error + (finality \<times> datastream)" where
  "msg_resp_cmd_parse s = finality_unserialize s"

definition msg_ordering1_resp_new :: "ordering1_finality \<Rightarrow> datastream" where
  "msg_ordering1_resp_new f = ordering1_serialize f ds_new"

definition msg_ordering1_resp_parse :: "datastream \<Rightarrow> cert_error + (ordering1_finality \<times> datastream)" where
  "msg_ordering1_resp_parse s = ordering1_unserialize s"

definition msg_ordering2_resp_new :: "ordering2_finality \<Rightarrow> datastream" where
  "msg_ordering2_resp_new f = ordering2_serialize f ds_new"

definition msg_ordering2_resp_parse :: "datastream \<Rightarrow> cert_error + (ordering2_finality \<times> datastream)" where
  "msg_ordering2_resp_parse s = ordering2_unserialize s"

definition msg_req_cmd_new :: "command \<Rightarrow> datastream" where
  "msg_req_cmd_new c = command_serialize c ds_new"

definition msg_ordering1_req_new :: "command \<Rightarrow> datastream" where
  "msg_ordering1_req_new c = command_serialize c ds_new"

definition msg_ordering2_req_new :: "hash \<Rightarrow> u64 \<Rightarrow> datastream" where
  "msg_ordering2_req_new h t = ds_put t (ds_put h ds_new)"

definition msg_ordering2_req_parse :: "datastream \<Rightarrow> stream_error + ((hash \<times> u64) \<times> datastream)" where
  "msg_ordering2_req_parse s = sbind (ds_get s) (\<lambda>(h, s). sbind (ds_get s) (\<lambda>(t, s). Inr ((h, t), s)))"

text \<open>\<open>mem\<close> is the signature member, which no constructor sets: what the memory held.\<close>

definition msg_consensus_resp_client_new :: "signature \<Rightarrow> hash \<Rightarrow> datastream" where
  "msg_consensus_resp_client_new mem h = sig_serialize mem (ds_put h ds_new)"

definition msg_consensus_resp_client_parse :: "datastream \<Rightarrow> cert_error + ((hash \<times> signature) \<times> datastream)" where
  "msg_consensus_resp_client_parse s =
     sbind (map_err StreamError (ds_get s)) (\<lambda>(h, s). sbind (sig_unserialize s) (\<lambda>(g, s). Inr ((h, g), s)))"

section \<open>Fetching blocks\<close>

definition msg_req_block_new :: "hash list \<Rightarrow> datastream" where
  "msg_req_block_new hs = fold ds_put hs (ds_put (word_of_nat (length hs) :: u32) ds_new)"

definition msg_req_block_parse :: "datastream \<Rightarrow> cert_error + (hash list \<times> datastream)" where
  "msg_req_block_parse s = sbind (get_u32 s) (\<lambda>(n, s). get_hashes_from n s)"

fun put_blocks :: "block list \<Rightarrow> datastream \<Rightarrow> cert_error + datastream" where
  "put_blocks [] s = Inr s"
| "put_blocks (b # bs) s = sbind (block_serialize b s) (put_blocks bs)"

definition msg_resp_block_new :: "block list \<Rightarrow> cert_error + datastream" where
  "msg_resp_block_new bs = put_blocks bs (ds_put (word_of_nat (length bs) :: u32) ds_new)"

fun get_blocks :: "(bytes \<Rightarrow> hash) \<Rightarrow> nat \<Rightarrow> entity_storage \<Rightarrow> datastream \<Rightarrow> cert_error + (hash list \<times> entity_storage \<times> datastream)" where
  "get_blocks sha 0 st s = Inr ([], st, s)"
| "get_blocks sha (Suc n) st s =
     sbind (block_unserialize sha s) (\<lambda>(b, s).
     let (h, st) = add_blk b st in
     sbind (get_blocks sha n st s) (\<lambda>(hs, st, s). Inr (h # hs, st, s)))"

definition msg_resp_block_parse ::
  "(bytes \<Rightarrow> hash) \<Rightarrow> 'pk core \<Rightarrow> datastream \<Rightarrow> cert_error + (hash list \<times> 'pk core \<times> datastream)"
where
  "msg_resp_block_parse sha c s =
     sbind (get_u32 s) (\<lambda>(n, s).
     sbind (get_blocks sha (unat n) (storage c) s) (\<lambda>(hs, st, s). Inr (hs, c\<lparr>storage := st\<rparr>, s)))"

section \<open>The consensus request of Archipelago\<close>

record consensus_req =
  cr_commit_set_hash :: hash
  cr_stable_timestamp :: u64
  cr_stable_idx :: u32
  cr_hash1 :: hash
  cr_hash2 :: hash
  cr_hash3 :: hash
  cr_hash4 :: hash
  cr_sig :: signature

definition msg_consensus_req_put :: "consensus_req \<Rightarrow> datastream \<Rightarrow> datastream" where
  "msg_consensus_req_put m s =
     sig_serialize (cr_sig m) (ds_put (cr_hash4 m) (ds_put (cr_hash3 m) (ds_put (cr_hash2 m) (ds_put (cr_hash1 m)
       (ds_put (cr_stable_idx m) (ds_put (cr_stable_timestamp m) (ds_put (cr_commit_set_hash m) s)))))))"

text \<open>The constructor serializes its arguments and the signature member, which nothing sets.\<close>

definition msg_consensus_req_new :: "signature \<Rightarrow> hash \<Rightarrow> u64 \<Rightarrow> u32 \<Rightarrow> hash \<Rightarrow> hash \<Rightarrow> hash \<Rightarrow> hash \<Rightarrow> datastream" where
  "msg_consensus_req_new mem h t i h1 h2 h3 h4 =
     msg_consensus_req_put \<lparr>cr_commit_set_hash = h, cr_stable_timestamp = t, cr_stable_idx = i, cr_hash1 = h1,
       cr_hash2 = h2, cr_hash3 = h3, cr_hash4 = h4, cr_sig = mem\<rparr> ds_new"

definition msg_consensus_req_parse :: "datastream \<Rightarrow> cert_error + (consensus_req \<times> datastream)" where
  "msg_consensus_req_parse s =
     sbind (map_err StreamError (ds_get s)) (\<lambda>(h, s).
     sbind (map_err StreamError (ds_get s)) (\<lambda>(t, s).
     sbind (map_err StreamError (ds_get s)) (\<lambda>(i, s).
     sbind (map_err StreamError (ds_get s)) (\<lambda>(h1, s).
     sbind (map_err StreamError (ds_get s)) (\<lambda>(h2, s).
     sbind (map_err StreamError (ds_get s)) (\<lambda>(h3, s).
     sbind (map_err StreamError (ds_get s)) (\<lambda>(h4, s).
     sbind (sig_unserialize s) (\<lambda>(g, s).
     Inr (\<lparr>cr_commit_set_hash = h, cr_stable_timestamp = t, cr_stable_idx = i, cr_hash1 = h1, cr_hash2 = h2,
        cr_hash3 = h3, cr_hash4 = h4, cr_sig = g\<rparr>, s)))))))))"

definition msg_consensus_resp_new :: "signature \<Rightarrow> hash \<Rightarrow> hash \<Rightarrow> hash \<Rightarrow> hash \<Rightarrow> hash \<Rightarrow> datastream" where
  "msg_consensus_resp_new mem h h1 h2 h3 h4 =
     sig_serialize mem (ds_put h4 (ds_put h3 (ds_put h2 (ds_put h1 (ds_put h ds_new)))))"

definition msg_consensus_resp_parse :: "datastream \<Rightarrow> cert_error + ((hash \<times> hash list \<times> signature) \<times> datastream)" where
  "msg_consensus_resp_parse s =
     sbind (map_err StreamError (ds_get s)) (\<lambda>(h, s).
     sbind (map_err StreamError (ds_get s)) (\<lambda>(h1, s).
     sbind (map_err StreamError (ds_get s)) (\<lambda>(h2, s).
     sbind (map_err StreamError (ds_get s)) (\<lambda>(h3, s).
     sbind (map_err StreamError (ds_get s)) (\<lambda>(h4, s).
     sbind (sig_unserialize s) (\<lambda>(g, s). Inr ((h, [h1, h2, h3, h4], g), s)))))))"

section \<open>Codecs\<close>

interpretation u8c: codec "ds_put :: u8 \<Rightarrow> _" int_enc
  "ds_get :: datastream \<Rightarrow> stream_error + _" "\<lambda>_. True"
  by unfold_locales (rule ds_get_int, simp_all add: ds_put_int)

lemmas int_codecs = u8c.get_enc u16c.get_enc u32c.get_enc u64c.get_enc u256c.get_enc

definition vote_enc :: "vote \<Rightarrow> bytes" where
  "vote_enc v = int_enc (voter v) @ int_enc (vote_hash v) @ pc_enc (vote_cert v)"

definition vote_good :: "vote \<Rightarrow> bool" where
  "vote_good v = sig_ok (pc_sig (vote_cert v))"

interpretation votec: codec vote_serialize vote_enc vote_unserialize vote_good
proof unfold_locales
  fix v s r
  assume ok: "vote_good v" and "ds_rest s = vote_enc v @ r"
  then have r0: "ds_rest s = int_enc (voter v) @ int_enc (vote_hash v) @ pc_enc (vote_cert v) @ r" by (simp add: vote_enc_def)
  note r1 = ds_rest_skip [OF r0] note r2 = ds_rest_skip [OF r1]
  show "vote_unserialize s = Inr (v, ds_skip (length (vote_enc v)) s)"
    using u16c.get_enc [OF _ r0] u256c.get_enc [OF _ r1] pcc.get_enc [OF _ r2] ok
    by (simp add: vote_unserialize_def vote_enc_def vote_good_def add.assoc)
qed (simp add: vote_serialize_def vote_enc_def vote_good_def ds_put_int pcc.put_enc)

definition finality_enc :: "finality \<Rightarrow> bytes" where
  "finality_enc f = int_enc (fin_rid f) @ int_enc (fin_decision f) @ int_enc (fin_cmd_idx f) @ int_enc (fin_cmd_height f) @
     int_enc (fin_cmd_hash f) @ (if fin_decision f = 1 then int_enc (fin_blk_hash f) else [])"

definition finality_ok :: "finality \<Rightarrow> bool" where
  "finality_ok f = (fin_decision f = 1 \<or> fin_blk_hash f = 0)"

interpretation finc: codec finality_serialize finality_enc finality_unserialize finality_ok
proof unfold_locales
  fix f s r
  assume ok: "finality_ok f" and "ds_rest s = finality_enc f @ r"
  then have r0: "ds_rest s = int_enc (fin_rid f) @ int_enc (fin_decision f) @ int_enc (fin_cmd_idx f) @
      int_enc (fin_cmd_height f) @ int_enc (fin_cmd_hash f) @ (if fin_decision f = 1 then int_enc (fin_blk_hash f) else []) @ r"
    by (simp add: finality_enc_def)
  note r1 = ds_rest_skip [OF r0] note r2 = ds_rest_skip [OF r1] note r3 = ds_rest_skip [OF r2]
  note r4 = ds_rest_skip [OF r3] note r5 = ds_rest_skip [OF r4]
  note g = u16c.get_enc [OF _ r0] u8c.get_enc [OF _ r1] u32c.get_enc [OF _ r2] u32c.get_enc [OF _ r3] u256c.get_enc [OF _ r4]
  show "finality_unserialize s = Inr (f, ds_skip (length (finality_enc f)) s)"
  proof (cases "fin_decision f = 1")
    case True
    then have "ds_rest (ds_skip (length (int_enc (fin_cmd_hash f))) (ds_skip (length (int_enc (fin_cmd_height f)))
        (ds_skip (length (int_enc (fin_cmd_idx f))) (ds_skip (length (int_enc (fin_decision f)))
          (ds_skip (length (int_enc (fin_rid f))) s))))) = int_enc (fin_blk_hash f) @ r" using r5 by simp
    then show ?thesis using g True u256c.get_enc [OF TrueI, of _ "fin_blk_hash f"]
      by (simp add: finality_unserialize_def finality_enc_def add.assoc)
  next
    case False
    then show ?thesis using g ok by (simp add: finality_unserialize_def finality_enc_def finality_ok_def)
  qed
qed (simp add: finality_serialize_def finality_enc_def ds_put_int Let_def)

definition ordering1_enc :: "ordering1_finality \<Rightarrow> bytes" where
  "ordering1_enc f = int_enc (o1_cmd_hash f) @ int_enc (o1_timestamp f) @
     secp256k1_ecdsa_signature_serialize_compact (o1_sig f) @ int_enc (o1_timestamp_us f)"

interpretation ord1c: codec ordering1_serialize ordering1_enc ordering1_unserialize "\<lambda>f. sig_ok (o1_sig f)"
proof unfold_locales
  fix f s r
  assume ok: "sig_ok (o1_sig f)" and "ds_rest s = ordering1_enc f @ r"
  then have r0: "ds_rest s = int_enc (o1_cmd_hash f) @ int_enc (o1_timestamp f) @
      secp256k1_ecdsa_signature_serialize_compact (o1_sig f) @ int_enc (o1_timestamp_us f) @ r" by (simp add: ordering1_enc_def)
  note r1 = ds_rest_skip [OF r0] note r2 = ds_rest_skip [OF r1] note r3 = ds_rest_skip [OF r2]
  show "ordering1_unserialize s = Inr (f, ds_skip (length (ordering1_enc f)) s)"
    using u256c.get_enc [OF _ r0] u256c.get_enc [OF _ r1] sigc.get_enc [OF ok r2] u64c.get_enc [OF _ r3]
    by (simp add: ordering1_unserialize_def ordering1_enc_def add.assoc)
qed (simp add: ordering1_serialize_def ordering1_enc_def ds_put_int sigc.put_enc)

definition ordering2_enc :: "ordering2_finality \<Rightarrow> bytes" where
  "ordering2_enc f = int_enc (o2_cmd_hash f) @ int_enc (o2_timestamp f) @ secp256k1_ecdsa_signature_serialize_compact (o2_sig f)"

interpretation ord2c: codec ordering2_serialize ordering2_enc ordering2_unserialize "\<lambda>f. sig_ok (o2_sig f)"
proof unfold_locales
  fix f s r
  assume ok: "sig_ok (o2_sig f)" and "ds_rest s = ordering2_enc f @ r"
  then have r0: "ds_rest s = int_enc (o2_cmd_hash f) @ int_enc (o2_timestamp f) @
      secp256k1_ecdsa_signature_serialize_compact (o2_sig f) @ r" by (simp add: ordering2_enc_def)
  note r1 = ds_rest_skip [OF r0] note r2 = ds_rest_skip [OF r1]
  show "ordering2_unserialize s = Inr (f, ds_skip (length (ordering2_enc f)) s)"
    using u256c.get_enc [OF _ r0] u256c.get_enc [OF _ r1] sigc.get_enc [OF ok r2]
    by (simp add: ordering2_unserialize_def ordering2_enc_def add.assoc)
qed (simp add: ordering2_serialize_def ordering2_enc_def ds_put_int sigc.put_enc)

definition consensus_req_enc :: "consensus_req \<Rightarrow> bytes" where
  "consensus_req_enc m = int_enc (cr_commit_set_hash m) @ int_enc (cr_stable_timestamp m) @ int_enc (cr_stable_idx m) @
     int_enc (cr_hash1 m) @ int_enc (cr_hash2 m) @ int_enc (cr_hash3 m) @ int_enc (cr_hash4 m) @
     secp256k1_ecdsa_signature_serialize_compact (cr_sig m)"

text \<open>The fields before the signature parse in any case; the signature decides.\<close>

lemma consensus_req_fields:
  assumes "ds_rest s = consensus_req_enc m @ r"
  shows "\<exists>s'. ds_rest s' = secp256k1_ecdsa_signature_serialize_compact (cr_sig m) @ r \<and>
    s' = ds_skip (length (consensus_req_enc m) - 64) s \<and>
    msg_consensus_req_parse s = sbind (sig_unserialize s') (\<lambda>(g, s). Inr (m\<lparr>cr_sig := g\<rparr>, s))"
proof -
  have r0: "ds_rest s = int_enc (cr_commit_set_hash m) @ int_enc (cr_stable_timestamp m) @ int_enc (cr_stable_idx m) @
      int_enc (cr_hash1 m) @ int_enc (cr_hash2 m) @ int_enc (cr_hash3 m) @ int_enc (cr_hash4 m) @
      secp256k1_ecdsa_signature_serialize_compact (cr_sig m) @ r" using assms by (simp add: consensus_req_enc_def)
  note r1 = ds_rest_skip [OF r0] note r2 = ds_rest_skip [OF r1] note r3 = ds_rest_skip [OF r2]
  note r4 = ds_rest_skip [OF r3] note r5 = ds_rest_skip [OF r4] note r6 = ds_rest_skip [OF r5] note r7 = ds_rest_skip [OF r6]
  note g = u256c.get_enc [OF TrueI r0] u64c.get_enc [OF TrueI r1] u32c.get_enc [OF TrueI r2] u256c.get_enc [OF TrueI r3]
    u256c.get_enc [OF TrueI r4] u256c.get_enc [OF TrueI r5] u256c.get_enc [OF TrueI r6]
  have "msg_consensus_req_parse s = sbind (sig_unserialize (ds_skip (length (consensus_req_enc m) - 64) s)) (\<lambda>(g, s). Inr (m\<lparr>cr_sig := g\<rparr>, s))"
    unfolding msg_consensus_req_parse_def g map_err_simps sbind_simps prod.case
    by (cases m) (simp add: consensus_req_enc_def add.assoc)
  moreover have "ds_rest (ds_skip (length (consensus_req_enc m) - 64) s) = secp256k1_ecdsa_signature_serialize_compact (cr_sig m) @ r"
    using r7 by (simp add: consensus_req_enc_def add.assoc)
  ultimately show ?thesis by blast
qed

interpretation creqc: codec msg_consensus_req_put consensus_req_enc msg_consensus_req_parse "\<lambda>m. sig_ok (cr_sig m)"
proof unfold_locales
  fix m s r
  assume ok: "sig_ok (cr_sig m)" and rest: "ds_rest s = consensus_req_enc m @ r"
  obtain s' where s': "ds_rest s' = secp256k1_ecdsa_signature_serialize_compact (cr_sig m) @ r"
    "s' = ds_skip (length (consensus_req_enc m) - 64) s"
    "msg_consensus_req_parse s = sbind (sig_unserialize s') (\<lambda>(g, s). Inr (m\<lparr>cr_sig := g\<rparr>, s))"
    using consensus_req_fields [OF rest] by blast
  show "msg_consensus_req_parse s = Inr (m, ds_skip (length (consensus_req_enc m)) s)"
    using sigc.get_enc [OF ok s'(1)] s'(2,3) by (simp add: consensus_req_enc_def)
qed (simp add: msg_consensus_req_put_def consensus_req_enc_def ds_put_int sigc.put_enc)

section \<open>Round trips\<close>

lemma ds_of_bytes_put: "ds_rest (ds_of_bytes (buffer (ds_put_data bs ds_new) @ r)) = bs @ r"
  by simp


definition zero_sig :: signature where
  "zero_sig = \<lparr>sig_r = \<lparr>d0 = 0, d1 = 0, d2 = 0, d3 = 0\<rparr>, sig_s = \<lparr>d0 = 0, d1 = 0, d2 = 0, d3 = 0\<rparr>\<rparr>"

lemma zero_sig_ok: "sig_ok zero_sig"
  by (simp add: zero_sig_def sig_ok_def scalar_ok_def sval_def secp256k1_n_def)


lemma set_get_b32_overflow: "snd (secp256k1_scalar_set_b32 (secp256k1_scalar_get_b32 a)) = (\<not> scalar_ok a)"
  using set_b32_val [OF length_get_b32, of a]
  by (cases "secp256k1_scalar_set_b32 (secp256k1_scalar_get_b32 a)") (simp add: get_b32_val scalar_ok_def not_less)

lemma sig_unserialize_bad:
  assumes "\<not> sig_ok g" "ds_rest s = secp256k1_ecdsa_signature_serialize_compact g @ r"
  shows "sig_unserialize s = Inl IllFormedSignature"
proof -
  have "offset s + 64 \<le> length (buffer s)"
    using rest_fits [OF assms(2)] length_compact [of g] by (metis list.size(3) zero_neq_numeral)
  moreover have "take 64 (drop (offset s) (buffer s)) = secp256k1_ecdsa_signature_serialize_compact g"
    using assms(2) by (simp add: ds_rest_def)
  moreover have "secp256k1_ecdsa_signature_parse_compact (secp256k1_ecdsa_signature_serialize_compact g) = None"
    using assms(1) set_get_b32_overflow
    by (auto simp: secp256k1_ecdsa_signature_parse_compact_def secp256k1_ecdsa_signature_serialize_compact_def
        length_get_b32 sig_ok_def case_prod_beta Let_def)
  ultimately show ?thesis by (simp add: sig_unserialize_def ds_get_data_inplace_def Let_def)
qed

text \<open>C31: finding. The constructor of the consensus request sends its signature member without setting
  it: when the memory happens to hold scalars that are not below the group order, every receiver
  throws \<open>ill-formed signature\<close>; otherwise the request arrives as it was made.\<close>

theorem consensus_req_signature_memory:
  "map_sum id fst (msg_consensus_req_parse (ds_of_bytes (buffer (msg_consensus_req_new mem h t i h1 h2 h3 h4) @ r))) =
    (if sig_ok mem then Inr \<lparr>cr_commit_set_hash = h, cr_stable_timestamp = t, cr_stable_idx = i, cr_hash1 = h1,
       cr_hash2 = h2, cr_hash3 = h3, cr_hash4 = h4, cr_sig = mem\<rparr> else Inl IllFormedSignature)"
proof -
  define m where "m = \<lparr>cr_commit_set_hash = h, cr_stable_timestamp = t, cr_stable_idx = i, cr_hash1 = h1,
       cr_hash2 = h2, cr_hash3 = h3, cr_hash4 = h4, cr_sig = mem\<rparr>"
  have put: "msg_consensus_req_put m ds_new = ds_put_data (consensus_req_enc m) ds_new"
    by (simp add: msg_consensus_req_put_def consensus_req_enc_def ds_put_int sig_serialize_def)
  let ?s = "ds_of_bytes (buffer (msg_consensus_req_put m ds_new) @ r)"
  have rest: "ds_rest ?s = consensus_req_enc m @ r" unfolding put by (rule ds_of_bytes_put)
  have mem: "cr_sig m = mem" by (simp add: m_def)
  show ?thesis
  proof (cases "sig_ok mem")
    case True
    then have "msg_consensus_req_parse ?s = Inr (m, ds_skip (length (consensus_req_enc m)) ?s)"
      using creqc.get_enc [OF _ rest] mem by simp
    then show ?thesis using True by (simp add: msg_consensus_req_new_def m_def)
  next
    case False
    obtain s' where s': "ds_rest s' = secp256k1_ecdsa_signature_serialize_compact (cr_sig m) @ r"
      "msg_consensus_req_parse ?s = sbind (sig_unserialize s') (\<lambda>(g, s). Inr (m\<lparr>cr_sig := g\<rparr>, s))"
      using consensus_req_fields [OF rest] by blast
    have "sig_unserialize s' = Inl IllFormedSignature" using sig_unserialize_bad [OF _ s'(1)] False mem by simp
    then have "msg_consensus_req_parse ?s = Inl IllFormedSignature" using s'(2) by simp
    then show ?thesis using False by (simp add: msg_consensus_req_new_def m_def)
  qed
qed

section \<open>Blocks over the wire\<close>

fun add_fresh :: "(bytes \<Rightarrow> hash) \<Rightarrow> block list \<Rightarrow> entity_storage \<Rightarrow> entity_storage" where
  "add_fresh sha [] st = st"
| "add_fresh sha (b # bs) st = add_fresh sha bs (snd (add_blk (block_fresh sha b) st))"

lemma put_blocks_enc: "list_all block_ok bs \<Longrightarrow> put_blocks bs s = Inr (ds_put_data (concat (map block_enc bs)) s)"
  by (induction bs arbitrary: s) (simp_all add: block_serialize_enc)

lemma get_blocks_enc:
  "list_all block_ok bs \<Longrightarrow> ds_rest s = concat (map block_enc bs) @ r \<Longrightarrow>
   get_blocks sha (length bs) st s = Inr (map (\<lambda>b. sha (block_enc b)) bs, add_fresh sha bs st,
     ds_skip (length (concat (map block_enc bs))) s)"
proof (induction bs arbitrary: s st)
  case (Cons b bs)
  have r0: "ds_rest s = block_enc b @ concat (map block_enc bs) @ r" using Cons.prems by simp
  have h: "fst (add_blk (block_fresh sha b) st) = sha (block_enc b)" by (simp add: add_blk_def block_fresh_def)
  show ?case
    using Cons.prems block_unserialize_enc [OF _ r0, of sha] Cons.IH [OF _ ds_rest_skip [OF r0]] h
    by (simp add: case_prod_beta Let_def add.commute)
qed simp

text \<open>a response with blocks and a proposal arrive as the blocks they were made of: the handles are
  the hashes of the bytes, the storage gains the blocks with their derived fields fresh, and a
  block that is cached already is not replaced.\<close>

theorem blocks_roundtrip:
  assumes "list_all block_ok bs" "length bs < 2 ^ 32" "prop_blk p = h" "get_blk c h = Inr b" "block_ok b"
  shows "(\<exists>s s'. msg_resp_block_new bs = Inr s \<and> msg_resp_block_parse sha d (ds_of_bytes (buffer s)) =
      Inr (map (\<lambda>b. sha (block_enc b)) bs, d\<lparr>storage := add_fresh sha bs (storage d)\<rparr>, s') \<and> ds_rest s' = []) \<and>
    (\<exists>s s'. msg_propose_new c p = Inr s \<and> msg_propose_parse sha d (ds_of_bytes (buffer s)) =
      Inr (\<lparr>proposer = proposer p, prop_blk = sha (block_enc b)\<rparr>, d\<lparr>storage := add_fresh sha [b] (storage d)\<rparr>, s') \<and> ds_rest s' = [])"
proof
  let ?s = "ds_put_data (concat (map block_enc bs)) (ds_put (word_of_nat (length bs) :: u32) ds_new)"
  have "msg_resp_block_new bs = Inr ?s" by (simp add: msg_resp_block_new_def put_blocks_enc [OF assms(1)])
  have r0: "ds_rest (ds_of_bytes (buffer ?s)) = len_enc bs @ concat (map block_enc bs) @ []"
    by (simp add: ds_put_int len_enc_def)
  note r1 = ds_rest_skip [OF r0]
  have n: "unat (word_of_nat (length bs) :: u32) = length bs" using assms(2) by (simp add: unat_of_nat)
  show "\<exists>s s'. msg_resp_block_new bs = Inr s \<and> msg_resp_block_parse sha d (ds_of_bytes (buffer s)) =
      Inr (map (\<lambda>b. sha (block_enc b)) bs, d\<lparr>storage := add_fresh sha bs (storage d)\<rparr>, s') \<and> ds_rest s' = []"
    using \<open>msg_resp_block_new bs = Inr ?s\<close> get_u32_enc [OF r0] get_blocks_enc [OF assms(1) r1, of sha] ds_rest_skip [OF r1] n
    by (simp add: msg_resp_block_parse_def)
  let ?t = "ds_put_data (block_enc b) (ds_put (proposer p) ds_new)"
  have new: "msg_propose_new c p = Inr ?t"
    using assms(3,4) by (simp add: msg_propose_new_def proposal_serialize_def block_serialize_enc [OF assms(5)])
  have q0: "ds_rest (ds_of_bytes (buffer ?t)) = int_enc (proposer p) @ block_enc b @ []" by (simp add: ds_put_int)
  note q1 = ds_rest_skip [OF q0]
  show "\<exists>s s'. msg_propose_new c p = Inr s \<and> msg_propose_parse sha d (ds_of_bytes (buffer s)) =
      Inr (\<lparr>proposer = proposer p, prop_blk = sha (block_enc b)\<rparr>, d\<lparr>storage := add_fresh sha [b] (storage d)\<rparr>, s') \<and> ds_rest s' = []"
    using new u16c.get_enc [OF TrueI q0] block_unserialize_enc [OF assms(5) q1, of sha] ds_rest_skip [OF q1]
    by (simp add: msg_propose_parse_def proposal_unserialize_def case_prod_beta Let_def add_blk_def block_fresh_def)
qed

theorem blocks_roundtrip_witness:
  "\<exists>s s'. msg_resp_block_new [sample_block, sample_block] = Inr s \<and>
     msg_resp_block_parse (\<lambda>bs. word_of_nat (of_le bs)) (core_new (\<lambda>bs. 0) 0 (\<lambda>h. sample_sig) :: unit core) (ds_of_bytes (buffer s)) =
      Inr (map (\<lambda>b. word_of_nat (of_le (block_enc b))) [sample_block, sample_block],
        (core_new (\<lambda>bs. 0) 0 (\<lambda>h. sample_sig))\<lparr>storage := add_fresh (\<lambda>bs. word_of_nat (of_le bs)) [sample_block, sample_block]
          (storage (core_new (\<lambda>bs. 0) 0 (\<lambda>h. sample_sig) :: unit core))\<rparr>, s') \<and> ds_rest s' = []"
  by (rule conjunct1 [OF blocks_roundtrip [where p = "\<lparr>proposer = 0, prop_blk = 7\<rparr>" and h = 7
        and c = "set_blk 7 sample_block (core_new (\<lambda>bs. 0) 0 (\<lambda>h. sample_sig) :: unit core)" and b = sample_block]])
    (simp_all add: sample_block_ok get_blk_def set_blk_def)

end
