(* ===== verification/HotStuff_Base.thy ===== *)
theory HotStuff_Base
  imports Messages "HOL-Library.Multiset"
begin

text \<open>
  \<open>HotStuffBase\<close> (\<open>include/hotstuff/hotstuff.h\<close>, \<open>src/hotstuff.cpp\<close>): the layer between the
  protocol core and the network. An operation takes the state and gives the state after it with
  the actions it took, in order: messages sent, callbacks called, promises resolved. What a
  program part does when a promise resolves (\<open>then\<close>) is an operation of its own, and the action
  that registered it names it. \<open>'cb\<close> are the callbacks of clients, \<open>'a\<close> network addresses.
\<close>

section \<open>State\<close>

record fetch_context =
  fc_hash :: hash
  fc_replicas :: "hash set"

record ('pk, 'a, 'cb) base =
  core :: "'pk core"
  blk_size :: nat
  peers :: "hash list"
  valid_tls_certs :: "hash set"
  blk_fetch_waiting :: "hash \<rightharpoonup> fetch_context"
  blk_delivery_waiting :: "hash set"
  decision_waiting :: "hash \<rightharpoonup> 'cb"
  cmd_pending :: "(hash \<times> 'cb) list"
  ordering1 :: "(hash \<times> 'cb) list"
  ordering2 :: "(hash \<times> 'cb) list"
  cmd_pending_buffer :: "hash list"
  leader_propose :: "hash set"
  commit_set :: "((hash \<times> u64) \<times> 'a) list"
  stable_point :: u64
  stable_point_idx :: u32
  stable_point_errors :: "(u64 \<times> u32) list"
  fetched :: u64
  n_delivered :: u64
  part_decided :: u32

datatype ('a, 'cb) action =
    Callback 'cb finality                \<comment> \<open>a \<open>commit_cb_t\<close> is called\<close>
  | Callback1 'cb ordering1_finality
  | Callback2 'cb ordering2_finality
  | StateMachineExecute finality
  | PmOnConsensus hash                   \<comment> \<open>\<open>pmaker->on_consensus\<close>\<close>
  | BeatThenPropose "hash list"          \<comment> \<open>\<open>pmaker->beat().then\<close>: \<open>beat_propose\<close>\<close>
  | BeatRespThenVote rid vote            \<comment> \<open>\<open>pmaker->beat_resp(..).then\<close>: \<open>beat_vote\<close>\<close>
  | Send hash datastream                 \<comment> \<open>\<open>pn.send_msg\<close> to a peer\<close>
  | Multicast "hash list" datastream
  | FetchResolved hash                   \<comment> \<open>the promise of a fetch is resolved\<close>
  | DeliveryResolved hash bool           \<comment> \<open>the promise of a delivery is resolved or rejected\<close>
  | FetchThenDeliver hash hash           \<comment> \<open>when the block is fetched: \<open>deliver_fetched\<close>\<close>
  | VerifyThenDeliver hash "hash list"   \<comment> \<open>when the block is verified, the certified block fetched and the parents delivered: \<open>deliver_ready\<close>\<close>
  | DeliverThenProposal proposal         \<comment> \<open>when the block is delivered: \<open>on_receive_proposal\<close>\<close>
  | DeliverVerifyThenVote vote           \<comment> \<open>when the block is delivered and the vote verified: \<open>vote_verified\<close>\<close>
  | FetchAllThenRespond "hash list" hash \<comment> \<open>when the blocks are fetched: \<open>respond_blocks\<close>\<close>

datatype base_error =
    CoreError core_error
  | CodecError cert_error
  | AssertionFailed
  | UnreachableLine      \<comment> \<open>\<open>HotStuffError("unreachable line")\<close>\<close>

section \<open>Fetching blocks\<close>

definition fetch_send :: "fetch_context \<Rightarrow> hash \<Rightarrow> ('a, 'cb) action list" where
  "fetch_send fc replica = [Send replica (msg_req_block_new [fc_hash fc])]"

definition fetch_add_replica :: "hash \<Rightarrow> bool \<Rightarrow> fetch_context \<Rightarrow> fetch_context \<times> ('a, 'cb) action list" where
  "fetch_add_replica replica fetch_now fc =
     (fc\<lparr>fc_replicas := insert replica (fc_replicas fc)\<rparr>, if fc_replicas fc = {} \<and> fetch_now then fetch_send fc replica else [])"

text \<open>The timer of a context asks all its replicas again; \<open>order\<close> is the iteration order of the set.\<close>

definition fetch_timeout :: "hash list \<Rightarrow> fetch_context \<Rightarrow> ('a, 'cb) action list" where
  "fetch_timeout order fc = concat (map (fetch_send fc) order)"

definition async_fetch_blk ::
  "hash \<Rightarrow> hash option \<Rightarrow> bool \<Rightarrow> ('pk, 'a, 'cb) base \<Rightarrow> bool \<times> ('pk, 'a, 'cb) base \<times> ('a, 'cb) action list"
where
  "async_fetch_blk h replica fetch_now b =
     (if is_blk_fetched (storage (core b)) h then (True, b, [])
      else
        let fc = (case blk_fetch_waiting b h of None \<Rightarrow> \<lparr>fc_hash = h, fc_replicas = {}\<rparr> | Some fc \<Rightarrow> fc);
            (fc, acts) = (case replica of None \<Rightarrow> (fc, []) | Some r \<Rightarrow> fetch_add_replica r fetch_now fc)
        in (False, b\<lparr>blk_fetch_waiting := (blk_fetch_waiting b)(h \<mapsto> fc)\<rparr>, acts))"

definition on_fetch_blk :: "hash \<Rightarrow> ('pk, 'a, 'cb) base \<Rightarrow> ('pk, 'a, 'cb) base \<times> ('a, 'cb) action list" where
  "on_fetch_blk h b =
     (let b = b\<lparr>fetched := fetched b + 1\<rparr> in
      if h \<in> dom (blk_fetch_waiting b)
      then (b\<lparr>blk_fetch_waiting := (blk_fetch_waiting b)(h := None)\<rparr>, [FetchResolved h])
      else (b, []))"

section \<open>Delivering blocks\<close>

definition base_deliver_blk ::
  "hash \<Rightarrow> ('pk, 'a, 'cb) base \<Rightarrow> base_error + (bool \<times> ('pk, 'a, 'cb) base \<times> ('a, 'cb) action list)"
where
  "base_deliver_blk h b =
     sbind (map_err CoreError (get_blk (core b) h)) (\<lambda>blk.
     if \<not> list_all (is_blk_delivered (storage (core b))) (parent_hashes blk) then Inl AssertionFailed
     else
       sbind (map_err CoreError (on_deliver_blk h (core b))) (\<lambda>(valid, c).
       let b = b\<lparr>core := c\<rparr>;
           b = (if valid then b\<lparr>n_delivered := n_delivered b + 1\<rparr> else b)
       in if h \<in> blk_delivery_waiting b
          then Inr (valid, b\<lparr>blk_delivery_waiting := blk_delivery_waiting b - {h}\<rparr>, [DeliveryResolved h valid])
          else Inr (True, b, [])))"

definition async_deliver_blk ::
  "hash \<Rightarrow> hash \<Rightarrow> ('pk, 'a, 'cb) base \<Rightarrow> bool \<times> ('pk, 'a, 'cb) base \<times> ('a, 'cb) action list"
where
  "async_deliver_blk h replica b =
     (if is_blk_delivered (storage (core b)) h then (True, b, [])
      else if h \<in> blk_delivery_waiting b then (False, b, [])
      else
        let b = b\<lparr>blk_delivery_waiting := insert h (blk_delivery_waiting b)\<rparr>;
            (_, b, acts) = async_fetch_blk h (Some replica) True b
        in (False, b, acts @ [FetchThenDeliver h replica]))"

fun async_deliver_all ::
  "hash list \<Rightarrow> hash \<Rightarrow> ('pk, 'a, 'cb) base \<Rightarrow> ('pk, 'a, 'cb) base \<times> ('a, 'cb) action list"
where
  "async_deliver_all [] replica b = (b, [])"
| "async_deliver_all (h # hs) replica b =
     (let (_, b, acts) = async_deliver_blk h replica b; (b, acts') = async_deliver_all hs replica b in (b, acts @ acts'))"

text \<open>\<open>assert(qc)\<close>; the block the certificate is for is fetched, the parents are delivered.\<close>

definition deliver_fetched ::
  "hash \<Rightarrow> hash \<Rightarrow> ('pk, 'a, 'cb) base \<Rightarrow> base_error + (('pk, 'a, 'cb) base \<times> ('a, 'cb) action list)"
where
  "deliver_fetched h replica b =
     sbind (map_err CoreError (get_blk (core b) h)) (\<lambda>blk.
     case qc blk of None \<Rightarrow> Inl AssertionFailed
     | Some q \<Rightarrow>
         let (_, b, acts) = async_fetch_blk (qc_get_obj_hash q) (Some replica) True b;
             (b, acts') = async_deliver_all (parent_hashes blk) replica b
         in Inr (b, acts @ acts' @ [VerifyThenDeliver h (parent_hashes blk)]))"

text \<open>The genesis block counts as verified.\<close>

definition deliver_ready ::
  "('pk \<Rightarrow> hash \<Rightarrow> signature \<Rightarrow> bool) \<Rightarrow> hash \<Rightarrow> ('pk, 'a, 'cb) base \<Rightarrow>
   base_error + (('pk, 'a, 'cb) base \<times> ('a, 'cb) action list)"
where
  "deliver_ready ver h b =
     sbind (map_err CoreError (get_blk (core b) h)) (\<lambda>blk.
     sbind (if h = b0 (core b) then Inr True
            else map_err CodecError (block_verify_async ver (b0 (core b)) (config (core b)) blk)) (\<lambda>ok.
     if ok then sbind (base_deliver_blk h b) (\<lambda>(_, b, acts). Inr (b, acts)) else Inr (b, [])))"

section \<open>Handlers of the replica network\<close>

definition propose_handler ::
  "(bytes \<Rightarrow> hash) \<Rightarrow> hash option \<Rightarrow> datastream \<Rightarrow> ('pk, 'a, 'cb) base \<Rightarrow>
   base_error + (('pk, 'a, 'cb) base \<times> ('a, 'cb) action list)"
where
  "propose_handler sha peer s b =
     (case peer of None \<Rightarrow> Inr (b, [])
      | Some peer \<Rightarrow>
          sbind (map_err CodecError (msg_propose_parse sha (core b) s)) (\<lambda>(prop, c, _).
          let (_, b, acts) = async_deliver_blk (prop_blk prop) peer (b\<lparr>core := c\<rparr>)
          in Inr (b, acts @ [DeliverThenProposal prop])))"

definition vote_handler ::
  "hash option \<Rightarrow> datastream \<Rightarrow> ('pk, 'a, 'cb) base \<Rightarrow> base_error + (('pk, 'a, 'cb) base \<times> ('a, 'cb) action list)"
where
  "vote_handler peer s b =
     (case peer of None \<Rightarrow> Inr (b, [])
      | Some peer \<Rightarrow>
          sbind (map_err CodecError (msg_vote_parse s)) (\<lambda>(v, _).
          sbind (map_err CodecError (get_pubkey (config (core b)) (voter v))) (\<lambda>_.
          let (_, b, acts) = async_deliver_blk (vote_hash v) peer b
          in Inr (b, acts @ [DeliverVerifyThenVote v]))))"

definition req_blk_handler ::
  "hash option \<Rightarrow> datastream \<Rightarrow> ('pk, 'a, 'cb) base \<Rightarrow> base_error + (('pk, 'a, 'cb) base \<times> ('a, 'cb) action list)"
where
  "req_blk_handler peer s b =
     (case peer of None \<Rightarrow> Inr (b, [])
      | Some replica \<Rightarrow>
          sbind (map_err CodecError (msg_req_block_parse s)) (\<lambda>(hs, _).
          Inr (fold (\<lambda>h b. fst (snd (async_fetch_blk h None True b))) hs b, [FetchAllThenRespond hs replica])))"

fun get_blks :: "'pk core \<Rightarrow> hash list \<Rightarrow> core_error + block list" where
  "get_blks c [] = Inr []"
| "get_blks c (h # hs) = sbind (get_blk c h) (\<lambda>b. sbind (get_blks c hs) (\<lambda>bs. Inr (b # bs)))"

definition respond_blocks :: "hash list \<Rightarrow> hash \<Rightarrow> ('pk, 'a, 'cb) base \<Rightarrow> base_error + ('a, 'cb) action list" where
  "respond_blocks hs replica b =
     sbind (map_err CoreError (get_blks (core b) hs)) (\<lambda>blks.
     sbind (map_err CodecError (msg_resp_block_new blks)) (\<lambda>s. Inr [Send replica s]))"

fun fetch_blks :: "hash list \<Rightarrow> ('pk, 'a, 'cb) base \<Rightarrow> ('pk, 'a, 'cb) base \<times> ('a, 'cb) action list" where
  "fetch_blks [] b = (b, [])"
| "fetch_blks (h # hs) b = (let (b, acts) = on_fetch_blk h b; (b, acts') = fetch_blks hs b in (b, acts @ acts'))"

definition resp_blk_handler ::
  "(bytes \<Rightarrow> hash) \<Rightarrow> datastream \<Rightarrow> ('pk, 'a, 'cb) base \<Rightarrow> base_error + (('pk, 'a, 'cb) base \<times> ('a, 'cb) action list)"
where
  "resp_blk_handler sha s b =
     sbind (map_err CodecError (msg_resp_block_parse sha (core b) s)) (\<lambda>(hs, c, _). Inr (fetch_blks hs (b\<lparr>core := c\<rparr>)))"

definition conn_handler :: "hash option \<Rightarrow> bool \<Rightarrow> ('pk, 'a, 'cb) base \<Rightarrow> bool" where
  "conn_handler cert connected b =
     (if connected then (case cert of None \<Rightarrow> True | Some h \<Rightarrow> h \<in> valid_tls_certs b) else True)"

section \<open>Callbacks of the protocol core\<close>

definition do_broadcast_proposal :: "proposal \<Rightarrow> ('pk, 'a, 'cb) base \<Rightarrow> base_error + ('a, 'cb) action list" where
  "do_broadcast_proposal prop b =
     sbind (map_err CoreError (msg_propose_new (core b) prop)) (\<lambda>s. Inr [Multicast (peers b) s])"

definition do_vote :: "rid \<Rightarrow> vote \<Rightarrow> ('a, 'cb) action list" where
  "do_vote last_proposer v = [BeatRespThenVote last_proposer v]"

definition beat_vote :: "rid \<Rightarrow> vote \<Rightarrow> ('pk, 'a, 'cb) base \<Rightarrow> base_error + ('a, 'cb) action list" where
  "beat_vote p v b =
     (if p = core_id (core b) then Inl UnreachableLine
      else sbind (map_err CodecError (get_peer_id (config (core b)) p)) (\<lambda>peer. Inr [Send peer (msg_vote_new v)]))"

definition do_consensus :: "hash \<Rightarrow> ('a, 'cb) action list" where
  "do_consensus h = [PmOnConsensus h]"

definition do_decide :: "finality \<Rightarrow> ('pk, 'a, 'cb) base \<Rightarrow> ('pk, 'a, 'cb) base \<times> ('a, 'cb) action list" where
  "do_decide fin b =
     (let b = b\<lparr>part_decided := part_decided b + 1\<rparr> in
      case decision_waiting b (fin_cmd_hash fin) of
        None \<Rightarrow> (b, [StateMachineExecute fin])
      | Some cb \<Rightarrow> (b\<lparr>decision_waiting := (decision_waiting b)(fin_cmd_hash fin := None)\<rparr>,
                    [StateMachineExecute fin, Callback cb fin]))"

section \<open>Submitting commands\<close>

definition exec_command :: "hash \<Rightarrow> 'cb \<Rightarrow> ('pk, 'a, 'cb) base \<Rightarrow> ('pk, 'a, 'cb) base" where
  "exec_command h cb b = b\<lparr>cmd_pending := cmd_pending b @ [(h, cb)]\<rparr>"

definition exec_ordering1 :: "hash \<Rightarrow> 'cb \<Rightarrow> ('pk, 'a, 'cb) base \<Rightarrow> ('pk, 'a, 'cb) base" where
  "exec_ordering1 h cb b = b\<lparr>ordering1 := ordering1 b @ [(h, cb)]\<rparr>"

definition exec_ordering2 :: "hash \<Rightarrow> 'cb \<Rightarrow> ('pk, 'a, 'cb) base \<Rightarrow> ('pk, 'a, 'cb) base" where
  "exec_ordering2 h cb b = b\<lparr>ordering2 := ordering2 b @ [(h, cb)]\<rparr>"

text \<open>A command that is pending already is answered at once with decision 0.\<close>

definition dup_finality :: "rid \<Rightarrow> hash \<Rightarrow> finality" where
  "dup_finality i h = \<lparr>fin_rid = i, fin_decision = 0, fin_cmd_idx = 0, fin_cmd_height = 0, fin_cmd_hash = h, fin_blk_hash = 0\<rparr>"

definition await_decision :: "hash \<Rightarrow> 'cb \<Rightarrow> ('pk, 'a, 'cb) base \<Rightarrow> ('pk, 'a, 'cb) base \<times> ('a, 'cb) action list" where
  "await_decision h cb b =
     (if h \<in> dom (decision_waiting b) then (b, [Callback cb (dup_finality (core_id (core b)) h)])
      else (b\<lparr>decision_waiting := (decision_waiting b)(h \<mapsto> cb)\<rparr>, []))"

definition exec_single_command ::
  "rid \<Rightarrow> hash \<Rightarrow> 'cb \<Rightarrow> ('pk, 'a, 'cb) base \<Rightarrow> ('pk, 'a, 'cb) base \<times> ('a, 'cb) action list"
where
  "exec_single_command p h cb b =
     (let (b, acts) = await_decision h cb b
      in (b, acts @ (if p \<noteq> core_id (core b) then [] else [BeatThenPropose [h]])))"

definition exec_command_noresp :: "rid \<Rightarrow> hash \<Rightarrow> ('pk, 'a, 'cb) base \<Rightarrow> ('a, 'cb) action list" where
  "exec_command_noresp p h b = (if p \<noteq> core_id (core b) then [] else [BeatThenPropose [h]])"

text \<open>
  The handler of \<open>cmd_pending\<close> in \<open>start\<close>: it takes commands from the queue until the queue is
  empty, or a block is full (then it returns \<open>true\<close> and is called again). \<open>p\<close> is the proposer.
\<close>

fun cmd_pending_loop ::
  "rid \<Rightarrow> (hash \<times> 'cb) list \<Rightarrow> ('pk, 'a, 'cb) base \<Rightarrow> bool \<times> ('pk, 'a, 'cb) base \<times> ('a, 'cb) action list"
where
  "cmd_pending_loop p [] b = (False, b\<lparr>cmd_pending := []\<rparr>, [])"
| "cmd_pending_loop p ((h, cb) # q) b =
     (let (b, acts) = await_decision h cb b in
      if p \<noteq> core_id (core b) then
        (let (r, b, acts') = cmd_pending_loop p q b in (r, b, acts @ acts'))
      else
        let b = b\<lparr>cmd_pending_buffer := cmd_pending_buffer b @ [h]\<rparr> in
        if length (cmd_pending_buffer b) \<ge> blk_size b then
          (True, b\<lparr>cmd_pending := q, cmd_pending_buffer := drop (blk_size b) (cmd_pending_buffer b)\<rparr>,
           acts @ [BeatThenPropose (take (blk_size b) (cmd_pending_buffer b))])
        else
          (let (r, b, acts') = cmd_pending_loop p q b in (r, b, acts @ acts')))"

definition cmd_pending_handler ::
  "rid \<Rightarrow> ('pk, 'a, 'cb) base \<Rightarrow> bool \<times> ('pk, 'a, 'cb) base \<times> ('a, 'cb) action list"
where
  "cmd_pending_handler p b = cmd_pending_loop p (cmd_pending b) b"

text \<open>The continuation of a beat: propose when this replica is the proposer the beat names.\<close>

definition beat_propose ::
  "(bytes \<Rightarrow> hash) \<Rightarrow> rid \<Rightarrow> hash list \<Rightarrow> hash list \<Rightarrow> ('pk, 'a, 'cb) base \<Rightarrow>
   base_error + (('pk, 'a, 'cb) base \<times> event list)"
where
  "beat_propose sha p cs ps b =
     (if p = core_id (core b)
      then sbind (map_err CoreError (on_propose sha cs ps [] (core b))) (\<lambda>(_, c, ev). Inr (b\<lparr>core := c\<rparr>, ev))
      else Inr (b, []))"

section \<open>The ordering phases of Archipelago\<close>

text \<open>
  Phase one stamps a command with the clock of the replica, in microseconds; the stamp is the low
  64 bits of a 32-byte buffer, signed with a fixed key: \<open>sign\<close>. \<open>now\<close> gives the clock at each command.
\<close>

fun ordering1_loop :: "(hash \<Rightarrow> signature) \<Rightarrow> (nat \<Rightarrow> u64 \<times> u64) \<Rightarrow> nat \<Rightarrow> (hash \<times> 'cb) list \<Rightarrow> ('a, 'cb) action list" where
  "ordering1_loop sign now k [] = []"
| "ordering1_loop sign now k ((h, cb) # q) =
     (let (sec, usec) = now k;
          timestamp_us = sec;
          timestamp_us = timestamp_us * (1000 * 1000);
          timestamp_us = timestamp_us + usec;
          timestamp = ucast timestamp_us;
          sig = sign timestamp
      in Callback1 cb \<lparr>o1_cmd_hash = h, o1_timestamp = timestamp, o1_timestamp_us = timestamp_us, o1_sig = sig\<rparr> #
           ordering1_loop sign now (Suc k) q)"

definition ordering1_handler ::
  "(hash \<Rightarrow> signature) \<Rightarrow> (nat \<Rightarrow> u64 \<times> u64) \<Rightarrow> ('pk, 'a, 'cb) base \<Rightarrow> ('pk, 'a, 'cb) base \<times> ('a, 'cb) action list"
where
  "ordering1_handler sign now b = (b\<lparr>ordering1 := []\<rparr>, ordering1_loop sign now 0 (ordering1 b))"

text \<open>Phase two signs the fixed text \<open>"00"\<close>; the signatures it then verifies have no effect.\<close>

definition ordering2_handler ::
  "(hash \<Rightarrow> signature) \<Rightarrow> ('pk, 'a, 'cb) base \<Rightarrow> ('pk, 'a, 'cb) base \<times> ('a, 'cb) action list"
where
  "ordering2_handler sign b =
     (let timestamp = 0x3030 in
      (b\<lparr>ordering2 := []\<rparr>,
       map (\<lambda>(h, cb). Callback2 cb \<lparr>o2_cmd_hash = h, o2_timestamp = timestamp, o2_sig = sign timestamp\<rparr>) (ordering2 b)))"

definition commit_ts :: "((hash \<times> u64) \<times> 'a) \<Rightarrow> u64" where
  "commit_ts e = snd (fst e)"

text \<open>\<open>commit_set_cmp\<close> orders by timestamp; \<open>srt\<close> stands for \<open>std::sort\<close>, which may order equal
  timestamps as it likes.\<close>

definition commit_set_cmp :: "((hash \<times> u64) \<times> 'a) \<Rightarrow> ((hash \<times> u64) \<times> 'a) \<Rightarrow> bool" where
  "commit_set_cmp x y = (commit_ts x < commit_ts y)"

definition sort_from :: "('e list \<Rightarrow> 'e list) \<Rightarrow> nat \<Rightarrow> 'e list \<Rightarrow> base_error + 'e list" where
  "sort_from srt i xs = (if i \<le> length xs then Inr (take i xs @ srt (drop i xs)) else Inl (CoreError Undefined))"

definition check_stable_point_index ::
  "(((hash \<times> u64) \<times> 'a) list \<Rightarrow> ((hash \<times> u64) \<times> 'a) list) \<Rightarrow> hash \<Rightarrow> u64 \<Rightarrow> u32 \<Rightarrow> ('pk, 'a, 'cb) base \<Rightarrow>
   base_error + ('pk, 'a, 'cb) base"
where
  "check_stable_point_index srt commit_set_hash stable_timestamp stable_idx b =
     sbind (if stable_point_idx b < stable_idx
            then sbind (sort_from srt (unat (stable_point_idx b)) (commit_set b))
                   (\<lambda>cs. Inr (b\<lparr>commit_set := cs, stable_point_idx := stable_idx\<rparr>))
            else Inr b) (\<lambda>b.
     let commit_set_size = (word_of_nat (length (commit_set b)) :: u32) in
     if stable_idx < commit_set_size \<and> commit_ts (commit_set b ! unat stable_idx) > stable_timestamp \<and>
        stable_idx > 0 \<and> commit_ts (commit_set b ! unat (stable_idx - 1)) \<le> stable_timestamp
     then Inr b
     else Inr (b\<lparr>stable_point_errors := stable_point_errors b @ [(stable_timestamp, stable_idx)]\<rparr>))"

definition broadcast_start_consensus ::
  "signature \<Rightarrow> hash \<Rightarrow> u64 \<Rightarrow> u32 \<Rightarrow> hash \<Rightarrow> hash \<Rightarrow> hash \<Rightarrow> hash \<Rightarrow> ('pk, 'a, 'cb) base \<Rightarrow> ('a, 'cb) action list"
where
  "broadcast_start_consensus mem h t i h1 h2 h3 h4 b = [Multicast (peers b) (msg_consensus_req_new mem h t i h1 h2 h3 h4)]"

definition resp_start_consensus ::
  "signature \<Rightarrow> hash \<Rightarrow> hash \<Rightarrow> hash \<Rightarrow> hash \<Rightarrow> hash \<Rightarrow> hash \<Rightarrow> ('a, 'cb) action list"
where
  "resp_start_consensus mem h h1 h2 h3 h4 leader = [Send leader (msg_consensus_resp_new mem h h1 h2 h3 h4)]"

text \<open>\<open>noop\<close> is the empty callback \<open>[](Finality) {}\<close>. Replica 1 is the leader.\<close>

definition server_consensus_request_cmd_handler ::
  "(((hash \<times> u64) \<times> 'a) list \<Rightarrow> ((hash \<times> u64) \<times> 'a) list) \<Rightarrow> 'cb \<Rightarrow> datastream \<Rightarrow> ('pk, 'a, 'cb) base \<Rightarrow>
   base_error + ('pk, 'a, 'cb) base"
where
  "server_consensus_request_cmd_handler srt noop s b =
     sbind (map_err CodecError (msg_consensus_req_parse s)) (\<lambda>(m, _).
     if core_id (core b) = 1 then Inr b
     else
       sbind (check_stable_point_index srt (cr_commit_set_hash m) (cr_stable_timestamp m) (cr_stable_idx m) b) (\<lambda>b.
       Inr (exec_command (cr_hash4 m) noop (exec_command (cr_hash3 m) noop (exec_command (cr_hash2 m) noop
         (exec_command (cr_commit_set_hash m) noop b))))))"

definition server_consensus_reponse_cmd_handler :: "datastream \<Rightarrow> ('pk, 'a, 'cb) base \<Rightarrow> base_error + ('pk, 'a, 'cb) base" where
  "server_consensus_reponse_cmd_handler s b =
     (if core_id (core b) \<noteq> 1 then Inr b
      else
        sbind (map_err CodecError (msg_consensus_resp_parse s)) (\<lambda>((h, _), _).
        if h \<in> leader_propose b then Inr b else Inr (b\<lparr>leader_propose := insert h (leader_propose b)\<rparr>)))"

section \<open>Batches\<close>

fun proposed :: "('a, 'cb) action list \<Rightarrow> hash list list" where
  "proposed [] = []"
| "proposed (BeatThenPropose cs # acts) = cs # proposed acts"
| "proposed (_ # acts) = proposed acts"

lemma proposed_append [simp]: "proposed (xs @ ys) = proposed xs @ proposed ys"
  by (induction xs rule: proposed.induct) auto

lemma await_simps [simp]:
  "core (fst (await_decision h cb b)) = core b" "blk_size (fst (await_decision h cb b)) = blk_size b"
  "cmd_pending_buffer (fst (await_decision h cb b)) = cmd_pending_buffer b"
  "cmd_pending (fst (await_decision h cb b)) = cmd_pending b" "proposed (snd (await_decision h cb b)) = []"
  by (simp_all add: await_decision_def)

lemma cmd_pending_loop_batches:
  assumes "cmd_pending_loop p q b = (r, b', acts)" "p = core_id (core b)" "length (cmd_pending_buffer b) < blk_size b"
  shows "\<exists>done. q = done @ cmd_pending b' \<and> cmd_pending_buffer b @ map fst done = concat (proposed acts) @ cmd_pending_buffer b' \<and>
    (\<forall>cs\<in>set (proposed acts). length cs = blk_size b) \<and> length (cmd_pending_buffer b') < blk_size b \<and>
    r = (proposed acts \<noteq> []) \<and> (\<not> r \<longrightarrow> cmd_pending b' = [])"
  using assms
proof (induction q arbitrary: b r b' acts)
  case (Cons e q)
  obtain h cb where e: "e = (h, cb)" by (cases e)
  define b1 where "b1 = fst (await_decision h cb b)"
  define b2 where "b2 = b1\<lparr>cmd_pending_buffer := cmd_pending_buffer b1 @ [h]\<rparr>"
  have b2: "cmd_pending_buffer b2 = cmd_pending_buffer b @ [h]" "core b2 = core b" "blk_size b2 = blk_size b"
    by (simp_all add: b2_def b1_def)
  show ?case
  proof (cases "length (cmd_pending_buffer b2) \<ge> blk_size b")
    case True
    then have full: "length (cmd_pending_buffer b2) = blk_size b" using Cons.prems(3) b2(1) by simp
    then have "r" "b' = b2\<lparr>cmd_pending := q, cmd_pending_buffer := []\<rparr>" "proposed acts = [cmd_pending_buffer b2]"
      using Cons.prems(1,2) True b2 by (auto simp: e case_prod_beta Let_def b2_def b1_def)
    then show ?thesis using full b2(1) Cons.prems(3) by (intro exI [of _ "[e]"]) (auto simp: e)
  next
    case False
    obtain r2 b3 acts2 where rec: "cmd_pending_loop p q b2 = (r2, b3, acts2)" by (metis prod_cases3)
    have out: "r = r2" "b' = b3" "proposed acts = proposed acts2"
      using Cons.prems(1,2) False b2 rec by (auto simp: e case_prod_beta Let_def b2_def b1_def)
    obtain pre where pre: "q = pre @ cmd_pending b3"
      "cmd_pending_buffer b2 @ map fst pre = concat (proposed acts2) @ cmd_pending_buffer b3"
      "\<forall>cs\<in>set (proposed acts2). length cs = blk_size b" "length (cmd_pending_buffer b3) < blk_size b"
      "r2 = (proposed acts2 \<noteq> [])" "\<not> r2 \<longrightarrow> cmd_pending b3 = []"
      using Cons.IH [OF rec] Cons.prems(2) False b2 by (metis not_le)
    show ?thesis using pre b2(1) by (intro exI [of _ "e # pre"]) (simp add: out e)
  qed
qed auto


section \<open>Answers to clients\<close>

fun answered :: "('a, 'cb) action list \<Rightarrow> 'cb multiset" where
  "answered [] = {#}"
| "answered (Callback cb fin # acts) = add_mset cb (answered acts)"
| "answered (_ # acts) = answered acts"

lemma answered_append [simp]: "answered (xs @ ys) = answered xs + answered ys"
  by (induction xs rule: answered.induct) auto

definition waiting_cbs :: "(hash \<rightharpoonup> 'cb) \<Rightarrow> 'cb multiset" where
  "waiting_cbs m = image_mset (\<lambda>h. the (m h)) (mset_set (dom m))"

lemma waiting_cbs_insert: "finite (dom m) \<Longrightarrow> h \<notin> dom m \<Longrightarrow> waiting_cbs (m(h \<mapsto> cb)) = add_mset cb (waiting_cbs m)"
proof -
  assume m: "finite (dom m)" "h \<notin> dom m"
  have "image_mset (\<lambda>k. the ((m(h \<mapsto> cb)) k)) (mset_set (dom m)) = image_mset (\<lambda>k. the (m k)) (mset_set (dom m))"
    using m by (intro image_mset_cong) auto
  then show ?thesis using m by (simp add: waiting_cbs_def)
qed

lemma waiting_cbs_remove: "finite (dom m) \<Longrightarrow> m h = Some cb \<Longrightarrow> waiting_cbs m = add_mset cb (waiting_cbs (m(h := None)))"
proof -
  assume m: "finite (dom m)" "m h = Some cb"
  have "m = (m(h := None))(h \<mapsto> cb)" using m(2) by auto
  moreover have "h \<notin> dom (m(h := None))" "finite (dom (m(h := None)))" using m(1) by auto
  ultimately show ?thesis using waiting_cbs_insert by metis
qed

definition outstanding :: "('pk, 'a, 'cb) base \<Rightarrow> 'cb multiset" where
  "outstanding b = mset (map snd (cmd_pending b)) + waiting_cbs (decision_waiting b)"

lemma await_answers:
  assumes "finite (dom (decision_waiting b))"
  shows "add_mset cb (waiting_cbs (decision_waiting b)) =
      answered (snd (await_decision h cb b)) + waiting_cbs (decision_waiting (fst (await_decision h cb b))) \<and>
    finite (dom (decision_waiting (fst (await_decision h cb b))))"
  using assms waiting_cbs_insert [OF assms] by (auto simp: await_decision_def)

lemma move_answers:
  assumes "add_mset c X = P + Y" "M + Y = Q + Z"
  shows "add_mset c (M + X) = P + Q + Z"
proof -
  have "add_mset c (M + X) = M + add_mset c X" by simp
  also have "\<dots> = P + (M + Y)" unfolding assms(1) by (simp add: ac_simps)
  also have "\<dots> = P + Q + Z" unfolding assms(2) by (simp add: ac_simps)
  finally show ?thesis .
qed

lemma cmd_pending_loop_answers:
  assumes "cmd_pending_loop p q b = (r, b', acts)" "finite (dom (decision_waiting b))"
  shows "mset (map snd q) + waiting_cbs (decision_waiting b) = answered acts + outstanding b' \<and> finite (dom (decision_waiting b'))"
  using assms
proof (induction p q b arbitrary: r b' acts rule: cmd_pending_loop.induct)
  case (1 p b)
  then show ?case by (auto simp: outstanding_def)
next
  case (2 p h cb q b)
  obtain b1 acts1 where w: "await_decision h cb b = (b1, acts1)" by force
  define b2 where "b2 = b1\<lparr>cmd_pending_buffer := cmd_pending_buffer b1 @ [h]\<rparr>"
  have a: "add_mset cb (waiting_cbs (decision_waiting b)) = answered acts1 + waiting_cbs (decision_waiting b1)"
    "finite (dom (decision_waiting b1))" using await_answers [OF "2.prems"(2), of cb h] by (simp_all add: w)
  have same: "decision_waiting b2 = decision_waiting b1" by (simp add: b2_def)
  consider "p \<noteq> core_id (core b1)" | "p = core_id (core b1)" "length (cmd_pending_buffer b2) \<ge> blk_size b2"
    | "p = core_id (core b1)" "\<not> length (cmd_pending_buffer b2) \<ge> blk_size b2" by blast
  then show ?case
  proof cases
    case 1
    obtain r3 b3 acts3 where rec: "cmd_pending_loop p q b1 = (r3, b3, acts3)" by (metis prod_cases3)
    have "b' = b3" "acts = acts1 @ acts3" using "2.prems"(1) 1 rec w by (auto simp: Let_def)
    then show ?thesis using "2.IH"(1) [OF w [symmetric] refl 1 rec a(2)] move_answers [OF a(1)] by simp
  next
    case 2
    then have "b' = b2\<lparr>cmd_pending := q, cmd_pending_buffer := drop (blk_size b2) (cmd_pending_buffer b2)\<rparr>"
      "answered acts = answered acts1"
      using "2.prems"(1) w by (auto simp: Let_def b2_def)
    then show ?thesis using a same by (simp add: outstanding_def ac_simps)
  next
    case 3
    obtain r3 b3 acts3 where rec: "cmd_pending_loop p q b2 = (r3, b3, acts3)" by (metis prod_cases3)
    have "b' = b3" "acts = acts1 @ acts3" using "2.prems"(1) 3 rec w by (auto simp: Let_def b2_def)
    moreover have "mset (map snd q) + waiting_cbs (decision_waiting b2) = answered acts3 + outstanding b3 \<and>
        finite (dom (decision_waiting b3))"
      using "2.IH"(2) [OF w [symmetric] refl _ b2_def, of r3 b3 acts3] 3 rec a(2) same by auto
    ultimately show ?thesis using move_answers [OF a(1)] same by simp
  qed
qed

text \<open>Runs of the operations that deal with clients: what was submitted and what was answered so far.\<close>

inductive served :: "('pk, 'a, 'cb) base \<Rightarrow> 'cb multiset \<Rightarrow> 'cb multiset \<Rightarrow> bool" where
  Start: "decision_waiting b = Map.empty \<Longrightarrow> cmd_pending b = [] \<Longrightarrow> served b {#} {#}"
| Submit: "served b S A \<Longrightarrow> served (exec_command h cb b) (add_mset cb S) A"
| Single: "served b S A \<Longrightarrow> exec_single_command p h cb b = (b', acts) \<Longrightarrow> served b' (add_mset cb S) (A + answered acts)"
| Handle: "served b S A \<Longrightarrow> cmd_pending_handler p b = (r, b', acts) \<Longrightarrow> served b' S (A + answered acts)"
| Decide: "served b S A \<Longrightarrow> do_decide fin b = (b', acts) \<Longrightarrow> served b' S (A + answered acts)"

lemma served_outstanding: "served b S A \<Longrightarrow> S = A + outstanding b \<and> finite (dom (decision_waiting b))"
proof (induction rule: served.induct)
  case (Start b)
  then show ?case by (simp add: outstanding_def waiting_cbs_def)
next
  case (Submit b S A h cb)
  then show ?case by (simp add: outstanding_def exec_command_def)
next
  case (Single b S A p h cb b' acts)
  have "b' = fst (await_decision h cb b)" "answered acts = answered (snd (await_decision h cb b))"
    using Single.hyps(2) by (auto simp: exec_single_command_def case_prod_beta Let_def split: if_splits)
  then show ?case using await_answers [of b cb h] Single.IH
    by (simp add: outstanding_def exec_single_command_def)
next
  case (Handle b S A p r b' acts)
  then show ?case using cmd_pending_loop_answers [of p "cmd_pending b" b r b' acts]
    by (simp add: cmd_pending_handler_def outstanding_def union_assoc)
next
  case (Decide b S A fin b' acts)
  then show ?case using waiting_cbs_remove [of "decision_waiting b" "fin_cmd_hash fin"]
    by (auto simp: do_decide_def outstanding_def Let_def split: option.splits)
qed

text \<open>C27: no client is lost and none is answered twice: at any time the callbacks submitted are exactly
  those called plus those of queued commands plus those waiting for a decision.\<close>

theorem every_client_answered_once:
  assumes "served b S A"
  shows "S = A + (mset (map snd (cmd_pending b)) + image_mset (\<lambda>h. the (decision_waiting b h)) (mset_set (dom (decision_waiting b))))"
  using served_outstanding [OF assms] by (simp add: outstanding_def waiting_cbs_def)

definition sample_base :: "(unit, u32, nat) base" where
  "sample_base = \<lparr>core = core_new (\<lambda>bs. 0) 0 (\<lambda>h. sample_sig), blk_size = 2, peers = [], valid_tls_certs = {},
     blk_fetch_waiting = Map.empty, blk_delivery_waiting = {}, decision_waiting = Map.empty, cmd_pending = [],
     ordering1 = [], ordering2 = [], cmd_pending_buffer = [], leader_propose = {}, commit_set = [], stable_point = 0,
     stable_point_idx = 0, stable_point_errors = [], fetched = 0, n_delivered = 0, part_decided = 0\<rparr>"

lemma sample_base_core: "core_id (core sample_base) = 0" "blk_size sample_base = 2" "cmd_pending_buffer sample_base = []"
  "decision_waiting sample_base = Map.empty"
  by (simp_all add: sample_base_def core_new_def case_prod_beta Let_def)


theorem every_client_answered_once_witness:
  "{#7#} = {#} + (mset (map snd (cmd_pending (exec_command 1 7 sample_base))) +
     image_mset (\<lambda>h. the (decision_waiting (exec_command 1 7 sample_base) h)) (mset_set (dom (decision_waiting (exec_command 1 7 sample_base)))))"
  by (rule every_client_answered_once [OF served.Submit [OF served.Start]]) (simp_all add: sample_base_def)


end
