(* ===== verification/Archipelago.thy ===== *)
theory Archipelago
  imports HotStuff_Base
begin

text \<open>
  The replica application \<open>HotStuffApp\<close> (\<open>examples/archipelago_app.cpp\<close>): ordering of client
  commands by timestamps before consensus. Clients send a command for a timestamp (phase one), send
  the timestamp they chose back (phase two); replica 1, the leader, cuts the commands up to a
  stable point into a batch and has the batch agreed on; the other replicas check the cut.
\<close>

section \<open>State\<close>

datatype 'a client_cb =
    RespQueue 'a | Ordering1Queue 'a | Ordering2Queue 'a   \<comment> \<open>answer the client at this address\<close>
  | BatchDecided hash                                      \<comment> \<open>answer the clients of a batch\<close>
  | Noop

record ('pk, 'a) app =
  hs :: "('pk, 'a, 'a client_cb) base"
  stable_period :: u32
  idx :: rid
  cmd_cnt :: u32
  exec_count :: u32
  exec_sent :: u32
  exec_last_batch_clock :: u64
  clnt_blk_size :: u32
  batch_received :: "hash \<rightharpoonup> u32"
  exec_client_rsp :: "hash \<rightharpoonup> u32 \<times> u32"
  resp_queue :: "(finality \<times> 'a) list"
  ordering1_queue :: "(ordering1_finality \<times> 'a) list"
  ordering2_queue :: "(ordering2_finality \<times> 'a) list"

section \<open>Requests of clients\<close>

definition parse_cmd :: "(bytes \<Rightarrow> hash) \<Rightarrow> datastream \<Rightarrow> base_error + command" where
  "parse_cmd sha s = map_err (\<lambda>e. CodecError (StreamError e)) (sbind (command_unserialize sha s) (\<lambda>(c, _). Inr c))"

definition client_request_cmd_handler ::
  "(bytes \<Rightarrow> hash) \<Rightarrow> 'a \<Rightarrow> datastream \<Rightarrow> ('pk, 'a) app \<Rightarrow> base_error + ('pk, 'a) app"
where
  "client_request_cmd_handler sha addr s a =
     sbind (parse_cmd sha s) (\<lambda>cmd. Inr (a\<lparr>hs := exec_command (cmd_hash cmd) (RespQueue addr) (hs a)\<rparr>))"

text \<open>Phase one starts when a command arrived \<open>clnt_blk_size\<close> times.\<close>

definition client_ordering1_request_cmd_handler ::
  "(bytes \<Rightarrow> hash) \<Rightarrow> 'a \<Rightarrow> datastream \<Rightarrow> ('pk, 'a) app \<Rightarrow> base_error + ('pk, 'a) app"
where
  "client_ordering1_request_cmd_handler sha addr s a =
     sbind (parse_cmd sha s) (\<lambda>cmd.
     let n = (case batch_received a (cmd_hash cmd) of Some k \<Rightarrow> k + 1 | None \<Rightarrow> 1);
         a = a\<lparr>batch_received := (batch_received a)(cmd_hash cmd \<mapsto> n)\<rparr>
     in if n < clnt_blk_size a then Inr a
        else Inr (a\<lparr>hs := exec_ordering1 (cmd_hash cmd) (Ordering1Queue addr) (hs a)\<rparr>))"

text \<open>The loop that advances the stable point: up to the first later timestamp.\<close>

function next_stable_idx :: "((hash \<times> u64) \<times> 'a) list \<Rightarrow> u64 \<Rightarrow> nat \<Rightarrow> nat \<Rightarrow> nat" where
  "next_stable_idx cs t n i = (if i < n then if commit_ts (cs ! i) > t then i else next_stable_idx cs t n (Suc i) else i)"
  by pat_completeness auto

termination next_stable_idx
  by (relation "measure (\<lambda>(cs, t, n, i). n - i)") auto

declare next_stable_idx.simps [simp del]

definition period_us :: "('pk, 'a) app \<Rightarrow> u64" where
  "period_us a = ucast (stable_period a * 1000)"

text \<open>The leader closes a batch; \<open>mem\<close> is the signature member of the message (see \<open>Messages\<close>).\<close>

definition start_batch ::
  "(bytes \<Rightarrow> hash) \<Rightarrow> (((hash \<times> u64) \<times> 'a) list \<Rightarrow> ((hash \<times> u64) \<times> 'a) list) \<Rightarrow> signature \<Rightarrow> ('pk, 'a) app \<Rightarrow>
   base_error + (('pk, 'a) app \<times> ('a, 'a client_cb) action list)"
where
  "start_batch sha srt mem a =
     (let h1 = cmd_hash (command_new sha 0 (cmd_cnt a));
          h2 = cmd_hash (command_new sha 1 (cmd_cnt a + 1));
          h3 = cmd_hash (command_new sha 2 (cmd_cnt a + 2));
          h4 = cmd_hash (command_new sha 3 (cmd_cnt a + 3));
          n = (word_of_nat (length (commit_set (hs a))) :: u32);
          start = stable_point_idx (hs a)
      in sbind (sort_from srt (unat start) (commit_set (hs a))) (\<lambda>cs.
         let batch_end = commit_ts (cs ! unat (n - 1)) - period_us a;
             next = (word_of_nat (next_stable_idx cs batch_end (unat n) (unat start)) :: u32);
             b = (hs a)\<lparr>commit_set := cs, stable_point_idx := next\<rparr>;
             ch = cmd_hash (command_new sha 4 (cmd_cnt a + 4));
             acts = broadcast_start_consensus mem ch batch_end next h1 h2 h3 h4 b;
             b = exec_command h4 Noop (exec_command h3 Noop (exec_command h2 Noop (exec_command ch (BatchDecided ch) b)))
         in Inr (a\<lparr>hs := b, cmd_cnt := cmd_cnt a + 5, exec_client_rsp := (exec_client_rsp a)(ch \<mapsto> (start, next)),
                   exec_sent := next\<rparr>, acts)))"

definition client_ordering2_request_cmd_handler ::
  "(bytes \<Rightarrow> hash) \<Rightarrow> (((hash \<times> u64) \<times> 'a) list \<Rightarrow> ((hash \<times> u64) \<times> 'a) list) \<Rightarrow> signature \<Rightarrow> u64 \<Rightarrow> 'a \<Rightarrow> datastream \<Rightarrow>
   ('pk, 'a) app \<Rightarrow> base_error + (('pk, 'a) app \<times> ('a, 'a client_cb) action list)"
where
  "client_ordering2_request_cmd_handler sha srt mem clock addr s a =
     sbind (map_err (\<lambda>e. CodecError (StreamError e)) (msg_ordering2_req_parse s)) (\<lambda>((h, timestamp), _).
     if timestamp < stable_point (hs a) then Inl AssertionFailed
     else
       let a = a\<lparr>hs := exec_ordering2 h (Ordering2Queue addr)
                        ((hs a)\<lparr>commit_set := commit_set (hs a) @ [((h, timestamp), addr)]\<rparr>)\<rparr>
       in if idx a \<noteq> 1 then Inr (a, [])
          else if exec_last_batch_clock a = 0 then Inr (a\<lparr>exec_last_batch_clock := clock\<rparr>, [])
          else if exec_last_batch_clock a + period_us a < clock
          then start_batch sha srt mem (a\<lparr>exec_last_batch_clock := clock\<rparr>)
          else Inr (a, []))"

section \<open>Callbacks\<close>

text \<open>
  The callback of a batch answers the clients of the commands at the indices of the batch;
  the address at which an answer goes out and the stream are listed. \<open>operator[]\<close> gives (0, 0) for a
  batch that is not there. A read past the commit set is undefined.
\<close>

definition batch_replies :: "signature \<Rightarrow> ((hash \<times> u64) \<times> 'a) list \<Rightarrow> nat \<Rightarrow> nat \<Rightarrow> base_error + ('a \<times> datastream) list" where
  "batch_replies mem cs i j =
     (if j \<le> length cs \<or> j \<le> i
      then Inr (map (\<lambda>e. (snd e, msg_consensus_resp_client_new mem (fst (fst e)))) (drop i (take j cs)))
      else Inl (CoreError Undefined))"

fun run_commit_cb :: "signature \<Rightarrow> 'a client_cb \<Rightarrow> finality \<Rightarrow> ('pk, 'a) app \<Rightarrow> base_error + (('pk, 'a) app \<times> ('a \<times> datastream) list)" where
  "run_commit_cb mem (RespQueue addr) fin a = Inr (a\<lparr>resp_queue := resp_queue a @ [(fin, addr)]\<rparr>, [])"
| "run_commit_cb mem (BatchDecided h) fin a =
     (let (i, j) = (case exec_client_rsp a h of Some r \<Rightarrow> r | None \<Rightarrow> (0, 0)) in
      sbind (batch_replies mem (commit_set (hs a)) (unat i) (unat j)) (\<lambda>out.
      Inr (if exec_count a < j then a\<lparr>exec_count := j\<rparr> else a, out)))"
| "run_commit_cb mem _ fin a = Inr (a, [])"

fun run_ordering1_cb :: "'a client_cb \<Rightarrow> ordering1_finality \<Rightarrow> ('pk, 'a) app \<Rightarrow> ('pk, 'a) app" where
  "run_ordering1_cb (Ordering1Queue addr) fin a = a\<lparr>ordering1_queue := ordering1_queue a @ [(fin, addr)]\<rparr>"
| "run_ordering1_cb _ fin a = a"

fun run_ordering2_cb :: "'a client_cb \<Rightarrow> ordering2_finality \<Rightarrow> ('pk, 'a) app \<Rightarrow> ('pk, 'a) app" where
  "run_ordering2_cb (Ordering2Queue addr) fin a = a\<lparr>ordering2_queue := ordering2_queue a @ [(fin, addr)]\<rparr>"
| "run_ordering2_cb _ fin a = a"

text \<open>The handlers of the response queues, on the thread that answers clients.\<close>

definition resp_queue_handler :: "('pk, 'a) app \<Rightarrow> ('pk, 'a) app \<times> ('a \<times> datastream) list" where
  "resp_queue_handler a = (a\<lparr>resp_queue := []\<rparr>, map (\<lambda>(fin, addr). (addr, msg_resp_cmd_new fin)) (resp_queue a))"

definition ordering1_queue_handler :: "('pk, 'a) app \<Rightarrow> ('pk, 'a) app \<times> ('a \<times> datastream) list" where
  "ordering1_queue_handler a =
     (a\<lparr>ordering1_queue := []\<rparr>, map (\<lambda>(fin, addr). (addr, msg_ordering1_resp_new fin)) (ordering1_queue a))"

definition ordering2_queue_handler :: "('pk, 'a) app \<Rightarrow> ('pk, 'a) app \<times> ('a \<times> datastream) list" where
  "ordering2_queue_handler a =
     (a\<lparr>ordering2_queue := []\<rparr>, map (\<lambda>(fin, addr). (addr, msg_ordering2_resp_new fin)) (ordering2_queue a))"

section \<open>The cut of the commit set\<close>

definition sorts :: "(((hash \<times> u64) \<times> 'a) list \<Rightarrow> ((hash \<times> u64) \<times> 'a) list) \<Rightarrow> bool" where
  "sorts srt = (\<forall>xs. mset (srt xs) = mset xs \<and> sorted (map commit_ts (srt xs)))"

lemma sort_key_sorts: "sorts (sort_key commit_ts)"
  by (simp add: sorts_def)

definition due :: "u64 \<Rightarrow> ((hash \<times> u64) \<times> 'a) list \<Rightarrow> nat" where
  "due t xs = length (filter (\<lambda>e. commit_ts e \<le> t) xs)"

lemma due_mset: "mset xs = mset ys \<Longrightarrow> due t xs = due t ys"
  unfolding due_def by (metis mset_filter size_mset)

text \<open>In a list whose due entries come first, an entry is due when its index is below their number.\<close>

lemma due_index:
  assumes "sorted (map commit_ts xs)" "i < length xs"
  shows "(commit_ts (xs ! i) \<le> t) = (i < due t xs)"
  using assms
proof (induction xs arbitrary: i)
  case (Cons e xs)
  show ?case
  proof (cases "commit_ts e \<le> t")
    case True
    then show ?thesis using Cons by (cases i) (auto simp: due_def)
  next
    case False
    then have "\<not> commit_ts x \<le> t" if "x \<in> set xs" for x using Cons.prems(1) that by fastforce
    then have "due t xs = 0" by (auto simp: due_def filter_empty_conv)
    moreover have "\<not> commit_ts ((e # xs) ! i) \<le> t"
      using False Cons.prems(2) \<open>\<And>x. x \<in> set xs \<Longrightarrow> \<not> commit_ts x \<le> t\<close> by (cases i) auto
    ultimately show ?thesis using False by (simp add: due_def)
  qed
qed simp

lemma due_index_from:
  assumes "list_all (\<lambda>e. commit_ts e \<le> t) ps" "sorted (map commit_ts xs)" "i < length (ps @ xs)"
  shows "(commit_ts ((ps @ xs) ! i) \<le> t) = (i < due t (ps @ xs))"
proof -
  have p: "due t (ps @ xs) = length ps + due t xs" using assms(1) by (simp add: due_def list_all_iff filter_id_conv)
  show ?thesis
  proof (cases "i < length ps")
    case True
    then show ?thesis using assms(1) p by (simp add: nth_append list_all_length)
  next
    case False
    then show ?thesis using due_index [OF assms(2), of "i - length ps" t] assms(3) p by (simp add: nth_append) linarith
  qed
qed

lemma sort_from_mset:
  assumes "sorts srt" "sort_from srt k xs = Inr ys"
  shows "mset ys = mset xs"
proof -
  have ys: "ys = take k xs @ srt (drop k xs)" using assms(2) by (auto simp: sort_from_def split: if_splits)
  have "mset (srt (drop k xs)) = mset (drop k xs)" using assms(1) by (simp add: sorts_def)
  then show ?thesis unfolding ys by (metis append_take_drop_id mset_append)
qed

lemma sort_from_due:
  assumes "sorts srt" "sort_from srt k xs = Inr ys" "list_all (\<lambda>e. commit_ts e \<le> t) (take k xs)"
  shows "mset ys = mset xs" "take k ys = take k xs" "i < length xs \<Longrightarrow> (commit_ts (ys ! i) \<le> t) = (i < due t xs)"
proof -
  have k: "k \<le> length xs" and ys: "ys = take k xs @ srt (drop k xs)" using assms(2) by (auto simp: sort_from_def split: if_splits)
  have s: "sorted (map commit_ts (srt (drop k xs)))" using assms(1) by (simp add: sorts_def)
  show m: "mset ys = mset xs" by (rule sort_from_mset [OF assms(1,2)])
  show "take k ys = take k xs" using k by (simp add: ys)
  show "(commit_ts (ys ! i) \<le> t) = (i < due t xs)" if "i < length xs"
    using due_index_from [OF assms(3) s, of i] that due_mset [OF m, of t] mset_eq_length [OF m] by (simp add: ys)
qed

lemma sort_from_ok: "k \<le> length xs \<Longrightarrow> \<exists>ys. sort_from srt k xs = Inr ys"
  by (simp add: sort_from_def)

lemma next_stable_idx_due:
  assumes "\<And>i. k \<le> i \<Longrightarrow> i < n \<Longrightarrow> (commit_ts (cs ! i) \<le> t) = (i < d)" "d \<le> n" "k \<le> i" "i \<le> d"
  shows "next_stable_idx cs t n i = d"
  using assms(3,4)
proof (induction "d - i" arbitrary: i)
  case 0
  then have i: "i = d" "k \<le> i" by simp_all
  have "i < n \<Longrightarrow> commit_ts (cs ! i) > t" using assms(1) [of i] i by (simp add: not_le)
  then show ?case using i by (subst next_stable_idx.simps) simp
next
  case (Suc m)
  then have "i < d" "i < n" using assms(2) by auto
  then have "\<not> commit_ts (cs ! i) > t" using assms(1) [of i] Suc.prems(1) by (simp add: not_less)
  moreover have "next_stable_idx cs t n (Suc i) = d" using Suc.hyps(2) \<open>i < d\<close> Suc.prems(1) by (intro Suc.hyps(1)) auto
  ultimately show ?case using \<open>i < n\<close> by (subst next_stable_idx.simps) simp
qed

lemma sort_from_prefix: "sort_from srt k xs = Inr ys \<Longrightarrow> take k ys = take k xs"
  by (auto simp: sort_from_def split: if_splits)

lemma sort_from_suffix:
  assumes "sorts srt" "sort_from srt k xs = Inr ys" "k \<le> i" "i < length xs"
  shows "(commit_ts (ys ! i) \<le> t) = (i < k + due t (drop k xs))"
proof -
  have k: "k \<le> length xs" and ys: "ys = take k xs @ srt (drop k xs)" using assms(2) by (auto simp: sort_from_def split: if_splits)
  have s: "sorted (map commit_ts (srt (drop k xs)))" and m: "mset (srt (drop k xs)) = mset (drop k xs)"
    using assms(1) by (simp_all add: sorts_def)
  have "ys ! i = srt (drop k xs) ! (i - k)" using assms(3) k by (simp add: ys nth_append)
  moreover have "(commit_ts (srt (drop k xs) ! (i - k)) \<le> t) = (i - k < due t (drop k xs))"
    using due_index [OF s, of "i - k" t] due_mset [OF m, of t] mset_eq_length [OF m] assms(3,4) by simp
  ultimately show ?thesis using assms(3) by auto
qed

lemma due_prefix:
  assumes "list_all (\<lambda>e. commit_ts e \<le> t) (take k xs)" "k \<le> length xs"
  shows "k + due t (drop k xs) = due t xs"
proof -
  have "due t xs = due t (take k xs) + due t (drop k xs)" unfolding due_def by (metis append_take_drop_id filter_append length_append)
  moreover have "due t (take k xs) = k" using assms by (simp add: due_def list_all_iff filter_id_conv)
  ultimately show ?thesis by simp
qed

section \<open>Leader and follower\<close>

lemma due_le_length: "due t xs \<le> length xs"
  by (simp add: due_def)

text \<open>The check of a follower, when it sorts: no error is logged exactly when the index is the number
  of commands up to the stable timestamp, at least one is, and at least one is not.\<close>

lemma check_stable_val:
  assumes "sorts srt" "stable_point_idx b < i" "unat (stable_point_idx b) \<le> length (commit_set b)"
    and len: "length (commit_set b) < 2 ^ 32"
    and "list_all (\<lambda>e. commit_ts e \<le> t) (take (unat (stable_point_idx b)) (commit_set b))"
  obtains b' where "check_stable_point_index srt h t i b = Inr b'" "mset (commit_set b') = mset (commit_set b)"
    "\<And>j. j < length (commit_set b) \<Longrightarrow> (commit_ts (commit_set b' ! j) \<le> t) = (j < due t (commit_set b))"
    "stable_point_idx b' = i"
    "(stable_point_errors b' = stable_point_errors b) = (unat i < length (commit_set b) \<and> due t (commit_set b) = unat i)"
proof -
  obtain cs where cs: "sort_from srt (unat (stable_point_idx b)) (commit_set b) = Inr cs" using sort_from_ok [OF assms(3)] by blast
  note d = sort_from_due [OF assms(1) cs assms(5)]
  have l: "length cs = length (commit_set b)" using mset_eq_length [OF d(1)] .
  have sz: "unat (word_of_nat (length cs) :: u32) = length (commit_set b)" using len by (simp add: l unat_of_nat)
  have pos: "0 < i" using assms(2) by (rule le_less_trans [OF word_zero_le])
  then have "i \<noteq> 0" by auto
  then have i1: "unat (i - 1) = unat i - 1" by (rule unat_minus_one)
  have i2: "0 < unat i" using pos by (simp add: word_less_nat_alt)
  let ?b = "b\<lparr>commit_set := cs, stable_point_idx := i\<rparr>"
  let ?ok = "i < word_of_nat (length cs) \<and> commit_ts (cs ! unat i) > t \<and> i > 0 \<and> commit_ts (cs ! unat (i - 1)) \<le> t"
  have run: "check_stable_point_index srt h t i b =
      (if ?ok then Inr ?b else Inr (?b\<lparr>stable_point_errors := stable_point_errors b @ [(t, i)]\<rparr>))"
    using assms(2) by (simp add: check_stable_point_index_def cs Let_def)
  have ok: "?ok = (unat i < length (commit_set b) \<and> due t (commit_set b) = unat i)"
  proof (cases "unat i < length (commit_set b)")
    case True
    then have "i < word_of_nat (length cs)" by (simp only: word_less_nat_alt sz)
    moreover have "(commit_ts (cs ! unat i) > t) = (due t (commit_set b) \<le> unat i)"
      using d(3) [OF True] by (metis not_le)
    moreover have "(commit_ts (cs ! unat (i - 1)) \<le> t) = (unat i - 1 < due t (commit_set b))"
      unfolding i1 using True by (intro d(3)) simp
    ultimately show ?thesis using True pos i2 by (simp only: simp_thms) linarith
  next
    case False
    then show ?thesis using sz by (simp add: word_less_nat_alt)
  qed
  let ?r = "if ?ok then ?b else ?b\<lparr>stable_point_errors := stable_point_errors b @ [(t, i)]\<rparr>"
  show ?thesis
  proof (rule that [of ?r])
    show "check_stable_point_index srt h t i b = Inr ?r" unfolding run by simp
    show "(stable_point_errors ?r = stable_point_errors b) = (unat i < length (commit_set b) \<and> due t (commit_set b) = unat i)"
      unfolding ok [symmetric] by simp
  qed (use d in \<open>simp_all split: if_splits\<close>)
qed

text \<open>the check of a follower that has to sort: it keeps the commands, moves the stable point, and logs no
  error exactly when the announced index is the number of its commands up to the stable timestamp and some
  command is later.\<close>

theorem check_stable_point_correct:
  assumes "sorts srt" "stable_point_idx b < i" "unat (stable_point_idx b) \<le> length (commit_set b)"
    and "length (commit_set b) < 2 ^ 32"
    and "list_all (\<lambda>e. commit_ts e \<le> t) (take (unat (stable_point_idx b)) (commit_set b))"
  shows "\<exists>b'. check_stable_point_index srt h t i b = Inr b' \<and> mset (commit_set b') = mset (commit_set b) \<and>
    stable_point_idx b' = i \<and>
    (stable_point_errors b' = stable_point_errors b) = (unat i < length (commit_set b) \<and> due t (commit_set b) = unat i)"
  by (rule check_stable_val [OF assms]) blast

lemma start_batch_run:
  assumes "sorts srt" "unat (stable_point_idx (hs a)) \<le> length (commit_set (hs a))" "length (commit_set (hs a)) < 2 ^ 32"
    and "commit_set (hs a) \<noteq> []"
  obtains t nxt a' cs ch h1 h2 h3 h4 where
    "start_batch sha srt mem a = Inr (a', [Multicast (peers (hs a)) (msg_consensus_req_new mem ch t nxt h1 h2 h3 h4)])"
    "sort_from srt (unat (stable_point_idx (hs a))) (commit_set (hs a)) = Inr cs"
    "commit_set (hs a') = cs" "stable_point_idx (hs a') = nxt" "exec_client_rsp a' ch = Some (stable_point_idx (hs a), nxt)"
    "t = commit_ts (last cs) - period_us a"
    "nxt = word_of_nat (next_stable_idx cs t (length cs) (unat (stable_point_idx (hs a))))"
proof -
  obtain cs where cs: "sort_from srt (unat (stable_point_idx (hs a))) (commit_set (hs a)) = Inr cs" using sort_from_ok [OF assms(2)] by blast
  have l: "length cs = length (commit_set (hs a))"
    by (rule mset_eq_length [OF sort_from_mset [OF assms(1) cs]])
  have n: "unat (word_of_nat (length (commit_set (hs a))) :: u32) = length cs" using assms(3) by (simp add: l unat_of_nat)
  have "0 < length cs" using assms(4) l by simp
  then have "(word_of_nat (length (commit_set (hs a))) :: u32) \<noteq> 0" using n by (metis less_irrefl unat_0)
  then have "unat (word_of_nat (length (commit_set (hs a))) - 1 :: u32) = length cs - 1" using n by (simp add: unat_minus_one)
  then have last: "cs ! unat (word_of_nat (length (commit_set (hs a))) - 1 :: u32) = last cs"
    using \<open>0 < length cs\<close> by (simp add: last_conv_nth)
  let ?t = "commit_ts (last cs) - period_us a"
  let ?n = "word_of_nat (next_stable_idx cs ?t (length cs) (unat (stable_point_idx (hs a)))) :: u32"
  let ?h0 = "cmd_hash (command_new sha 0 (cmd_cnt a))"
  let ?h1 = "cmd_hash (command_new sha 1 (cmd_cnt a + 1))"
  let ?h2 = "cmd_hash (command_new sha 2 (cmd_cnt a + 2))"
  let ?h3 = "cmd_hash (command_new sha 3 (cmd_cnt a + 3))"
  let ?ch = "cmd_hash (command_new sha 4 (cmd_cnt a + 4))"
  let ?b = "(hs a)\<lparr>commit_set := cs, stable_point_idx := ?n\<rparr>"
  let ?b' = "exec_command ?h3 Noop (exec_command ?h2 Noop (exec_command ?h1 Noop
               (exec_command ?ch (BatchDecided ?ch) ?b)))"
  let ?a' = "a\<lparr>hs := ?b', cmd_cnt := cmd_cnt a + 5,
               exec_client_rsp := (exec_client_rsp a)(?ch \<mapsto> (stable_point_idx (hs a), ?n)), exec_sent := ?n\<rparr>"
  have run: "start_batch sha srt mem a =
      Inr (?a', [Multicast (peers (hs a)) (msg_consensus_req_new mem ?ch ?t ?n ?h0 ?h1 ?h2 ?h3)])"
    unfolding start_batch_def Let_def broadcast_start_consensus_def cs sbind_simps last n by simp
  show ?thesis
    by (rule that [OF run cs _ _ _ refl refl]) (simp_all add: exec_command_def)
qed

text \<open>The cut the leader announces.\<close>

lemma start_batch_cut:
  assumes "sorts srt" "unat (stable_point_idx (hs a)) \<le> length (commit_set (hs a))" "length (commit_set (hs a)) < 2 ^ 32"
    and "commit_set (hs a) \<noteq> []"
  obtains t nxt a' ch h1 h2 h3 h4 where
    "start_batch sha srt mem a = Inr (a', [Multicast (peers (hs a)) (msg_consensus_req_new mem ch t nxt h1 h2 h3 h4)])"
    "sort_from srt (unat (stable_point_idx (hs a))) (commit_set (hs a)) = Inr (commit_set (hs a'))"
    "stable_point_idx (hs a') = nxt" "exec_client_rsp a' ch = Some (stable_point_idx (hs a), nxt)"
    "t = commit_ts (last (commit_set (hs a'))) - period_us a"
    "unat nxt = unat (stable_point_idx (hs a)) + due t (drop (unat (stable_point_idx (hs a))) (commit_set (hs a)))"
proof -
  obtain t nxt a' cs ch h1 h2 h3 h4 where r:
    "start_batch sha srt mem a = Inr (a', [Multicast (peers (hs a)) (msg_consensus_req_new mem ch t nxt h1 h2 h3 h4)])"
    "sort_from srt (unat (stable_point_idx (hs a))) (commit_set (hs a)) = Inr cs"
    "commit_set (hs a') = cs" "stable_point_idx (hs a') = nxt" "exec_client_rsp a' ch = Some (stable_point_idx (hs a), nxt)"
    "t = commit_ts (last cs) - period_us a"
    "nxt = word_of_nat (next_stable_idx cs t (length cs) (unat (stable_point_idx (hs a))))"
    using start_batch_run [OF assms] by metis
  define k where "k = unat (stable_point_idx (hs a))"
  have l: "length cs = length (commit_set (hs a))" by (rule mset_eq_length [OF sort_from_mset [OF assms(1) r(2)]])
  define d where "d = k + due t (drop k (commit_set (hs a)))"
  have d: "k \<le> d" "d \<le> length cs" using due_le_length [of t "drop k (commit_set (hs a))"] assms(2) l by (simp_all add: d_def k_def)
  have "next_stable_idx cs t (length cs) k = d"
  proof (rule next_stable_idx_due [of k])
    show "(commit_ts (cs ! i) \<le> t) = (i < d)" if "k \<le> i" "i < length cs" for i
      unfolding d_def using sort_from_suffix [OF assms(1) r(2) [folded k_def] that(1)] that(2) l by simp
  qed (use d in simp_all)
  then have "nxt = word_of_nat d" by (simp add: r(7) k_def)
  moreover have "d < 2 ^ 32" using d(2) l assms(3) by simp
  ultimately have "unat nxt = d" by (simp add: unat_of_nat)
  with r show ?thesis using that unfolding d_def k_def by metis
qed

lemma consensus_req_delivered:
  assumes "sig_ok mem"
  shows "\<exists>m s. msg_consensus_req_parse (ds_of_bytes (buffer (msg_consensus_req_new mem h t i h1 h2 h3 h4))) = Inr (m, s) \<and>
    cr_commit_set_hash m = h \<and> cr_stable_timestamp m = t \<and> cr_stable_idx m = i"
proof -
  define m where "m = \<lparr>cr_commit_set_hash = h, cr_stable_timestamp = t, cr_stable_idx = i, cr_hash1 = h1,
       cr_hash2 = h2, cr_hash3 = h3, cr_hash4 = h4, cr_sig = mem\<rparr>"
  have new: "msg_consensus_req_new mem h t i h1 h2 h3 h4 = ds_put_data (consensus_req_enc m) ds_new"
    using assms by (simp add: msg_consensus_req_new_def m_def creqc.put_enc)
  have "ds_rest (ds_of_bytes (buffer (msg_consensus_req_new mem h t i h1 h2 h3 h4))) = consensus_req_enc m @ []"
    using ds_of_bytes_put [of "consensus_req_enc m" "[]"] by (simp add: new)
  with creqc.get_enc [OF _ this] assms show ?thesis by (auto simp: m_def)
qed

text \<open>C26: the leader closing a batch: it keeps the commands and the order of those before the stable
  point, announces the time of its last command less the stable period, and the index it announces counts the
  commands behind the old stable point up to that time; the clients of exactly these are answered by the callback.\<close>

theorem leader_batch_cut:
  assumes "sorts srt" "unat (stable_point_idx (hs a)) \<le> length (commit_set (hs a))" "length (commit_set (hs a)) < 2 ^ 32"
    and "commit_set (hs a) \<noteq> []" and k: "k = unat (stable_point_idx (hs a))"
  shows "\<exists>a' ch t nxt h1 h2 h3 h4.
    start_batch sha srt mem a = Inr (a', [Multicast (peers (hs a)) (msg_consensus_req_new mem ch t nxt h1 h2 h3 h4)]) \<and>
    mset (commit_set (hs a')) = mset (commit_set (hs a)) \<and> take k (commit_set (hs a')) = take k (commit_set (hs a)) \<and>
    t = commit_ts (last (commit_set (hs a'))) - period_us a \<and> stable_point_idx (hs a') = nxt \<and>
    unat nxt = k + due t (drop k (commit_set (hs a))) \<and>
    run_commit_cb mem (BatchDecided ch) fin a' =
      Inr (a'\<lparr>exec_count := max (exec_count a') nxt\<rparr>,
           map (\<lambda>e. (snd e, msg_consensus_resp_client_new mem (fst (fst e)))) (drop k (take (unat nxt) (commit_set (hs a')))))"
proof -
  obtain t nxt a' ch h1 h2 h3 h4 where r:
    "start_batch sha srt mem a = Inr (a', [Multicast (peers (hs a)) (msg_consensus_req_new mem ch t nxt h1 h2 h3 h4)])"
    "sort_from srt (unat (stable_point_idx (hs a))) (commit_set (hs a)) = Inr (commit_set (hs a'))"
    "stable_point_idx (hs a') = nxt" "exec_client_rsp a' ch = Some (stable_point_idx (hs a), nxt)"
    "t = commit_ts (last (commit_set (hs a'))) - period_us a"
    "unat nxt = unat (stable_point_idx (hs a)) + due t (drop (unat (stable_point_idx (hs a))) (commit_set (hs a)))"
    using start_batch_cut [OF assms(1-4)] by metis
  have m: "mset (commit_set (hs a')) = mset (commit_set (hs a))" by (rule sort_from_mset [OF assms(1) r(2)])
  have le: "unat nxt \<le> length (commit_set (hs a'))"
    using r(6) due_le_length [of t "drop k (commit_set (hs a))"] assms(2) mset_eq_length [OF m] k by simp
  have p: "take k (commit_set (hs a')) = take k (commit_set (hs a))"
    using sort_from_prefix [OF r(2)] k by simp
  have cb: "run_commit_cb mem (BatchDecided ch) fin a' =
      Inr (a'\<lparr>exec_count := max (exec_count a') nxt\<rparr>,
           map (\<lambda>e. (snd e, msg_consensus_resp_client_new mem (fst (fst e)))) (drop k (take (unat nxt) (commit_set (hs a')))))"
    using le by (simp add: r(4) batch_replies_def k max_def)
  show ?thesis using r m p cb k by blast
qed


section \<open>A sample run\<close>

definition sample_replica :: "rid \<Rightarrow> ((hash \<times> u64) \<times> u32) list \<Rightarrow> (unit, u32, u32 client_cb) base" where
  "sample_replica i cs = \<lparr>core = core_new (\<lambda>bs. 0) i (\<lambda>h. sample_sig), blk_size = 2, peers = [7], valid_tls_certs = {},
     blk_fetch_waiting = Map.empty, blk_delivery_waiting = {}, decision_waiting = Map.empty, cmd_pending = [],
     ordering1 = [], ordering2 = [], cmd_pending_buffer = [], leader_propose = {}, commit_set = cs, stable_point = 0,
     stable_point_idx = 0, stable_point_errors = [], fetched = 0, n_delivered = 0, part_decided = 0\<rparr>"

definition sample_app :: "(unit, u32) app" where
  "sample_app = \<lparr>hs = sample_replica 1 [((1, 5000), 10), ((2, 3000), 11), ((3, 9000), 12)], stable_period = 2, idx = 1,
     cmd_cnt = 0, exec_count = 0, exec_sent = 0, exec_last_batch_clock = 0, clnt_blk_size = 1, batch_received = Map.empty,
     exec_client_rsp = Map.empty, resp_queue = [], ordering1_queue = [], ordering2_queue = []\<rparr>"

lemma sample_replica_simps: "core_id (core (sample_replica i cs)) = i" "commit_set (sample_replica i cs) = cs"
  "stable_point_idx (sample_replica i cs) = 0" "stable_point_errors (sample_replica i cs) = []"
  by (simp_all add: sample_replica_def core_new_def case_prod_beta Let_def)

lemma sample_app_simps: "commit_set (hs sample_app) = [((1, 5000), 10), ((2, 3000), 11), ((3, 9000), 12)]"
  "stable_point_idx (hs sample_app) = 0" "period_us sample_app = 2000"
  by (simp_all add: sample_app_def sample_replica_simps period_us_def)

lemma sample_sig_ok: "sig_ok sample_sig"
  by (simp add: sig_ok_def sample_sig_def scalar_ok_def sval_def secp256k1_n_def)

lemma sample_sort: "sort_key commit_ts [((1, 5000), 10), ((2, 3000), 11), ((3, 9000), 12)] =
  [((2, 3000), 11), ((1, 5000), 10), ((3, 9000), 12)]"
  by (simp add: commit_ts_def)

theorem check_stable_point_correct_witness:
  "\<exists>b'. check_stable_point_index (sort_key commit_ts) 0 7000 2 (sample_replica 0 [((1, 5000), 10), ((2, 3000), 11), ((3, 9000), 12)]) = Inr b' \<and>
     stable_point_idx b' = 2 \<and> stable_point_errors b' = []"
  using check_stable_point_correct [OF sort_key_sorts, of "sample_replica 0 [((1, 5000), 10), ((2, 3000), 11), ((3, 9000), 12)]" 2 7000 0]
  by (auto simp: sample_replica_simps due_def commit_ts_def)

theorem leader_batch_cut_witness:
  "\<exists>a' ch t nxt h1 h2 h3 h4.
    start_batch (\<lambda>bs. 0) (sort_key commit_ts) sample_sig sample_app =
      Inr (a', [Multicast (peers (hs sample_app)) (msg_consensus_req_new sample_sig ch t nxt h1 h2 h3 h4)]) \<and>
    mset (commit_set (hs a')) = mset (commit_set (hs sample_app)) \<and> take 0 (commit_set (hs a')) = take 0 (commit_set (hs sample_app)) \<and>
    t = commit_ts (last (commit_set (hs a'))) - period_us sample_app \<and> stable_point_idx (hs a') = nxt \<and>
    unat nxt = 0 + due t (drop 0 (commit_set (hs sample_app))) \<and>
    run_commit_cb sample_sig (BatchDecided ch) (dup_finality 1 9) a' =
      Inr (a'\<lparr>exec_count := max (exec_count a') nxt\<rparr>,
           map (\<lambda>e. (snd e, msg_consensus_resp_client_new sample_sig (fst (fst e)))) (drop 0 (take (unat nxt) (commit_set (hs a')))))"
  by (rule leader_batch_cut [OF sort_key_sorts]) (simp_all add: sample_app_simps)


text \<open>Finding. When the leader closes a batch in which no command is old enough, it announces index 0;
  every follower logs an error then, whatever it holds, although the cut is right.\<close>

theorem empty_cut_logs_error:
  "check_stable_point_index srt h t 0 b = Inr (b\<lparr>stable_point_errors := stable_point_errors b @ [(t, 0)]\<rparr>)"
  by (simp add: check_stable_point_index_def Let_def)

text \<open>Finding. The announced index is not bounded by the commit set: a follower that holds fewer commands
  takes it over, and at the next batch it sorts from past the end of its commands.\<close>

theorem announced_index_unbounded:
  "\<exists>b'. check_stable_point_index (sort_key commit_ts) h 7000 5 (sample_replica 0 [((1, 5000), 10)]) = Inr b' \<and>
    check_stable_point_index (sort_key commit_ts) h 9000 6 b' = Inl (CoreError Undefined)"
  by (simp add: check_stable_point_index_def sort_from_def sample_replica_simps Let_def)

end
