(* ===== verification/Liveness.thy ===== *)
theory Liveness
  imports HotStuff_Base Sample_Run
begin

text \<open>
  The pace makers (\<open>include/hotstuff/liveness.h\<close>): which block a proposal extends
  (\<open>PMHighTail\<close>), when a replica proposes (\<open>PMWaitQC\<close>) and who proposes
  (\<open>PMRoundRobinProposer\<close>). The promises of \<open>async_qc_finish\<close> are kept in a table, since one
  promise can be shared by the core and several pace maker members and can be rejected by one of
  them. The other promises are registrations for the events of the core. A beat is the list
  of commands that is proposed when it is resolved; code that a promise continues with runs
  after the operation that resolved it, as the actions it lists.
\<close>

section \<open>State\<close>

datatype cont =
    ResolveBeat "hash list"     \<comment> \<open>resolve the beat with the proposer\<close>
  | NextConsensus nat           \<comment> \<open>the continuation in \<open>do_new_consensus\<close>\<close>

datatype promise = Pending "cont list" | Fulfilled | Rejected

datatype timer_event = ExpTimeout nat | PropDelay nat

datatype pm_action =
    BeatResolved rid "hash list"
  | NewConsensus nat "hash list"     \<comment> \<open>\<open>do_new_consensus\<close> is called\<close>
  | Elected                          \<comment> \<open>\<open>do_elected\<close>, and \<open>repropose\<close> is queued\<close>

record 'pk pacemaker =
  hsc :: "'pk core"
  promises :: "nat \<rightharpoonup> promise"
  n_promises :: nat
  qc_promise_of :: "hash \<rightharpoonup> nat"        \<comment> \<open>the promises in \<open>qc_waiting\<close>\<close>
  hqc_tail :: hash
  pending_beats :: "hash list list"
  last_proposed :: hash
  locked :: bool
  pm_qc_finish :: "nat option"
  pm_wait_propose :: bool              \<comment> \<open>the registration is live\<close>

record 'pk pm_rr = "'pk pacemaker" +
  base_timeout :: nat
  exp_timeout :: nat
  prop_delay :: nat
  timer :: "timer_event option"
  pm_proposer :: rid
  pm_prop_blk :: "rid \<rightharpoonup> hash"
  rotating :: bool
  n_reg_proposal :: nat
  n_reg_receive :: nat
  pm_qc_manual :: "nat option"

section \<open>Promises\<close>

definition new_promise :: "promise \<Rightarrow> ('pk, 'z) pacemaker_scheme \<Rightarrow> nat \<times> ('pk, 'z) pacemaker_scheme" where
  "new_promise p s = (n_promises s, s\<lparr>promises := (promises s)(n_promises s \<mapsto> p), n_promises := n_promises s + 1\<rparr>)"

definition reject :: "nat option \<Rightarrow> ('pk, 'z) pacemaker_scheme \<Rightarrow> ('pk, 'z) pacemaker_scheme" where
  "reject r s =
     (case r of None \<Rightarrow> s
      | Some p \<Rightarrow> (case promises s p of Some (Pending ks) \<Rightarrow> s\<lparr>promises := (promises s)(p \<mapsto> Rejected)\<rparr> | _ \<Rightarrow> s))"

definition pm_then :: "nat \<Rightarrow> cont \<Rightarrow> ('pk, 'z) pacemaker_scheme \<Rightarrow> ('pk, 'z) pacemaker_scheme \<times> cont list" where
  "pm_then p k s =
     (case promises s p of
        Some (Pending ks) \<Rightarrow> (s\<lparr>promises := (promises s)(p \<mapsto> Pending (ks @ [k]))\<rparr>, [])
      | Some Fulfilled \<Rightarrow> (s, [k])
      | _ \<Rightarrow> (s, []))"

text \<open>\<open>hsc->async_qc_finish(blk)\<close> and its counterpart \<open>on_qc_finish\<close>.\<close>

definition qc_promise :: "hash \<Rightarrow> ('pk, 'z) pacemaker_scheme \<Rightarrow> core_error + (nat \<times> ('pk, 'z) pacemaker_scheme)" where
  "qc_promise h s =
     sbind (async_qc_finish h (hsc s)) (\<lambda>(now, c).
     let s = s\<lparr>hsc := c\<rparr> in
     if now then Inr (new_promise Fulfilled s)
     else case qc_promise_of s h of
         Some p \<Rightarrow> Inr (p, s)
       | None \<Rightarrow> let (p, s) = new_promise (Pending []) s in Inr (p, s\<lparr>qc_promise_of := (qc_promise_of s)(h \<mapsto> p)\<rparr>))"

definition qc_finished :: "hash \<Rightarrow> ('pk, 'z) pacemaker_scheme \<Rightarrow> ('pk, 'z) pacemaker_scheme \<times> cont list" where
  "qc_finished h s =
     (case qc_promise_of s h of
        None \<Rightarrow> (s, [])
      | Some p \<Rightarrow>
          let s = s\<lparr>qc_promise_of := (qc_promise_of s)(h := None)\<rparr> in
          (case promises s p of
             Some (Pending ks) \<Rightarrow> (s\<lparr>promises := (promises s)(p \<mapsto> Fulfilled)\<rparr>, ks)
           | _ \<Rightarrow> (s, [])))"

text \<open>What the continuations do; \<open>p\<close> is \<open>get_proposer()\<close> at that time.\<close>

fun run_cont :: "rid \<Rightarrow> cont \<Rightarrow> pm_action list" where
  "run_cont p (ResolveBeat cs) = [BeatResolved p cs]"
| "run_cont p (NextConsensus x) = (if x \<ge> 3 then [] else [NewConsensus (x + 1) []])"

definition run_conts :: "rid \<Rightarrow> cont list \<Rightarrow> pm_action list" where
  "run_conts p ks = concat (map (run_cont p) ks)"

section \<open>PMHighTail\<close>

definition check_ancestry :: "'pk core \<Rightarrow> hash \<Rightarrow> hash \<Rightarrow> core_error + bool" where
  "check_ancestry c a b =
     sbind (get_blk c a) (\<lambda>x. sbind (get_blk c b) (\<lambda>y.
     sbind (walk_down (cache c) (height x) (walk_fuel y) b) (\<lambda>(e, _). Inr (e = a))))"

text \<open>The tails are visited in the order of a set of pointers, the argument \<open>order\<close>.\<close>

definition blk_height :: "'pk core \<Rightarrow> hash \<Rightarrow> core_error + u32" where
  "blk_height c h = sbind (get_blk c h) (\<lambda>b. Inr (height b))"

fun hqc_update_loop :: "'pk core \<Rightarrow> hash \<Rightarrow> hash list \<Rightarrow> hash \<Rightarrow> core_error + hash" where
  "hqc_update_loop c h [] t = Inr t"
| "hqc_update_loop c h (x # xs) t =
     sbind (check_ancestry c h x) (\<lambda>a.
     sbind (blk_height c x) (\<lambda>hx. sbind (blk_height c t) (\<lambda>ht.
     hqc_update_loop c h xs (if a \<and> hx > ht then x else t))))"

definition high_tail_hqc_update :: "hash list \<Rightarrow> ('pk, 'z) pacemaker_scheme \<Rightarrow> core_error + ('pk, 'z) pacemaker_scheme" where
  "high_tail_hqc_update order s =
     (case hqc (hsc s) of None \<Rightarrow> Inl Undefined
      | Some (h, _) \<Rightarrow> sbind (hqc_update_loop (hsc s) h order h) (\<lambda>t. Inr (s\<lparr>hqc_tail := t\<rparr>)))"

definition high_tail_proposal :: "proposal \<Rightarrow> ('pk, 'z) pacemaker_scheme \<Rightarrow> ('pk, 'z) pacemaker_scheme" where
  "high_tail_proposal prop s = s\<lparr>hqc_tail := prop_blk prop\<rparr>"

definition high_tail_receive_proposal :: "proposal \<Rightarrow> ('pk, 'z) pacemaker_scheme \<Rightarrow> core_error + ('pk, 'z) pacemaker_scheme" where
  "high_tail_receive_proposal prop s =
     (case hqc (hsc s) of None \<Rightarrow> Inl Undefined
      | Some (h, _) \<Rightarrow>
          sbind (check_ancestry (hsc s) h (prop_blk prop)) (\<lambda>a.
          sbind (blk_height (hsc s) (prop_blk prop)) (\<lambda>hb. sbind (blk_height (hsc s) (hqc_tail s)) (\<lambda>ht.
          Inr (if a \<and> hb > ht then s\<lparr>hqc_tail := prop_blk prop\<rparr> else s)))))"

definition high_tail_init :: "('pk, 'z) pacemaker_scheme \<Rightarrow> ('pk, 'z) pacemaker_scheme" where
  "high_tail_init s = s\<lparr>hqc_tail := b0 (hsc s)\<rparr>"

definition get_parents :: "('pk, 'z) pacemaker_scheme \<Rightarrow> hash list" where
  "get_parents s = [hqc_tail s]"

section \<open>PMWaitQC\<close>

definition schedule_next :: "('pk, 'z) pacemaker_scheme \<Rightarrow> core_error + (('pk, 'z) pacemaker_scheme \<times> cont list)" where
  "schedule_next s =
     (case pending_beats s of [] \<Rightarrow> Inr (s, [])
      | pm # bs \<Rightarrow>
          if locked s then Inr (s, [])
          else
            let s = reject (pm_qc_finish s) (s\<lparr>pending_beats := bs\<rparr>) in
            sbind (qc_promise (last_proposed s) s) (\<lambda>(p, s).
            let (s, ks) = pm_then p (ResolveBeat pm) (s\<lparr>pm_qc_finish := Some p\<rparr>)
            in Inr (s\<lparr>locked := True\<rparr>, ks)))"

definition update_last_proposed :: "proposal \<Rightarrow> ('pk, 'z) pacemaker_scheme \<Rightarrow> core_error + (('pk, 'z) pacemaker_scheme \<times> cont list)" where
  "update_last_proposed prop s =
     (if pm_wait_propose s then schedule_next (s\<lparr>last_proposed := prop_blk prop, locked := False\<rparr>) else Inr (s, []))"

definition wait_qc_init :: "('pk, 'z) pacemaker_scheme \<Rightarrow> ('pk, 'z) pacemaker_scheme" where
  "wait_qc_init s = s\<lparr>last_proposed := b0 (hsc s), locked := False, pm_wait_propose := True\<rparr>"

definition wait_qc_beat :: "hash list \<Rightarrow> ('pk, 'z) pacemaker_scheme \<Rightarrow> core_error + (('pk, 'z) pacemaker_scheme \<times> cont list)" where
  "wait_qc_beat cs s = schedule_next (s\<lparr>pending_beats := pending_beats s @ [cs]\<rparr>)"

section \<open>PaceMakerDummy and PaceMakerDummyFixed\<close>

text \<open>The proposer is the replica itself, or the fixed one.\<close>

definition dummy_get_proposer :: "rid option \<Rightarrow> ('pk, 'z) pacemaker_scheme \<Rightarrow> rid" where
  "dummy_get_proposer fixed s = (case fixed of None \<Rightarrow> core_id (hsc s) | Some p \<Rightarrow> p)"

definition dummy_beat_resp :: "rid option \<Rightarrow> rid \<Rightarrow> rid" where
  "dummy_beat_resp fixed last_proposer = (case fixed of None \<Rightarrow> last_proposer | Some p \<Rightarrow> p)"

definition dummy_init :: "('pk, 'z) pacemaker_scheme \<Rightarrow> ('pk, 'z) pacemaker_scheme" where
  "dummy_init s = wait_qc_init (high_tail_init s)"

definition dummy_beat ::
  "rid option \<Rightarrow> hash list \<Rightarrow> ('pk, 'z) pacemaker_scheme \<Rightarrow> core_error + (('pk, 'z) pacemaker_scheme \<times> pm_action list)"
where
  "dummy_beat fixed cs s =
     sbind (wait_qc_beat cs s) (\<lambda>(s, ks). Inr (s, run_conts (dummy_get_proposer fixed s) ks))"

fun dummy_event ::
  "rid option \<Rightarrow> hash list \<Rightarrow> event \<Rightarrow> ('pk, 'z) pacemaker_scheme \<Rightarrow> core_error + (('pk, 'z) pacemaker_scheme \<times> pm_action list)"
where
  "dummy_event fixed order (Proposed prop) s =
     sbind (update_last_proposed prop (high_tail_proposal prop s)) (\<lambda>(s, ks).
     Inr (s, run_conts (dummy_get_proposer fixed s) ks))"
| "dummy_event fixed order (ReceivedProposal prop) s = sbind (high_tail_receive_proposal prop s) (\<lambda>s. Inr (s, []))"
| "dummy_event fixed order HqcUpdated s = sbind (high_tail_hqc_update order s) (\<lambda>s. Inr (s, []))"
| "dummy_event fixed order (QcFinished h) s =
     (let (s, ks) = qc_finished h s in Inr (s, run_conts (dummy_get_proposer fixed s) ks))"
| "dummy_event fixed order _ s = Inr (s, [])"

section \<open>PMRoundRobinProposer\<close>

definition rr_reg_proposal :: "proposal \<Rightarrow> 'pk pm_rr \<Rightarrow> 'pk pm_rr" where
  "rr_reg_proposal prop s =
     (if n_reg_proposal s = 0 then s
      else s\<lparr>pm_prop_blk := (case pm_prop_blk s (core_id (hsc s)) of
                 None \<Rightarrow> (pm_prop_blk s)(core_id (hsc s) \<mapsto> prop_blk prop) | Some _ \<Rightarrow> pm_prop_blk s),
             n_reg_proposal := (if rotating s then n_reg_proposal s else 0)\<rparr>)"

definition rr_reg_receive_proposal :: "proposal \<Rightarrow> 'pk pm_rr \<Rightarrow> 'pk pm_rr" where
  "rr_reg_receive_proposal prop s =
     (if n_reg_receive s = 0 then s
      else s\<lparr>pm_prop_blk := (case pm_prop_blk s (proposer prop) of
                 None \<Rightarrow> (pm_prop_blk s)(proposer prop \<mapsto> prop_blk prop) | Some _ \<Rightarrow> pm_prop_blk s),
             n_reg_receive := (if rotating s then n_reg_receive s else 0)\<rparr>)"

text \<open>The scheduling of beats repeats the code of \<open>PMWaitQC\<close>.\<close>

definition proposer_schedule_next :: "'pk pm_rr \<Rightarrow> core_error + ('pk pm_rr \<times> cont list)" where
  "proposer_schedule_next s = schedule_next s"

definition proposer_update_last_proposed :: "proposal \<Rightarrow> 'pk pm_rr \<Rightarrow> core_error + ('pk pm_rr \<times> cont list)" where
  "proposer_update_last_proposed prop s =
     (if pm_wait_propose s then proposer_schedule_next (s\<lparr>last_proposed := prop_blk prop, locked := False\<rparr>) else Inr (s, []))"

text \<open>\<open>rotate\<close>: the timeouts are in ticks; they double exactly.\<close>

definition rotate :: "'pk pm_rr \<Rightarrow> core_error + 'pk pm_rr" where
  "rotate s =
     (let s = s\<lparr>n_reg_proposal := n_reg_proposal s + 1, n_reg_receive := n_reg_receive s + 1, pm_prop_blk := Map.empty, rotating := True\<rparr> in
      if nreplicas (config (hsc s)) = 0 then Inl Undefined
      else
        let s = s\<lparr>pm_proposer := ucast ((ucast (pm_proposer s) + 1) mod nreplicas (config (hsc s)))\<rparr>;
            s = reject (pm_qc_finish s) s;
            s = s\<lparr>pm_wait_propose := False\<rparr>;
            s = reject (pm_qc_manual s) s
        in Inr (s\<lparr>timer := Some (ExpTimeout (exp_timeout s)), exp_timeout := exp_timeout s * 2\<rparr>))"

definition stop_rotate :: "'pk pm_rr \<Rightarrow> 'pk pm_rr \<times> pm_action list" where
  "stop_rotate s =
     (let s = reject (pm_qc_manual s) ((reject (pm_qc_finish s) (s\<lparr>timer := None\<rparr>))\<lparr>pm_wait_propose := False\<rparr>);
          s = s\<lparr>rotating := False, locked := False, last_proposed := b0 (hsc s), pm_wait_propose := True\<rparr>
      in (s, if pm_proposer s = core_id (hsc s) then [Elected] else []))"

text \<open>The call queued at the election proposes the commands that still wait for their decision.\<close>

definition repropose :: "hash list \<Rightarrow> pm_action list" where
  "repropose pending = (if pending = [] then [] else [NewConsensus 0 pending])"

definition rr_on_consensus :: "hash \<Rightarrow> 'pk pm_rr \<Rightarrow> 'pk pm_rr \<times> pm_action list" where
  "rr_on_consensus blk s =
     (let s = s\<lparr>timer := None, exp_timeout := base_timeout s\<rparr> in
      if pm_prop_blk s (pm_proposer s) = Some blk then stop_rotate s else (s, []))"

definition impeach :: "'pk pm_rr \<Rightarrow> core_error + 'pk pm_rr" where
  "impeach s = (if rotating s then Inr s else rotate s)"

definition rr_init :: "'pk pm_rr \<Rightarrow> 'pk pm_rr \<times> pm_action list" where
  "rr_init s = stop_rotate (s\<lparr>exp_timeout := base_timeout s\<rparr>)"

definition rr_get_proposer :: "'pk pm_rr \<Rightarrow> rid" where
  "rr_get_proposer s = pm_proposer s"

definition rr_beat :: "hash list \<Rightarrow> 'pk pm_rr \<Rightarrow> core_error + ('pk pm_rr \<times> pm_action list)" where
  "rr_beat cs s =
     (if \<not> rotating s \<and> pm_proposer s = core_id (hsc s)
      then sbind (proposer_schedule_next (s\<lparr>pending_beats := pending_beats s @ [cs]\<rparr>)) (\<lambda>(s, ks).
           Inr (s, run_conts (rr_get_proposer s) ks))
      else Inr (s, [BeatResolved (pm_proposer s) cs]))"

definition rr_beat_resp :: "rid \<Rightarrow> rid" where
  "rr_beat_resp last_proposer = last_proposer"

text \<open>The members of a \<open>PaceMakerRR\<close> that an event of the core reaches, in the order of registration.\<close>

fun rr_event :: "hash list \<Rightarrow> event \<Rightarrow> 'pk pm_rr \<Rightarrow> core_error + ('pk pm_rr \<times> pm_action list)" where
  "rr_event order (Proposed prop) s =
     sbind (proposer_update_last_proposed prop (rr_reg_proposal prop (high_tail_proposal prop s))) (\<lambda>(s, ks).
     Inr (s, run_conts (rr_get_proposer s) ks))"
| "rr_event order (ReceivedProposal prop) s =
     sbind (high_tail_receive_proposal prop s) (\<lambda>s. Inr (rr_reg_receive_proposal prop s, []))"
| "rr_event order HqcUpdated s = sbind (high_tail_hqc_update order s) (\<lambda>s. Inr (s, []))"
| "rr_event order (QcFinished h) s = (let (s, ks) = qc_finished h s in Inr (s, run_conts (rr_get_proposer s) ks))"
| "rr_event order (DoConsensus h) s = Inr (rr_on_consensus h s)"
| "rr_event order _ s = Inr (s, [])"

fun rr_events :: "hash list \<Rightarrow> event list \<Rightarrow> 'pk pm_rr \<Rightarrow> core_error + ('pk pm_rr \<times> pm_action list)" where
  "rr_events order [] s = Inr (s, [])"
| "rr_events order (e # es) s =
     sbind (rr_event order e s) (\<lambda>(s, acts). sbind (rr_events order es s) (\<lambda>(s, acts'). Inr (s, acts @ acts')))"

text \<open>A proposal the pace maker makes itself; the events of the proposal reach the pace maker first.\<close>

definition do_new_consensus ::
  "(bytes \<Rightarrow> hash) \<Rightarrow> hash list \<Rightarrow> nat \<Rightarrow> hash list \<Rightarrow> 'pk pm_rr \<Rightarrow> core_error + ('pk pm_rr \<times> event list \<times> pm_action list)"
where
  "do_new_consensus sha order x cs s =
     sbind (on_propose sha cs (get_parents s) [] (hsc s)) (\<lambda>(blk, c, ev).
     sbind (rr_events order ev (s\<lparr>hsc := c\<rparr>)) (\<lambda>(s, acts).
     let s = reject (pm_qc_manual s) s in
     sbind (qc_promise blk s) (\<lambda>(p, s).
     let (s, ks) = pm_then p (NextConsensus x) (s\<lparr>pm_qc_manual := Some p\<rparr>)
     in Inr (s, ev, acts @ run_conts (rr_get_proposer s) ks))))"

definition on_exp_timeout ::
  "(bytes \<Rightarrow> hash) \<Rightarrow> hash list \<Rightarrow> 'pk pm_rr \<Rightarrow> core_error + ('pk pm_rr \<times> event list \<times> pm_action list)"
where
  "on_exp_timeout sha order s =
     sbind (if pm_proposer s = core_id (hsc s) then do_new_consensus sha order 0 [] s else Inr (s, [], [])) (\<lambda>(s, ev, acts).
     Inr (s\<lparr>timer := Some (PropDelay (prop_delay s))\<rparr>, ev, acts))"

text \<open>The timer that is set goes off.\<close>

definition timer_fires ::
  "(bytes \<Rightarrow> hash) \<Rightarrow> hash list \<Rightarrow> 'pk pm_rr \<Rightarrow> core_error + ('pk pm_rr \<times> event list \<times> pm_action list)"
where
  "timer_fires sha order s =
     (case timer s of
        None \<Rightarrow> Inr (s, [], [])
      | Some (ExpTimeout _) \<Rightarrow> on_exp_timeout sha order (s\<lparr>timer := None\<rparr>)
      | Some (PropDelay _) \<Rightarrow> sbind (rotate (s\<lparr>timer := None\<rparr>)) (\<lambda>s. Inr (s, [], [])))"

section \<open>The highest tail\<close>

text \<open>On delivered blocks the check of \<open>PMHighTail\<close> is ancestry.\<close>

lemma check_ancestry_anc:
  assumes inv: "cache_inv g T (cache c)" and a: "is_del (cache c) a" and b: "is_del (cache c) b"
  shows "check_ancestry c a b = Inr (anc T a b)"
proof -
  have ok: "tree_ok g T" using inv by (simp add: cache_inv_def)
  obtain x where x: "cache c a = Some x" "ht T a = unat (height x)" by (rule cache_inv_del [OF inv a]) blast
  obtain y where y: "cache c b = Some y" "ht T b = unat (height y)" by (rule cache_inv_del [OF inv b]) blast
  have "ht T b < walk_fuel y" by (simp add: walk_fuel_def y)
  from walk_down_ok [OF inv b this, of "height x"] obtain e q where
    w: "walk_down (cache c) (height x) (walk_fuel y) b = Inr (e, q)" "anc T e b" "ht T e = min (ht T b) (unat (height x))" by blast
  have dom: "b \<in> dom T" "a \<in> dom T" by (rule del_dom [OF inv b], rule del_dom [OF inv a])
  have "(e = a) = anc T a b"
  proof
    assume anc: "anc T a b"
    have ht: "ht T e = ht T a" using anc_ht_le [OF ok anc dom(1)] w(3) x(2) by simp
    then have "anc T e a" using anc_linear [OF ok dom(1) w(2) anc] by simp
    then show "e = a" using anc_ht [OF ok _ dom(2)] ht by fastforce
  qed (use w(2) in simp)
  then show ?thesis using x y w(1) by (simp add: check_ancestry_def)
qed

lemma blk_height_ht: "cache_inv g T (cache c) \<Longrightarrow> is_del (cache c) h \<Longrightarrow> \<exists>k. blk_height c h = Inr k \<and> ht T h = unat k"
  by (erule (1) cache_inv_del) (auto simp: blk_height_def)

lemma hqc_update_loop_ok:
  assumes inv: "cache_inv g T (cache c)" and h: "is_del (cache c) h"
  shows "list_all (is_del (cache c)) xs \<Longrightarrow> is_del (cache c) t \<Longrightarrow> anc T h t \<Longrightarrow>
    \<exists>t'. hqc_update_loop c h xs t = Inr t' \<and> is_del (cache c) t' \<and> anc T h t' \<and> ht T t \<le> ht T t' \<and>
      (\<forall>x\<in>set xs. anc T h x \<longrightarrow> ht T x \<le> ht T t')"
proof (induction xs arbitrary: t)
  case (Cons x xs)
  obtain hx where hx: "blk_height c x = Inr hx" "ht T x = unat hx" using blk_height_ht [OF inv] Cons.prems(1) by auto
  obtain k where k: "blk_height c t = Inr k" "ht T t = unat k" using blk_height_ht [OF inv Cons.prems(2)] by auto
  have anc: "check_ancestry c h x = Inr (anc T h x)" using check_ancestry_anc [OF inv h] Cons.prems(1) by simp
  let ?t = "if anc T h x \<and> k < hx then x else t"
  have t: "is_del (cache c) ?t" "anc T h ?t" "ht T t \<le> ht T ?t" "anc T h x \<longrightarrow> ht T x \<le> ht T ?t"
    using Cons.prems hx(2) k(2) by (auto simp: word_less_nat_alt)
  obtain t' where "hqc_update_loop c h xs ?t = Inr t'" "is_del (cache c) t'" "anc T h t'" "ht T ?t \<le> ht T t'"
    "\<forall>x\<in>set xs. anc T h x \<longrightarrow> ht T x \<le> ht T t'"
    using Cons.IH [OF _ t(1,2)] Cons.prems(1) by auto
  then show ?case using t(3,4) by (intro exI [of _ t']) (auto simp: hx k anc)
qed auto


section \<open>Beats of a fixed proposer\<close>

text \<open>The replica waits for the certificate of its last block, to resolve the beat \<open>b\<close> with it.\<close>

definition waiting :: "hash list \<Rightarrow> ('pk, 'z) pacemaker_scheme \<Rightarrow> bool" where
  "waiting b s = (locked s \<and> pm_wait_propose s \<and>
     (\<exists>p. pm_qc_finish s = Some p \<and> qc_promise_of s (last_proposed s) = Some p \<and> promises s p = Some (Pending [ResolveBeat b])))"

text \<open>A block that has not the votes of a majority yet.\<close>

definition uncertified :: "'pk core \<Rightarrow> hash \<Rightarrow> bool" where
  "uncertified c h = (case get_blk c h of Inl _ \<Rightarrow> False | Inr b \<Rightarrow> card (voted b) < unat (nmajority (config c)))"

lemma schedule_next_waits:
  assumes "pending_beats s = b # bs" "\<not> locked s" "pm_wait_propose s" "uncertified (hsc s) (last_proposed s)"
    and "qc_promise_of s (last_proposed s) = None"
  shows "\<exists>s'. schedule_next s = Inr (s', []) \<and> waiting b s' \<and> pending_beats s' = bs \<and> last_proposed s' = last_proposed s \<and>
    core_id (hsc s') = core_id (hsc s) \<and> qc_promise_of s' = (qc_promise_of s)(last_proposed s \<mapsto> n_promises s) \<and>
    n_promises s' = n_promises s + 1 \<and> pm_qc_finish s' = Some (n_promises s)"
proof -
  obtain blk where blk: "get_blk (hsc s) (last_proposed s) = Inr blk" "card (voted blk) < unat (nmajority (config (hsc s)))"
    using assms(4) by (auto simp: uncertified_def split: sum.splits)
  define s1 where "s1 = reject (pm_qc_finish s) (s\<lparr>pending_beats := bs\<rparr>)"
  have s1: "hsc s1 = hsc s" "last_proposed s1 = last_proposed s" "qc_promise_of s1 = qc_promise_of s" "pending_beats s1 = bs"
    "n_promises s1 = n_promises s" "pm_wait_propose s1 = pm_wait_propose s"
    by (simp_all add: s1_def reject_def split: option.splits promise.splits)
  have q: "async_qc_finish (last_proposed s) (hsc s) = Inr (False, (hsc s)\<lparr>qc_waiting := insert (last_proposed s) (qc_waiting (hsc s))\<rparr>)"
    using blk by (simp add: async_qc_finish_def)
  show ?thesis using assms(1-3) s1 q assms(5)
    by (simp add: schedule_next_def s1_def [symmetric] qc_promise_def new_promise_def pm_then_def waiting_def Let_def)
qed

text \<open>One round: the certificate of the last block arrives, the beat is resolved, and its proposal is
  a new block; \<open>c\<close> is the core after that.\<close>

fun rounds ::
  "rid option \<Rightarrow> ('pk core \<times> proposal) list \<Rightarrow> ('pk, 'z) pacemaker_scheme \<Rightarrow> core_error + (('pk, 'z) pacemaker_scheme \<times> pm_action list)"
where
  "rounds fixed [] s = Inr (s, [])"
| "rounds fixed ((c, prop) # rs) s =
     sbind (dummy_event fixed [] (QcFinished (last_proposed s)) s) (\<lambda>(s, acts).
     sbind (dummy_event fixed [] (Proposed prop) (s\<lparr>hsc := c\<rparr>)) (\<lambda>(s, acts').
     sbind (rounds fixed rs s) (\<lambda>(s, acts''). Inr (s, acts @ acts' @ acts''))))"

lemma one_round:
  assumes w: "waiting b s" and "pending_beats s = b' # bs" "uncertified c (prop_blk prop)"
    and "qc_promise_of s (prop_blk prop) = None" "core_id c = core_id (hsc s)"
  shows "\<exists>s1 s2. dummy_event fixed [] (QcFinished (last_proposed s)) s = Inr (s1, [BeatResolved (dummy_get_proposer fixed s) b]) \<and>
    dummy_event fixed [] (Proposed prop) (s1\<lparr>hsc := c\<rparr>) = Inr (s2, []) \<and> waiting b' s2 \<and> pending_beats s2 = bs \<and>
    core_id (hsc s2) = core_id (hsc s) \<and> dom (qc_promise_of s2) \<subseteq> insert (prop_blk prop) (dom (qc_promise_of s))"
proof -
  obtain p where p: "qc_promise_of s (last_proposed s) = Some p" "promises s p = Some (Pending [ResolveBeat b])"
    using w by (auto simp: waiting_def)
  let ?s1 = "s\<lparr>qc_promise_of := (qc_promise_of s)(last_proposed s := None), promises := (promises s)(p \<mapsto> Fulfilled)\<rparr>"
  have r1: "dummy_event fixed [] (QcFinished (last_proposed s)) s = Inr (?s1, [BeatResolved (dummy_get_proposer fixed s) b])"
    using p by (simp add: qc_finished_def run_conts_def dummy_get_proposer_def split: option.split)
  let ?s = "?s1\<lparr>hsc := c, hqc_tail := prop_blk prop, last_proposed := prop_blk prop, locked := False\<rparr>"
  have "qc_promise_of ?s (prop_blk prop) = None" using assms(4) by simp
  then obtain s2 where s2: "schedule_next ?s = Inr (s2, [])" "waiting b' s2" "pending_beats s2 = bs"
    "core_id (hsc s2) = core_id c" "qc_promise_of s2 = (qc_promise_of ?s)(prop_blk prop \<mapsto> n_promises s)"
    using schedule_next_waits [of ?s b' bs] assms(2,3) w by (auto simp: waiting_def)
  have "dummy_event fixed [] (Proposed prop) (?s1\<lparr>hsc := c\<rparr>) = Inr (s2, [])"
    using w s2(1) by (simp add: high_tail_proposal_def update_last_proposed_def waiting_def run_conts_def)
  then show ?thesis using r1 s2 assms(5) by (intro exI [of _ ?s1] exI [of _ s2]) (auto split: if_splits)
qed


section \<open>Rotation of the proposer\<close>

lemma reject_simps [simp]:
  "hsc (reject r s) = hsc s" "pending_beats (reject r s) = pending_beats s" "locked (reject r s) = locked s"
  "hqc_tail (reject r s) = hqc_tail s"
  by (simp_all add: reject_def split: option.splits promise.splits)

lemma reject_rr_simps [simp]:
  "pm_proposer (reject r s) = pm_proposer s" "rotating (reject r s) = rotating s" "timer (reject r s) = timer s"
  "pm_prop_blk (reject r s) = pm_prop_blk s" "exp_timeout (reject r s) = exp_timeout s" "base_timeout (reject r s) = base_timeout s"
  by (simp_all add: reject_def split: option.splits promise.splits)

lemma rotate_val:
  assumes "nreplicas (config (hsc s)) \<noteq> 0"
  shows "\<exists>s'. rotate s = Inr s' \<and> hsc s' = hsc s \<and> rotating s' \<and> timer s' = Some (ExpTimeout (exp_timeout s)) \<and>
    exp_timeout s' = exp_timeout s * 2 \<and> pm_prop_blk s' = Map.empty \<and>
    pm_proposer s' = ucast ((ucast (pm_proposer s) + 1) mod nreplicas (config (hsc s)))"
  using assms by (simp add: rotate_def Let_def)

lemma next_proposer:
  assumes "0 < unat (n :: u64)" "unat n \<le> 2 ^ 16"
  shows "unat (ucast ((ucast (p :: rid) + 1) mod n) :: rid) = (unat p + 1) mod unat n"
proof -
  have "unat (ucast p + 1 :: u64) = unat p + 1"
  proof -
    have b: "unat p < 65536" using unsigned_less [of p] by simp
    then have "unat (ucast p :: u64) = unat p" by (simp add: unsigned_ucast_eq take_bit_nat_eq_self)
    then show ?thesis using b by (simp add: unat_word_ariths)
  qed
  then have m: "unat ((ucast p + 1) mod n) = (unat p + 1) mod unat n" by (simp add: unat_mod_distrib)
  have "(unat p + 1) mod unat n < 2 ^ 16" using mod_less_divisor [OF assms(1), of "unat p + 1"] assms(2) by simp
  then show ?thesis unfolding unsigned_ucast_eq m by (intro take_bit_nat_eq_self) simp
qed

fun rotations :: "nat \<Rightarrow> 'pk pm_rr \<Rightarrow> core_error + 'pk pm_rr" where
  "rotations 0 s = Inr s"
| "rotations (Suc k) s = sbind (rotate s) (rotations k)"

text \<open>C39: rotation is round robin: after \<open>k\<close> rotations the proposer is \<open>k\<close> further, modulo the number of
  replicas, so each replica has its turn within as many rotations as there are replicas; the timeout
  has doubled \<open>k\<close> times.\<close>

theorem rotation_round_robin:
  assumes "0 < unat (nreplicas (config (hsc s)))" "unat (nreplicas (config (hsc s))) \<le> 2 ^ 16"
    and "unat (pm_proposer s) < unat (nreplicas (config (hsc s)))"
  shows "\<exists>s'. rotations k s = Inr s' \<and> unat (pm_proposer s') = (unat (pm_proposer s) + k) mod unat (nreplicas (config (hsc s))) \<and>
    exp_timeout s' = exp_timeout s * 2 ^ k \<and> hsc s' = hsc s \<and> (0 < k \<longrightarrow> rotating s' \<and> timer s' \<noteq> None)"
  using assms
proof (induction k arbitrary: s)
  case 0
  then show ?case by simp
next
  case (Suc k)
  let ?n = "unat (nreplicas (config (hsc s)))"
  have "nreplicas (config (hsc s)) \<noteq> 0" using Suc.prems(1) by auto
  from rotate_val [OF this] obtain s1 where s1: "rotate s = Inr s1" "hsc s1 = hsc s" "rotating s1" "timer s1 \<noteq> None"
    "exp_timeout s1 = exp_timeout s * 2" "unat (pm_proposer s1) = (unat (pm_proposer s) + 1) mod ?n"
    using next_proposer [OF Suc.prems(1,2)] by auto
  then have "unat (pm_proposer s1) < ?n" using Suc.prems(1) by simp
  with Suc.IH [of s1] s1(2) Suc.prems obtain s' where s': "rotations k s1 = Inr s'"
    "unat (pm_proposer s') = (unat (pm_proposer s1) + k) mod ?n" "exp_timeout s' = exp_timeout s1 * 2 ^ k" "hsc s' = hsc s"
    "0 < k \<longrightarrow> rotating s' \<and> timer s' \<noteq> None" by auto
  moreover have "((unat (pm_proposer s) + 1) mod ?n + k) mod ?n = (unat (pm_proposer s) + Suc k) mod ?n"
    by (simp add: mod_add_left_eq)
  moreover have "k = 0 \<Longrightarrow> s' = s1" using s'(1) by simp
  ultimately show ?case using s1 by (cases "k = 0") auto
qed

section \<open>A rotation that stalls\<close>

definition stalled :: "'pk pm_rr \<Rightarrow> bool" where
  "stalled s = (rotating s \<and> timer s = None)"

text \<open>What the members other than the timer leave alone.\<close>

definition same_turn :: "'pk pm_rr \<Rightarrow> 'pk pm_rr \<Rightarrow> bool" where
  "same_turn s s' = (rotating s' = rotating s \<and> timer s' = timer s \<and> pm_proposer s' = pm_proposer s \<and>
     pm_prop_blk s' = pm_prop_blk s \<and> core_id (hsc s') = core_id (hsc s))"

lemma same_turn_trans: "same_turn s s' \<Longrightarrow> same_turn s' s'' \<Longrightarrow> same_turn s s''"
  by (simp add: same_turn_def)

lemma qc_promise_same_turn: "qc_promise h s = Inr (p, s') \<Longrightarrow> same_turn s s'"
  by (auto simp: same_turn_def qc_promise_def async_qc_finish_def new_promise_def Let_def sbind_eq_Inr split: if_splits option.splits)

lemma pm_then_same_turn: "pm_then p k s = (s', ks) \<Longrightarrow> same_turn s s'"
  by (auto simp: same_turn_def pm_then_def split: option.splits promise.splits)

lemma schedule_next_same_turn:
  assumes "schedule_next s = Inr (s', ks)"
  shows "same_turn s s'"
proof (cases "pending_beats s = [] \<or> locked s")
  case True
  then show ?thesis using assms by (auto simp: schedule_next_def same_turn_def split: list.splits)
next
  case False
  then obtain b bs where bs: "pending_beats s = b # bs" "\<not> locked s" by (cases "pending_beats s") auto
  let ?s = "reject (pm_qc_finish s) (s\<lparr>pending_beats := bs\<rparr>)"
  obtain p s1 where q: "qc_promise (last_proposed ?s) ?s = Inr (p, s1)"
    "(case pm_then p (ResolveBeat b) (s1\<lparr>pm_qc_finish := Some p\<rparr>) of (s, ks) \<Rightarrow> Inr (s\<lparr>locked := True\<rparr>, ks)) = (Inr (s', ks) :: core_error + _)"
    using assms bs by (auto simp: schedule_next_def sbind_eq_Inr Let_def)
  obtain s2 ks2 where "pm_then p (ResolveBeat b) (s1\<lparr>pm_qc_finish := Some p\<rparr>) = (s2, ks2)" by fastforce
  with q have s1: "qc_promise (last_proposed ?s) ?s = Inr (p, s1)"
    "pm_then p (ResolveBeat b) (s1\<lparr>pm_qc_finish := Some p\<rparr>) = (s2, ks)" "s' = s2\<lparr>locked := True\<rparr>" by simp_all
  have "same_turn s ?s" by (simp add: same_turn_def)
  moreover have "same_turn s1 (s1\<lparr>pm_qc_finish := Some p\<rparr>)" "same_turn s2 s'" by (simp_all add: same_turn_def s1(3))
  ultimately show ?thesis
    using qc_promise_same_turn [OF s1(1)] pm_then_same_turn [OF s1(2)] by (blast intro: same_turn_trans)
qed

lemma qc_finished_same_turn: "qc_finished h s = (s', ks) \<Longrightarrow> same_turn s s'"
  by (auto simp: qc_finished_def same_turn_def Let_def split: option.splits promise.splits)

lemma high_tail_same_turn:
  "high_tail_hqc_update order s = Inr s' \<Longrightarrow> same_turn s s'"
  "high_tail_receive_proposal prop s = Inr s' \<Longrightarrow> same_turn s s'"
  by (auto simp: high_tail_hqc_update_def high_tail_receive_proposal_def same_turn_def sbind_eq_Inr split: option.splits prod.splits if_splits)

text \<open>The proposer whose turn it is has been silent, and is not this replica.\<close>

definition silent :: "'pk pm_rr \<Rightarrow> bool" where
  "silent s = (pm_prop_blk s (pm_proposer s) = None \<and> pm_proposer s \<noteq> core_id (hsc s))"

lemma stalled_event:
  assumes "stalled s" "silent s" "rr_event order e s = Inr (s', acts)"
    and "\<forall>prop. e = ReceivedProposal prop \<longrightarrow> proposer prop \<noteq> pm_proposer s"
  shows "stalled s' \<and> silent s' \<and> pm_proposer s' = pm_proposer s"
proof (cases e)
  case (Proposed q)
  let ?s = "rr_reg_proposal q (high_tail_proposal q s)"
  have p: "rotating ?s = rotating s" "timer ?s = timer s" "pm_proposer ?s = pm_proposer s" "hsc ?s = hsc s"
    "r \<noteq> core_id (hsc s) \<Longrightarrow> pm_prop_blk ?s r = pm_prop_blk s r" for r
    by (auto simp: rr_reg_proposal_def high_tail_proposal_def split: option.splits)
  obtain ks where "proposer_update_last_proposed q ?s = Inr (s', ks)"
    using assms(3) Proposed by (auto simp: sbind_eq_Inr)
  then have "same_turn ?s s'"
    using schedule_next_same_turn [of "?s\<lparr>last_proposed := prop_blk q, locked := False\<rparr>" s' ks]
    by (auto simp: proposer_update_last_proposed_def proposer_schedule_next_def same_turn_def split: if_splits)
  then show ?thesis using p assms(1,2) by (auto simp: same_turn_def stalled_def silent_def)
next
  case (ReceivedProposal q)
  obtain s1 where s1: "high_tail_receive_proposal q s = Inr s1" "s' = rr_reg_receive_proposal q s1"
    using assms(3) ReceivedProposal by (auto simp: sbind_eq_Inr)
  then show ?thesis using high_tail_same_turn(2) [OF s1(1)] assms(1,2,4) ReceivedProposal
    by (auto simp: same_turn_def stalled_def silent_def rr_reg_receive_proposal_def split: option.splits)
next
  case (DoConsensus b)
  then show ?thesis using assms by (auto simp: rr_on_consensus_def stalled_def silent_def)
next
  case HqcUpdated
  then show ?thesis using assms high_tail_same_turn(1) [of order s] by (auto simp: sbind_eq_Inr same_turn_def stalled_def silent_def)
next
  case (QcFinished h)
  then show ?thesis using assms qc_finished_same_turn [of h s] by (auto simp: same_turn_def stalled_def silent_def split: prod.splits)
qed (use assms in auto)

lemma stalled_events:
  assumes "stalled s" "silent s" "rr_events order es s = Inr (s', acts)"
    and "\<forall>prop. ReceivedProposal prop \<in> set es \<longrightarrow> proposer prop \<noteq> pm_proposer s"
  shows "stalled s' \<and> silent s' \<and> pm_proposer s' = pm_proposer s"
  using assms
proof (induction es arbitrary: s acts)
  case (Cons e es)
  obtain s1 a1 a2 where s1: "rr_event order e s = Inr (s1, a1)" "rr_events order es s1 = Inr (s', a2)"
    using Cons.prems(3) by (auto simp: sbind_eq_Inr)
  have "stalled s1 \<and> silent s1 \<and> pm_proposer s1 = pm_proposer s"
    using stalled_event [OF Cons.prems(1,2) s1(1)] Cons.prems(4) by auto
  then show ?case using Cons.IH [OF _ _ s1(2)] Cons.prems(4) by auto
qed simp

text \<open>C40: finding. A block that is committed while a replica rotates to another proposer deletes the
  timer of the rotation. If the next proposer stays silent, the replica rotates no further, whatever else
  happens: no timer is set, impeachment does nothing while it rotates, and beats name the silent proposer.\<close>

theorem rotation_stalls:
  assumes "rotating s" "pm_prop_blk s (pm_proposer s) = None" "pm_proposer s \<noteq> core_id (hsc s)"
    and "rr_events order (DoConsensus b # es) s = Inr (s', acts)"
    and "\<forall>prop. ReceivedProposal prop \<in> set es \<longrightarrow> proposer prop \<noteq> pm_proposer s"
  shows "rotating s' \<and> pm_proposer s' = pm_proposer s \<and> timer_fires sha order s' = Inr (s', [], []) \<and> impeach s' = Inr s' \<and>
    rr_beat cs s' = Inr (s', [BeatResolved (pm_proposer s) cs])"
proof -
  let ?s = "fst (rr_on_consensus b s)"
  have s: "stalled ?s" "silent ?s" "pm_proposer ?s = pm_proposer s"
    using assms(1-3) by (simp_all add: rr_on_consensus_def stalled_def silent_def)
  obtain a2 where "rr_events order es ?s = Inr (s', a2)"
    using assms(4) by (auto simp: sbind_eq_Inr split: prod.splits)
  from stalled_events [OF s(1,2) this] show ?thesis using assms(5) s(3)
    by (auto simp: stalled_def timer_fires_def impeach_def rr_beat_def)
qed

section \<open>Samples\<close>

definition sample_core :: "unit core" where
  "sample_core = (core_new (\<lambda>bs. 0) 0 (\<lambda>h. sample_sig))
     \<lparr>config := config_new\<lparr>nreplicas := 4, nmajority := 3\<rparr>, storage := storage_new\<lparr>blk_cache := [5 \<mapsto> block_new]\<rparr>\<rparr>"

definition sample_pm :: "unit core \<Rightarrow> unit pacemaker" where
  "sample_pm c = \<lparr>hsc = c, promises = [0 \<mapsto> Pending [ResolveBeat [1]]], n_promises = 1, qc_promise_of = [4 \<mapsto> 0], hqc_tail = 4,
     pending_beats = [[2]], last_proposed = 4, locked = True, pm_qc_finish = Some 0, pm_wait_propose = True\<rparr>"

definition sample_rr :: "unit pm_rr" where
  "sample_rr = pacemaker.extend (sample_pm sample_core)
     (pm_rr.fields 10 20 5 (Some (ExpTimeout 10)) 3 Map.empty True 1 1 None)"

lemma sample_core_simps: "core_id sample_core = 0" "config sample_core = config_new\<lparr>nreplicas := 4, nmajority := 3\<rparr>"
  "get_blk sample_core 5 = Inr block_new"
  by (simp_all add: sample_core_def core_new_def case_prod_beta Let_def)

lemma sample_rr_simps: "hsc sample_rr = sample_core" "pm_proposer sample_rr = 3" "pm_prop_blk sample_rr = Map.empty" "rotating sample_rr"
  by (simp_all add: sample_rr_def pacemaker.defs pm_rr.defs sample_pm_def)



theorem rotation_round_robin_witness:
  "\<exists>s'. rotations 2 sample_rr = Inr s' \<and> unat (pm_proposer s') = 1"
  using rotation_round_robin [of sample_rr 2] by (auto simp: sample_rr_simps sample_core_simps)

theorem rotation_stalls_witness:
  "\<exists>s' acts. rr_events [] [DoConsensus 4, QcFinished 4] sample_rr = Inr (s', acts) \<and> rotating s' \<and> impeach s' = Inr s' \<and>
    timer_fires (\<lambda>bs. 0) [] s' = Inr (s', [], [])"
proof -
  obtain s' acts where run: "rr_events [] [DoConsensus 4, QcFinished 4] sample_rr = Inr (s', acts)"
    by (cases "qc_finished 4 (sample_rr\<lparr>timer := None, exp_timeout := base_timeout sample_rr\<rparr>)")
       (auto simp: rr_on_consensus_def sample_rr_simps)
  show ?thesis using rotation_stalls [OF _ _ _ run] run by (auto simp: sample_rr_simps sample_core_simps)
qed

end
