(* ===== verification/Field_5x52.thy ===== *)
theory Field_5x52
  imports Prelude
begin

text \<open>
  Field elements of secp256k1 on five limbs in base \<open>2^52\<close>
  (\<open>secp256k1/src/field_5x52.h\<close>, \<open>field_5x52_impl.h\<close>, \<open>field_5x52_int128_impl.h\<close>).
  Limbs may exceed 52 bits between normalizations. Additions and multiplications wrap at 64
  and at 128 bits as in C; the checks under \<open>VERIFY\<close> are not compiled.
\<close>

record fe =
  n0 :: u64
  n1 :: u64
  n2 :: u64
  n3 :: u64
  n4 :: u64

record fe_storage =
  s0 :: u64
  s1 :: u64
  s2 :: u64
  s3 :: u64

abbreviation M52 :: "'a::len word" where "M52 \<equiv> 0xFFFFFFFFFFFFF"
abbreviation M48 :: u64 where "M48 \<equiv> 0xFFFFFFFFFFFF"

section \<open>Normalization\<close>

text \<open>
  The carry pass \<open>t1 += (t0 >> 52); t0 &= 0xFFFFFFFFFFFFF; ...\<close> that the routines
  repeat, after \<open>t0 += x * 0x1000003D1\<close>.
\<close>

definition fe_pass :: "u64 \<Rightarrow> fe \<Rightarrow> fe" where
  "fe_pass x t =
     (let t0 = n0 t + x * 0x1000003D1;
          t1 = n1 t + drop_bit 52 t0; t0 = t0 AND M52;
          t2 = n2 t + drop_bit 52 t1; t1 = t1 AND M52;
          t3 = n3 t + drop_bit 52 t2; t2 = t2 AND M52;
          t4 = n4 t + drop_bit 52 t3; t3 = t3 AND M52
      in \<lparr>n0 = t0, n1 = t1, n2 = t2, n3 = t3, n4 = t4\<rparr>)"

definition secp256k1_fe_normalize :: "fe \<Rightarrow> fe" where
  "secp256k1_fe_normalize r =
     (let x = drop_bit 48 (n4 r);
          t = fe_pass x (r\<lparr>n4 := n4 r AND M48\<rparr>);
          m = n1 t AND n2 t AND n3 t;
          x = drop_bit 48 (n4 t) OR of_bool (n4 t = M48 \<and> m = M52 \<and> n0 t \<ge> 0xFFFFEFFFFFC2F);
          t = fe_pass x t
      in t\<lparr>n4 := n4 t AND M48\<rparr>)"

definition secp256k1_fe_normalize_weak :: "fe \<Rightarrow> fe" where
  "secp256k1_fe_normalize_weak r =
     (let x = drop_bit 48 (n4 r) in fe_pass x (r\<lparr>n4 := n4 r AND M48\<rparr>))"

definition secp256k1_fe_normalize_var :: "fe \<Rightarrow> fe" where
  "secp256k1_fe_normalize_var r =
     (let x = drop_bit 48 (n4 r);
          t = fe_pass x (r\<lparr>n4 := n4 r AND M48\<rparr>);
          m = n1 t AND n2 t AND n3 t;
          x = drop_bit 48 (n4 t) OR of_bool (n4 t = M48 \<and> m = M52 \<and> n0 t \<ge> 0xFFFFEFFFFFC2F)
      in if x \<noteq> 0 then let t = fe_pass 1 t in t\<lparr>n4 := n4 t AND M48\<rparr> else t)"

definition secp256k1_fe_normalizes_to_zero :: "fe \<Rightarrow> bool" where
  "secp256k1_fe_normalizes_to_zero r =
     (let x = drop_bit 48 (n4 r);
          t = fe_pass x (r\<lparr>n4 := n4 r AND M48\<rparr>);
          z0 = n0 t OR n1 t OR n2 t OR n3 t OR n4 t;
          z1 = (n0 t XOR 0x1000003D0) AND n1 t AND n2 t AND n3 t AND (n4 t XOR 0xF000000000000)
      in z0 = 0 \<or> z1 = M52)"

definition secp256k1_fe_normalizes_to_zero_var :: "fe \<Rightarrow> bool" where
  "secp256k1_fe_normalizes_to_zero_var r =
     (let t0 = n0 r; t4 = n4 r;
          x = drop_bit 48 t4;
          t0 = t0 + x * 0x1000003D1;
          z0 = t0 AND M52;
          z1 = z0 XOR 0x1000003D0
      in if z0 \<noteq> 0 \<and> z1 \<noteq> M52 then False
         else
           (let t1 = n1 r; t2 = n2 r; t3 = n3 r;
                t4 = t4 AND M48;
                t1 = t1 + drop_bit 52 t0;
                t2 = t2 + drop_bit 52 t1; t1 = t1 AND M52; z0 = z0 OR t1; z1 = z1 AND t1;
                t3 = t3 + drop_bit 52 t2; t2 = t2 AND M52; z0 = z0 OR t2; z1 = z1 AND t2;
                t4 = t4 + drop_bit 52 t3; t3 = t3 AND M52; z0 = z0 OR t3; z1 = z1 AND t3;
                z0 = z0 OR t4; z1 = z1 AND (t4 XOR 0xF000000000000)
            in z0 = 0 \<or> z1 = M52))"

section \<open>Small operations\<close>

text \<open>\<open>int\<close> arguments are given as the 64-bit words they convert to.\<close>

definition secp256k1_fe_set_int :: "u64 \<Rightarrow> fe" where
  "secp256k1_fe_set_int a = \<lparr>n0 = a, n1 = 0, n2 = 0, n3 = 0, n4 = 0\<rparr>"

definition secp256k1_fe_is_zero :: "fe \<Rightarrow> bool" where
  "secp256k1_fe_is_zero a = ((n0 a OR n1 a OR n2 a OR n3 a OR n4 a) = 0)"

definition secp256k1_fe_is_odd :: "fe \<Rightarrow> bool" where
  "secp256k1_fe_is_odd a = ((n0 a AND 1) \<noteq> 0)"

definition secp256k1_fe_clear :: "fe \<Rightarrow> fe" where
  "secp256k1_fe_clear a = a\<lparr>n0 := 0, n1 := 0, n2 := 0, n3 := 0, n4 := 0\<rparr>"

fun fe_cmp_limbs :: "u64 list \<Rightarrow> u64 list \<Rightarrow> int" where
  "fe_cmp_limbs (x # xs) (y # ys) = (if x > y then 1 else if x < y then -1 else fe_cmp_limbs xs ys)"
| "fe_cmp_limbs _ _ = 0"

definition secp256k1_fe_cmp_var :: "fe \<Rightarrow> fe \<Rightarrow> int" where
  "secp256k1_fe_cmp_var a b = fe_cmp_limbs [n4 a, n3 a, n2 a, n1 a, n0 a] [n4 b, n3 b, n2 b, n1 b, n0 b]"

definition secp256k1_fe_set_b32 :: "bytes \<Rightarrow> fe \<times> bool" where
  "secp256k1_fe_set_b32 a =
     (let r = \<lparr>n0 = ucast (a ! 31) OR push_bit 8 (ucast (a ! 30)) OR push_bit 16 (ucast (a ! 29))
                 OR push_bit 24 (ucast (a ! 28)) OR push_bit 32 (ucast (a ! 27)) OR push_bit 40 (ucast (a ! 26))
                 OR push_bit 48 (ucast (a ! 25 AND 0xF)),
               n1 = ucast (drop_bit 4 (a ! 25) AND 0xF) OR push_bit 4 (ucast (a ! 24)) OR push_bit 12 (ucast (a ! 23))
                 OR push_bit 20 (ucast (a ! 22)) OR push_bit 28 (ucast (a ! 21)) OR push_bit 36 (ucast (a ! 20))
                 OR push_bit 44 (ucast (a ! 19)),
               n2 = ucast (a ! 18) OR push_bit 8 (ucast (a ! 17)) OR push_bit 16 (ucast (a ! 16))
                 OR push_bit 24 (ucast (a ! 15)) OR push_bit 32 (ucast (a ! 14)) OR push_bit 40 (ucast (a ! 13))
                 OR push_bit 48 (ucast (a ! 12 AND 0xF)),
               n3 = ucast (drop_bit 4 (a ! 12) AND 0xF) OR push_bit 4 (ucast (a ! 11)) OR push_bit 12 (ucast (a ! 10))
                 OR push_bit 20 (ucast (a ! 9)) OR push_bit 28 (ucast (a ! 8)) OR push_bit 36 (ucast (a ! 7))
                 OR push_bit 44 (ucast (a ! 6)),
               n4 = ucast (a ! 5) OR push_bit 8 (ucast (a ! 4)) OR push_bit 16 (ucast (a ! 3))
                 OR push_bit 24 (ucast (a ! 2)) OR push_bit 32 (ucast (a ! 1)) OR push_bit 40 (ucast (a ! 0))\<rparr>
      in (r, \<not> (n4 r = M48 \<and> (n3 r AND n2 r AND n1 r) = M52 \<and> n0 r \<ge> 0xFFFFEFFFFFC2F)))"

definition secp256k1_fe_get_b32 :: "fe \<Rightarrow> bytes" where
  "secp256k1_fe_get_b32 a =
     [ucast (drop_bit 40 (n4 a) AND 0xFF), ucast (drop_bit 32 (n4 a) AND 0xFF), ucast (drop_bit 24 (n4 a) AND 0xFF),
      ucast (drop_bit 16 (n4 a) AND 0xFF), ucast (drop_bit 8 (n4 a) AND 0xFF), ucast (n4 a AND 0xFF),
      ucast (drop_bit 44 (n3 a) AND 0xFF), ucast (drop_bit 36 (n3 a) AND 0xFF), ucast (drop_bit 28 (n3 a) AND 0xFF),
      ucast (drop_bit 20 (n3 a) AND 0xFF), ucast (drop_bit 12 (n3 a) AND 0xFF), ucast (drop_bit 4 (n3 a) AND 0xFF),
      ucast ((drop_bit 48 (n2 a) AND 0xF) OR push_bit 4 (n3 a AND 0xF)),
      ucast (drop_bit 40 (n2 a) AND 0xFF), ucast (drop_bit 32 (n2 a) AND 0xFF), ucast (drop_bit 24 (n2 a) AND 0xFF),
      ucast (drop_bit 16 (n2 a) AND 0xFF), ucast (drop_bit 8 (n2 a) AND 0xFF), ucast (n2 a AND 0xFF),
      ucast (drop_bit 44 (n1 a) AND 0xFF), ucast (drop_bit 36 (n1 a) AND 0xFF), ucast (drop_bit 28 (n1 a) AND 0xFF),
      ucast (drop_bit 20 (n1 a) AND 0xFF), ucast (drop_bit 12 (n1 a) AND 0xFF), ucast (drop_bit 4 (n1 a) AND 0xFF),
      ucast ((drop_bit 48 (n0 a) AND 0xF) OR push_bit 4 (n1 a AND 0xF)),
      ucast (drop_bit 40 (n0 a) AND 0xFF), ucast (drop_bit 32 (n0 a) AND 0xFF), ucast (drop_bit 24 (n0 a) AND 0xFF),
      ucast (drop_bit 16 (n0 a) AND 0xFF), ucast (drop_bit 8 (n0 a) AND 0xFF), ucast (n0 a AND 0xFF)]"

definition secp256k1_fe_negate :: "fe \<Rightarrow> u64 \<Rightarrow> fe" where
  "secp256k1_fe_negate a m =
     \<lparr>n0 = 0xFFFFEFFFFFC2F * 2 * (m + 1) - n0 a, n1 = M52 * 2 * (m + 1) - n1 a, n2 = M52 * 2 * (m + 1) - n2 a,
      n3 = M52 * 2 * (m + 1) - n3 a, n4 = M48 * 2 * (m + 1) - n4 a\<rparr>"

definition secp256k1_fe_mul_int :: "fe \<Rightarrow> u64 \<Rightarrow> fe" where
  "secp256k1_fe_mul_int r a = \<lparr>n0 = n0 r * a, n1 = n1 r * a, n2 = n2 r * a, n3 = n3 r * a, n4 = n4 r * a\<rparr>"

definition secp256k1_fe_add :: "fe \<Rightarrow> fe \<Rightarrow> fe" where
  "secp256k1_fe_add r a = \<lparr>n0 = n0 r + n0 a, n1 = n1 r + n1 a, n2 = n2 r + n2 a, n3 = n3 r + n3 a, n4 = n4 r + n4 a\<rparr>"

text \<open>\<open>flag + ~0\<close> is all ones for 0 and zero for 1.\<close>

definition secp256k1_fe_cmov :: "fe \<Rightarrow> fe \<Rightarrow> u64 \<Rightarrow> fe" where
  "secp256k1_fe_cmov r a flag =
     (let mask0 = flag + NOT 0; mask1 = NOT mask0 in
      \<lparr>n0 = (n0 r AND mask0) OR (n0 a AND mask1), n1 = (n1 r AND mask0) OR (n1 a AND mask1),
       n2 = (n2 r AND mask0) OR (n2 a AND mask1), n3 = (n3 r AND mask0) OR (n3 a AND mask1),
       n4 = (n4 r AND mask0) OR (n4 a AND mask1)\<rparr>)"

definition secp256k1_fe_storage_cmov :: "fe_storage \<Rightarrow> fe_storage \<Rightarrow> u64 \<Rightarrow> fe_storage" where
  "secp256k1_fe_storage_cmov r a flag =
     (let mask0 = flag + NOT 0; mask1 = NOT mask0 in
      \<lparr>s0 = (s0 r AND mask0) OR (s0 a AND mask1), s1 = (s1 r AND mask0) OR (s1 a AND mask1),
       s2 = (s2 r AND mask0) OR (s2 a AND mask1), s3 = (s3 r AND mask0) OR (s3 a AND mask1)\<rparr>)"

definition secp256k1_fe_to_storage :: "fe \<Rightarrow> fe_storage" where
  "secp256k1_fe_to_storage a =
     \<lparr>s0 = n0 a OR push_bit 52 (n1 a), s1 = drop_bit 12 (n1 a) OR push_bit 40 (n2 a),
      s2 = drop_bit 24 (n2 a) OR push_bit 28 (n3 a), s3 = drop_bit 36 (n3 a) OR push_bit 16 (n4 a)\<rparr>"

definition secp256k1_fe_from_storage :: "fe_storage \<Rightarrow> fe" where
  "secp256k1_fe_from_storage a =
     \<lparr>n0 = s0 a AND M52, n1 = drop_bit 52 (s0 a) OR (push_bit 12 (s1 a) AND M52),
      n2 = drop_bit 40 (s1 a) OR (push_bit 24 (s2 a) AND M52),
      n3 = drop_bit 28 (s2 a) OR (push_bit 36 (s3 a) AND M52), n4 = drop_bit 16 (s3 a)\<rparr>"

section \<open>Multiplication\<close>

abbreviation FE_R :: u128 where "FE_R \<equiv> 0x1000003D10"

text \<open>\<open>(uint128_t)a * b\<close>.\<close>

definition mul128 :: "u64 \<Rightarrow> u64 \<Rightarrow> u128" where
  "mul128 x y = ucast x * ucast y"

definition secp256k1_fe_mul_inner :: "fe \<Rightarrow> fe \<Rightarrow> fe" where
  "secp256k1_fe_mul_inner a b =
     (let a0 = n0 a; a1 = n1 a; a2 = n2 a; a3 = n3 a; a4 = n4 a;
          d = mul128 a0 (n3 b) + mul128 a1 (n2 b) + mul128 a2 (n1 b) + mul128 a3 (n0 b);
          c = mul128 a4 (n4 b);
          d = d + (c AND M52) * FE_R; c = drop_bit 52 c;
          t3 = ucast (d AND M52) :: u64; d = drop_bit 52 d;
          d = d + (mul128 a0 (n4 b) + mul128 a1 (n3 b) + mul128 a2 (n2 b) + mul128 a3 (n1 b) + mul128 a4 (n0 b));
          d = d + c * FE_R;
          t4 = ucast (d AND M52) :: u64; d = drop_bit 52 d;
          tx = drop_bit 48 t4; t4 = t4 AND drop_bit 4 M52;
          c = mul128 a0 (n0 b);
          d = d + (mul128 a1 (n4 b) + mul128 a2 (n3 b) + mul128 a3 (n2 b) + mul128 a4 (n1 b));
          u0 = ucast (d AND M52) :: u64; d = drop_bit 52 d;
          u0 = push_bit 4 u0 OR tx;
          c = c + ucast u0 * drop_bit 4 FE_R;
          r0 = ucast (c AND M52); c = drop_bit 52 c;
          c = c + (mul128 a0 (n1 b) + mul128 a1 (n0 b));
          d = d + (mul128 a2 (n4 b) + mul128 a3 (n3 b) + mul128 a4 (n2 b));
          c = c + (d AND M52) * FE_R; d = drop_bit 52 d;
          r1 = ucast (c AND M52); c = drop_bit 52 c;
          c = c + (mul128 a0 (n2 b) + mul128 a1 (n1 b) + mul128 a2 (n0 b));
          d = d + (mul128 a3 (n4 b) + mul128 a4 (n3 b));
          c = c + (d AND M52) * FE_R; d = drop_bit 52 d;
          r2 = ucast (c AND M52); c = drop_bit 52 c;
          c = c + (d * FE_R + ucast t3);
          r3 = ucast (c AND M52); c = drop_bit 52 c;
          c = c + ucast t4
      in \<lparr>n0 = r0, n1 = r1, n2 = r2, n3 = r3, n4 = ucast c\<rparr>)"

text \<open>In the squaring \<open>t3\<close>, \<open>t4\<close>, \<open>tx\<close> and \<open>u0\<close> are signed: shifts and conversions keep the sign.\<close>

definition secp256k1_fe_sqr_inner :: "fe \<Rightarrow> fe" where
  "secp256k1_fe_sqr_inner a =
     (let a0 = n0 a; a1 = n1 a; a2 = n2 a; a3 = n3 a; a4 = n4 a;
          d = mul128 (a0 * 2) a3 + mul128 (a1 * 2) a2;
          c = mul128 a4 a4;
          d = d + (c AND M52) * FE_R; c = drop_bit 52 c;
          t3 = ucast (d AND M52) :: u64; d = drop_bit 52 d;
          a4 = a4 * 2;
          d = d + (mul128 a0 a4 + mul128 (a1 * 2) a3 + mul128 a2 a2);
          d = d + c * FE_R;
          t4 = ucast (d AND M52) :: u64; d = drop_bit 52 d;
          tx = signed_drop_bit 48 t4; t4 = t4 AND drop_bit 4 M52;
          c = mul128 a0 a0;
          d = d + (mul128 a1 a4 + mul128 (a2 * 2) a3);
          u0 = ucast (d AND M52) :: u64; d = drop_bit 52 d;
          u0 = push_bit 4 u0 OR tx;
          c = c + scast u0 * drop_bit 4 FE_R;
          r0 = ucast (c AND M52); c = drop_bit 52 c;
          a0 = a0 * 2;
          c = c + mul128 a0 a1;
          d = d + (mul128 a2 a4 + mul128 a3 a3);
          c = c + (d AND M52) * FE_R; d = drop_bit 52 d;
          r1 = ucast (c AND M52); c = drop_bit 52 c;
          c = c + (mul128 a0 a2 + mul128 a1 a1);
          d = d + mul128 a3 a4;
          c = c + (d AND M52) * FE_R; d = drop_bit 52 d;
          r2 = ucast (c AND M52); c = drop_bit 52 c;
          c = c + (d * FE_R + scast t3);
          r3 = ucast (c AND M52); c = drop_bit 52 c;
          c = c + scast t4
      in \<lparr>n0 = r0, n1 = r1, n2 = r2, n3 = r3, n4 = ucast c\<rparr>)"

definition secp256k1_fe_mul :: "fe \<Rightarrow> fe \<Rightarrow> fe" where
  "secp256k1_fe_mul a b = secp256k1_fe_mul_inner a b"

definition secp256k1_fe_sqr :: "fe \<Rightarrow> fe" where
  "secp256k1_fe_sqr a = secp256k1_fe_sqr_inner a"

end
