(* ===== verification/Field_5x52_Correct.thy ===== *)
theory Field_5x52_Correct
  imports Field_5x52 Power_Chain
begin

text \<open>
  Correctness of the 5x52 field arithmetic modulo \<open>p = 2^256 - 0x1000003D1\<close>: what each
  routine does to the number \<open>fval\<close> that the limbs stand for, and the bounds on the limbs
  under which nothing wraps.
\<close>

abbreviation B52 :: nat where "B52 \<equiv> 4503599627370496"

definition fval :: "fe \<Rightarrow> nat" where
  "fval a = unat (n0 a) + B52 * unat (n1 a) + B52 ^ 2 * unat (n2 a) + B52 ^ 3 * unat (n3 a) + B52 ^ 4 * unat (n4 a)"

definition secp256k1_p :: nat where
  "secp256k1_p = 0xFFFFFFFFFFFFFFFFFFFFFFFFFFFFFFFFFFFFFFFFFFFFFFFFFFFFFFFEFFFFFC2F"

text \<open>The bounds \<open>VERIFY_BITS\<close> of the multiplication asks of its arguments.\<close>

definition fe_small :: "fe \<Rightarrow> bool" where
  "fe_small a = (unat (n0 a) < 2 ^ 56 \<and> unat (n1 a) < 2 ^ 56 \<and> unat (n2 a) < 2 ^ 56 \<and> unat (n3 a) < 2 ^ 56 \<and>
     unat (n4 a) < 2 ^ 52)"

definition fe_weak :: "fe \<Rightarrow> bool" where
  "fe_weak a = (unat (n0 a) < 2 ^ 52 \<and> unat (n1 a) < 2 ^ 52 \<and> unat (n2 a) < 2 ^ 52 \<and> unat (n3 a) < 2 ^ 52 \<and>
     unat (n4 a) < 2 ^ 48 + 2 ^ 46)"

section \<open>Words that stand for natural numbers\<close>

abbreviation W :: "nat \<Rightarrow> u128" where "W n \<equiv> word_of_nat n"

lemma M52_mask: "(M52 :: 'a::len word) = mask 52"
  by (simp add: mask_eq_exp_minus_1)

lemma W_and: "W n AND M52 = W (n mod B52)"
proof -
  have "W n AND M52 = W (n mod 2 ^ 52)"
    unfolding M52_mask take_bit_eq_mask [symmetric]
    by (simp only: take_bit_of_nat) (simp only: take_bit_eq_mod)
  then show ?thesis by simp
qed

lemma W_shift: "n < 2 ^ 128 \<Longrightarrow> drop_bit 52 (W n) = W (n div B52)"
proof -
  assume n: "n < 2 ^ 128"
  then have "unat (drop_bit 52 (W n)) = n div B52" by (simp add: unat_drop_bit_div unat_of_nat)
  then show ?thesis by (metis word_nat_cast_unat)
qed

lemma W_ucast: "(ucast (x :: u64) :: u128) = W (unat x)"
  by simp

lemma W_low: "n < 2 ^ 64 \<Longrightarrow> unat (ucast (W n) :: u64) = n"
  by (simp add: unsigned_ucast_eq unat_of_nat take_bit_nat_eq_self)

lemma mul128_W: "mul128 x y = W (unat x * unat y)"
  by (simp add: mul128_def)

section \<open>The columns of a product\<close>

text \<open>
  Nine columns of partial products are folded into five limbs. The coefficients obey
  \<open>B = 16 * Q\<close>, \<open>B ^ 4 * Q = p + S\<close> (that is \<open>2 ^ 256\<close>) and \<open>R = 16 * S\<close>.
\<close>

lemma fold_columns:
  fixes Q S :: int
  defines "B \<equiv> 16 * Q" and "R \<equiv> 16 * S"
  defines "p \<equiv> B ^ 4 * Q - S"
  assumes "P8 = c1 + B * c2" "P3 + c1 * R = t3 + B * d3" "P4 + d3 + c2 * R = t4 + Q * tx + B * d6"
    "P5 + d6 = u + B * d8" "P0 + (16 * u + tx) * S = r0 + B * c5" "P6 + d8 = d9 + B * d10"
    "P1 + c5 + d9 * R = r1 + B * c8" "P7 + d10 = d11 + B * d12" "P2 + c8 + d11 * R = r2 + B * c11"
    "c11 + d12 * R + t3 = r3 + B * c13" "r4 = c13 + t4"
  shows "P0 + P1 * B + P2 * B ^ 2 + P3 * B ^ 3 + P4 * B ^ 4 + P5 * B ^ 5 + P6 * B ^ 6 + P7 * B ^ 7 + P8 * B ^ 8 =
    r0 + r1 * B + r2 * B ^ 2 + r3 * B ^ 3 + r4 * B ^ 4 +
    p * (16 * B ^ 3 * c1 + 16 * B ^ 4 * c2 + 16 * u + tx + 16 * B * d9 + 16 * B ^ 2 * d11 + 16 * B ^ 3 * d12)"
proof -
  have P: "P8 = c1 + B * c2" "P3 = t3 + B * d3 - c1 * R" "P4 = t4 + Q * tx + B * d6 - d3 - c2 * R"
    "P5 = u + B * d8 - d6" "P0 = r0 + B * c5 - (16 * u + tx) * S" "P6 = d9 + B * d10 - d8"
    "P1 = r1 + B * c8 - c5 - d9 * R" "P7 = d11 + B * d12 - d10" "P2 = r2 + B * c11 - c8 - d11 * R"
    "c11 = r3 + B * c13 - d12 * R - t3" "r4 = c13 + t4"
    using assms(4-14) by (simp_all add: algebra_simps)
  show ?thesis unfolding P B_def R_def p_def by algebra
qed

abbreviation FR :: nat where "FR \<equiv> 68719492368"
abbreviation FS :: nat where "FS \<equiv> 4294968273"

text \<open>The intermediate values of the two multiplication routines, as natural numbers.\<close>

definition fold_run :: "(nat \<Rightarrow> nat) \<Rightarrow> nat \<Rightarrow> nat \<Rightarrow> nat \<Rightarrow> nat \<Rightarrow> nat \<Rightarrow> nat \<Rightarrow> nat \<Rightarrow> nat \<Rightarrow> nat \<Rightarrow> nat \<Rightarrow> nat \<Rightarrow> bool"
where
  "fold_run P D2 D5 D7 U C4 D9 C7 D11 C10 C12 C14 =
    (D2 = P 3 + P 8 mod B52 * FR \<and> D5 = D2 div B52 + P 4 + P 8 div B52 * FR \<and> D7 = D5 div B52 + P 5 \<and>
     U = 16 * (D7 mod B52) + D5 mod B52 div 2 ^ 48 \<and> C4 = P 0 + U * FS \<and> D9 = D7 div B52 + P 6 \<and>
     C7 = C4 div B52 + P 1 + D9 mod B52 * FR \<and> D11 = D9 div B52 + P 7 \<and>
     C10 = C7 div B52 + P 2 + D11 mod B52 * FR \<and> C12 = C10 div B52 + (D11 div B52 * FR + D2 mod B52) \<and>
     C14 = C12 div B52 + D5 mod B52 mod 2 ^ 48)"

lemma fold_run_val:
  assumes "fold_run P D2 D5 D7 U C4 D9 C7 D11 C10 C12 C14"
  shows "(P 0 + P 1 * B52 + P 2 * B52 ^ 2 + P 3 * B52 ^ 3 + P 4 * B52 ^ 4 + P 5 * B52 ^ 5 + P 6 * B52 ^ 6 +
      P 7 * B52 ^ 7 + P 8 * B52 ^ 8) mod secp256k1_p =
    (C4 mod B52 + C7 mod B52 * B52 + C10 mod B52 * B52 ^ 2 + C12 mod B52 * B52 ^ 3 + C14 * B52 ^ 4) mod secp256k1_p"
    (is "?L mod _ = ?R mod _")
proof -
  have split: "int x = int (x mod b) + int b * int (x div b)" for x b :: nat
    by (metis mod_mult_div_eq of_nat_add of_nat_mult)
  have e: "int x = int (x mod B52) + 16 * 281474976710656 * int (x div B52)" for x
    using split [of x B52] by simp
  have e48: "int x = int (x mod 2 ^ 48) + 281474976710656 * int (x div 2 ^ 48)" for x :: nat
    using split [of x "2 ^ 48"] by simp
  define K where "K = 16 * (16 * 281474976710656) ^ 3 * int (P 8 mod B52) + 16 * (16 * 281474976710656) ^ 4 * int (P 8 div B52) +
      16 * int (D7 mod B52) + int (D5 mod B52 div 2 ^ 48) + 16 * (16 * 281474976710656) * int (D9 mod B52) +
      16 * (16 * 281474976710656) ^ 2 * int (D11 mod B52) + 16 * (16 * 281474976710656) ^ 3 * int (D11 div B52)"
  have "int ?L = int ?R + int secp256k1_p * K"
  proof -
    have run: "D2 = P 3 + P 8 mod B52 * FR" "D5 = D2 div B52 + P 4 + P 8 div B52 * FR" "D7 = D5 div B52 + P 5"
      "U = 16 * (D7 mod B52) + D5 mod B52 div 2 ^ 48" "C4 = P 0 + U * FS" "D9 = D7 div B52 + P 6"
      "C7 = C4 div B52 + P 1 + D9 mod B52 * FR" "D11 = D9 div B52 + P 7"
      "C10 = C7 div B52 + P 2 + D11 mod B52 * FR" "C12 = C10 div B52 + (D11 div B52 * FR + D2 mod B52)"
      "C14 = C12 div B52 + D5 mod B52 mod 2 ^ 48"
      using assms unfolding fold_run_def by blast+
    note i = run [THEN arg_cong, of int, unfolded of_nat_add of_nat_mult of_nat_numeral]
    have "int (P 8) = int (P 8 mod B52) + 16 * 281474976710656 * int (P 8 div B52)" by (rule e)
    moreover have "int (P 3) + int (P 8 mod B52) * (16 * 4294968273) =
        int (D2 mod B52) + 16 * 281474976710656 * int (D2 div B52)"
      using i(1) e [of D2] by linarith
    moreover have "int (P 4) + int (D2 div B52) + int (P 8 div B52) * (16 * 4294968273) =
        int (D5 mod B52 mod 2 ^ 48) + 281474976710656 * int (D5 mod B52 div 2 ^ 48) + 16 * 281474976710656 * int (D5 div B52)"
      using i(2) e [of D5] e48 [of "D5 mod B52"] by linarith
    moreover have "int (P 5) + int (D5 div B52) = int (D7 mod B52) + 16 * 281474976710656 * int (D7 div B52)"
      using i(3) e [of D7] by linarith
    moreover have "int (P 0) + (16 * int (D7 mod B52) + int (D5 mod B52 div 2 ^ 48)) * 4294968273 =
        int (C4 mod B52) + 16 * 281474976710656 * int (C4 div B52)"
      using i(5) e [of C4] unfolding i(4) [symmetric] by linarith
    moreover have "int (P 6) + int (D7 div B52) = int (D9 mod B52) + 16 * 281474976710656 * int (D9 div B52)"
      using i(6) e [of D9] by linarith
    moreover have "int (P 1) + int (C4 div B52) + int (D9 mod B52) * (16 * 4294968273) =
        int (C7 mod B52) + 16 * 281474976710656 * int (C7 div B52)"
      using i(7) e [of C7] by linarith
    moreover have "int (P 7) + int (D9 div B52) = int (D11 mod B52) + 16 * 281474976710656 * int (D11 div B52)"
      using i(8) e [of D11] by linarith
    moreover have "int (P 2) + int (C7 div B52) + int (D11 mod B52) * (16 * 4294968273) =
        int (C10 mod B52) + 16 * 281474976710656 * int (C10 div B52)"
      using i(9) e [of C10] by linarith
    moreover have "int (C10 div B52) + int (D11 div B52) * (16 * 4294968273) + int (D2 mod B52) =
        int (C12 mod B52) + 16 * 281474976710656 * int (C12 div B52)"
      using i(10) e [of C12] by linarith
    moreover have "int C14 = int (C12 div B52) + int (D5 mod B52 mod 2 ^ 48)" by (rule i(11))
    ultimately have "int (P 0) + int (P 1) * (16 * 281474976710656) + int (P 2) * (16 * 281474976710656) ^ 2 +
        int (P 3) * (16 * 281474976710656) ^ 3 + int (P 4) * (16 * 281474976710656) ^ 4 + int (P 5) * (16 * 281474976710656) ^ 5 +
        int (P 6) * (16 * 281474976710656) ^ 6 + int (P 7) * (16 * 281474976710656) ^ 7 + int (P 8) * (16 * 281474976710656) ^ 8 =
      int (C4 mod B52) + int (C7 mod B52) * (16 * 281474976710656) + int (C10 mod B52) * (16 * 281474976710656) ^ 2 +
        int (C12 mod B52) * (16 * 281474976710656) ^ 3 + int C14 * (16 * 281474976710656) ^ 4 +
        ((16 * 281474976710656) ^ 4 * 281474976710656 - 4294968273) * K"
      unfolding K_def by (rule fold_columns)
    then show ?thesis by (simp add: secp256k1_p_def)
  qed
  then have "int ?L mod int secp256k1_p = int ?R mod int secp256k1_p" by simp
  then show ?thesis by (metis of_nat_eq_iff zmod_int)
qed


text \<open>The bounds that \<open>VERIFY_BITS\<close> states for the intermediate values.\<close>

definition cols_ok :: "(nat \<Rightarrow> nat) \<Rightarrow> bool" where
  "cols_ok P = (P 0 < 2 ^ 112 \<and> P 1 < 2 ^ 113 \<and> P 2 < 2 ^ 114 \<and> P 3 < 2 ^ 114 \<and> P 4 < 2 ^ 114 \<and> P 5 < 2 ^ 114 \<and>
     P 6 < 2 ^ 114 \<and> P 7 < 2 ^ 110 \<and> P 8 < 2 ^ 104)"

lemma fold_run_bounds:
  assumes "fold_run P D2 D5 D7 U C4 D9 C7 D11 C10 C12 C14" and "cols_ok P"
  shows "D2 < 2 ^ 115 \<and> D5 < 2 ^ 115 \<and> D7 < 2 ^ 115 \<and> U < 2 ^ 56 \<and> C4 < 2 ^ 113 \<and> D9 < 2 ^ 115 \<and> C7 < 2 ^ 114 \<and>
    D11 < 2 ^ 111 \<and> C10 < 2 ^ 115 \<and> C12 < 2 ^ 97 \<and> C14 < 2 ^ 48 + 2 ^ 46"
proof -
  have run: "D2 = P 3 + P 8 mod B52 * FR" "D5 = D2 div B52 + P 4 + P 8 div B52 * FR" "D7 = D5 div B52 + P 5"
    "U = 16 * (D7 mod B52) + D5 mod B52 div 2 ^ 48" "C4 = P 0 + U * FS" "D9 = D7 div B52 + P 6"
    "C7 = C4 div B52 + P 1 + D9 mod B52 * FR" "D11 = D9 div B52 + P 7"
    "C10 = C7 div B52 + P 2 + D11 mod B52 * FR" "C12 = C10 div B52 + (D11 div B52 * FR + D2 mod B52)"
    "C14 = C12 div B52 + D5 mod B52 mod 2 ^ 48"
    using assms(1) unfolding fold_run_def by blast+
  have P: "P 0 < 2 ^ 112" "P 1 < 2 ^ 113" "P 2 < 2 ^ 114" "P 3 < 2 ^ 114" "P 4 < 2 ^ 114" "P 5 < 2 ^ 114"
    "P 6 < 2 ^ 114" "P 7 < 2 ^ 110" "P 8 < 2 ^ 104" using assms(2) by (auto simp: cols_ok_def)
  have m: "x mod B52 < 2 ^ 52" for x by simp
  have d: "x div B52 < 2 ^ k" if "x < 2 ^ (52 + k)" for x k
    using that by (intro less_mult_imp_div_less) (simp add: power_add mult.commute)
  have D2: "D2 < 2 ^ 115" using run(1) P(4) m [of "P 8"] by simp
  have D5: "D5 < 2 ^ 115" using run(2) P(5) d [of "P 8" 52] P(9) d [of D2 63] D2 by simp
  have D7: "D7 < 2 ^ 115" using run(3) P(6) d [of D5 63] D5 by simp
  have "D5 mod B52 div 2 ^ 48 < 2 ^ 4" using m [of D5] by (intro less_mult_imp_div_less) simp
  then have U: "U < 2 ^ 56" using run(4) m [of D7] by simp
  have C4: "C4 < 2 ^ 113" using run(5) P(1) U by simp
  have D9: "D9 < 2 ^ 115" using run(6) P(7) d [of D7 63] D7 by simp
  have C7: "C7 < 2 ^ 114" using run(7) P(2) d [of C4 61] C4 m [of D9] by simp
  have D11: "D11 < 2 ^ 111" using run(8) P(8) d [of D9 63] D9 by simp
  have C10: "C10 < 2 ^ 115" using run(9) P(3) d [of C7 62] C7 m [of D11] by simp
  have C12: "C12 < 2 ^ 97" using run(10) d [of C10 63] C10 d [of D11 59] D11 m [of D2] by simp
  have "D5 mod B52 mod 2 ^ 48 < 2 ^ 48" by simp
  then have "C14 < 2 ^ 48 + 2 ^ 46" using run(11) d [of C12 45] C12 by simp
  then show ?thesis using D2 D5 D7 U C4 D9 C7 D11 C10 C12 by blast
qed


section \<open>The routines run the fold\<close>

lemma W_limb: "n < 2 ^ 64 \<Longrightarrow> (ucast (ucast (W n) :: u64) :: u128) = W n"
  using W_low [of n] by (metis W_ucast)

lemma W_top: "n < 2 ^ 64 \<Longrightarrow> (ucast ((ucast (W n) :: u64) AND drop_bit 4 M52) :: u128) = W (n mod 2 ^ 48)"
proof -
  assume n: "n < 2 ^ 64"
  have "(drop_bit 4 M52 :: u64) = mask 48" by (simp add: mask_eq_exp_minus_1)
  then have "unat ((ucast (W n) :: u64) AND drop_bit 4 M52) = n mod 2 ^ 48"
    by (simp only: unat_and_mask_eq W_low [OF n])
  then show ?thesis by (metis W_ucast)
qed

lemma W_mid:
  assumes "u < 2 ^ 52" "n < 2 ^ 52"
  shows "(ucast (push_bit 4 (ucast (W u) :: u64) OR drop_bit 48 (ucast (W n) :: u64)) :: u128) = W (16 * u + n div 2 ^ 48)"
proof -
  let ?y = "ucast (W u) :: u64" and ?x = "drop_bit 48 (ucast (W n) :: u64)"
  have y: "unat ?y = u" using assms(1) by (intro W_low) simp
  have "unat (ucast (W n) :: u64) = n" using assms(2) by (intro W_low) simp
  then have x: "unat ?x = n div 2 ^ 48" by (simp only: unat_drop_bit_div)
  have "n div 2 ^ 48 < 2 ^ 4" using assms(2) by (intro less_mult_imp_div_less) simp
  then have "unat (push_bit 4 ?y OR ?x) = unat ?y * 2 ^ 4 + unat ?x"
    using assms(1) by (intro unat_or_push(1)) (simp_all only: x y, simp)
  then have "unat (push_bit 4 ?y OR ?x) = 16 * u + n div 2 ^ 48" by (simp only: x y) simp
  then show ?thesis by (simp only: W_ucast)
qed

definition fe_cols :: "fe \<Rightarrow> fe \<Rightarrow> nat \<Rightarrow> nat" where
  "fe_cols a b = (let x = (\<lambda>i. [unat (n0 a), unat (n1 a), unat (n2 a), unat (n3 a), unat (n4 a)] ! i);
      y = (\<lambda>i. [unat (n0 b), unat (n1 b), unat (n2 b), unat (n3 b), unat (n4 b)] ! i) in
    (\<lambda>k. [x 0 * y 0, x 0 * y 1 + x 1 * y 0, x 0 * y 2 + x 1 * y 1 + x 2 * y 0,
       x 0 * y 3 + x 1 * y 2 + x 2 * y 1 + x 3 * y 0, x 0 * y 4 + x 1 * y 3 + x 2 * y 2 + x 3 * y 1 + x 4 * y 0,
       x 1 * y 4 + x 2 * y 3 + x 3 * y 2 + x 4 * y 1, x 2 * y 4 + x 3 * y 3 + x 4 * y 2, x 3 * y 4 + x 4 * y 3,
       x 4 * y 4] ! k))"

lemma fe_cols_val:
  "fe_cols a b 0 + fe_cols a b 1 * B52 + fe_cols a b 2 * B52 ^ 2 + fe_cols a b 3 * B52 ^ 3 + fe_cols a b 4 * B52 ^ 4 +
   fe_cols a b 5 * B52 ^ 5 + fe_cols a b 6 * B52 ^ 6 + fe_cols a b 7 * B52 ^ 7 + fe_cols a b 8 * B52 ^ 8 = fval a * fval b"
  by (simp add: fe_cols_def fval_def algebra_simps)

lemma fe_cols_ok: "fe_small a \<Longrightarrow> fe_small b \<Longrightarrow> cols_ok (fe_cols a b)"
proof -
  assume "fe_small a" "fe_small b"
  then have lt: "unat (n0 a) < 2 ^ 56" "unat (n1 a) < 2 ^ 56" "unat (n2 a) < 2 ^ 56" "unat (n3 a) < 2 ^ 56" "unat (n4 a) < 2 ^ 52"
    "unat (n0 b) < 2 ^ 56" "unat (n1 b) < 2 ^ 56" "unat (n2 b) < 2 ^ 56" "unat (n3 b) < 2 ^ 56" "unat (n4 b) < 2 ^ 52"
    by (auto simp: fe_small_def)
  have m: "x * y < 2 ^ (i + j)" if "x < 2 ^ i" "y < 2 ^ j" for x y i j :: nat
    using mult_strict_mono [OF that] by (simp add: power_add)
  note m56 = m [of _ 56 _ 56] m [of _ 56 _ 52] m [of _ 52 _ 56] m [of _ 52 _ 52]
  show ?thesis
    unfolding cols_ok_def fe_cols_def Let_def
    using m56(1) [OF lt(1) lt(6)] m56(1) [OF lt(1) lt(7)] m56(1) [OF lt(2) lt(6)] m56(1) [OF lt(1) lt(8)]
      m56(1) [OF lt(2) lt(7)] m56(1) [OF lt(3) lt(6)] m56(1) [OF lt(1) lt(9)] m56(1) [OF lt(2) lt(8)]
      m56(1) [OF lt(3) lt(7)] m56(1) [OF lt(4) lt(6)] m56(2) [OF lt(1) lt(10)] m56(1) [OF lt(2) lt(9)]
      m56(1) [OF lt(3) lt(8)] m56(1) [OF lt(4) lt(7)] m56(3) [OF lt(5) lt(6)] m56(2) [OF lt(2) lt(10)]
      m56(1) [OF lt(3) lt(9)] m56(1) [OF lt(4) lt(8)] m56(3) [OF lt(5) lt(7)] m56(2) [OF lt(3) lt(10)]
      m56(1) [OF lt(4) lt(9)] m56(3) [OF lt(5) lt(8)] m56(2) [OF lt(4) lt(10)] m56(3) [OF lt(5) lt(9)]
      m56(4) [OF lt(5) lt(10)]
    by simp
qed

lemma fold_run_exists: obtains D2 D5 D7 U C4 D9 C7 D11 C10 C12 C14 where
  "fold_run P D2 D5 D7 U C4 D9 C7 D11 C10 C12 C14"
  unfolding fold_run_def by blast


lemma mul_inner_run:
  assumes "fe_small a" "fe_small b" and r: "fold_run (fe_cols a b) D2 D5 D7 U C4 D9 C7 D11 C10 C12 C14"
  shows "secp256k1_fe_mul_inner a b = \<lparr>n0 = ucast (W (C4 mod B52)), n1 = ucast (W (C7 mod B52)),
    n2 = ucast (W (C10 mod B52)), n3 = ucast (W (C12 mod B52)), n4 = ucast (W C14)\<rparr>"
proof -
  note bounds = fold_run_bounds [OF r fe_cols_ok [OF assms(1,2)]]
  have lt: "D2 < 2 ^ 128" "D5 < 2 ^ 128" "D7 < 2 ^ 128" "C4 < 2 ^ 128" "D9 < 2 ^ 128" "C7 < 2 ^ 128" "D11 < 2 ^ 128"
    "C10 < 2 ^ 128" "C12 < 2 ^ 128" "fe_cols a b 8 < 2 ^ 128"
    using bounds fe_cols_ok [OF assms(1,2)] by (simp_all add: cols_ok_def)
  have run: "D2 = fe_cols a b 3 + fe_cols a b 8 mod B52 * FR" "D5 = D2 div B52 + fe_cols a b 4 + fe_cols a b 8 div B52 * FR"
    "D7 = D5 div B52 + fe_cols a b 5"
    "U = 16 * (D7 mod B52) + D5 mod B52 div 2 ^ 48" "C4 = fe_cols a b 0 + U * FS" "D9 = D7 div B52 + fe_cols a b 6"
    "C7 = C4 div B52 + fe_cols a b 1 + D9 mod B52 * FR" "D11 = D9 div B52 + fe_cols a b 7"
    "C10 = C7 div B52 + fe_cols a b 2 + D11 mod B52 * FR" "C12 = C10 div B52 + (D11 div B52 * FR + D2 mod B52)"
    "C14 = C12 div B52 + D5 mod B52 mod 2 ^ 48"
    using r unfolding fold_run_def by blast+
  let ?a = "\<lambda>i. [unat (n0 a), unat (n1 a), unat (n2 a), unat (n3 a), unat (n4 a)] ! i"
  have cols: "unat (n0 a) * unat (n3 b) + unat (n1 a) * unat (n2 b) + unat (n2 a) * unat (n1 b) + unat (n3 a) * unat (n0 b) = fe_cols a b 3"
    "unat (n4 a) * unat (n4 b) = fe_cols a b 8"
    "unat (n0 a) * unat (n4 b) + unat (n1 a) * unat (n3 b) + unat (n2 a) * unat (n2 b) + unat (n3 a) * unat (n1 b) + unat (n4 a) * unat (n0 b) = fe_cols a b 4"
    "unat (n0 a) * unat (n0 b) = fe_cols a b 0"
    "unat (n1 a) * unat (n4 b) + unat (n2 a) * unat (n3 b) + unat (n3 a) * unat (n2 b) + unat (n4 a) * unat (n1 b) = fe_cols a b 5"
    "unat (n0 a) * unat (n1 b) + unat (n1 a) * unat (n0 b) = fe_cols a b 1"
    "unat (n2 a) * unat (n4 b) + unat (n3 a) * unat (n3 b) + unat (n4 a) * unat (n2 b) = fe_cols a b 6"
    "unat (n0 a) * unat (n2 b) + unat (n1 a) * unat (n1 b) + unat (n2 a) * unat (n0 b) = fe_cols a b 2"
    "unat (n3 a) * unat (n4 b) + unat (n4 a) * unat (n3 b) = fe_cols a b 7"
    by (simp_all add: fe_cols_def)
  have R: "FE_R = W FR" "drop_bit 4 (W FR) = W FS" by simp_all
  have small: "x mod B52 < 2 ^ 64" "x mod B52 < 2 ^ 52" for x :: nat
    using mod_less_divisor [of B52 x] by simp_all
  show ?thesis
    unfolding secp256k1_fe_mul_inner_def mul128_W of_nat_add [symmetric]
    by (simp only: cols Let_def R(2) of_nat_add [symmetric] of_nat_mult [symmetric] W_and W_shift lt simp_thms
        run [symmetric] R(1) W_mid [OF small(2) small(2)] W_top [OF small(1)] W_limb [OF small(1)] cong: let_weak_cong)
qed

text \<open>Signed 64-bit values below \<open>2 ^ 63\<close> behave like unsigned ones.\<close>

lemma sint_small: "unat (x :: u64) < 2 ^ 63 \<Longrightarrow> sint x = uint x"
proof -
  assume x: "unat x < 2 ^ 63"
  then have "uint x < 2 ^ 63" by (metis of_nat_less_iff of_nat_numeral of_nat_power uint_nat)
  moreover have "- (2 ^ 63) \<le> uint x" by (rule order_trans [OF _ uint_ge_0]) simp
  ultimately have "signed_take_bit 63 (uint x) = uint x" by (intro signed_take_bit_int_eq_self) simp_all
  then show ?thesis by (simp add: sint_uint)
qed

lemma scast_small: "unat (x :: u64) < 2 ^ 63 \<Longrightarrow> (scast x :: u128) = ucast x"
proof -
  assume "unat x < 2 ^ 63"
  then have "word_of_int (sint x) = (word_of_int (uint x) :: u128)" by (simp only: sint_small)
  then show ?thesis by simp
qed

lemma signed_shift_small: "unat (x :: u64) < 2 ^ 63 \<Longrightarrow> signed_drop_bit k x = drop_bit k x"
proof -
  assume x: "unat x < 2 ^ 63"
  have 1: "sint (signed_drop_bit k x) = drop_bit k (uint x)" by (simp add: sint_signed_drop_bit_eq sint_small [OF x])
  have "unat (drop_bit k x) < 2 ^ 63"
    using x by (simp only: unat_drop_bit_div) (meson div_le_dividend order.strict_trans1)
  moreover have "take_bit 64 (uint x) = uint x" using uint_bounded [of x] by (simp add: take_bit_int_eq_self)
  ultimately have "sint (drop_bit k x) = drop_bit k (uint x)" by (simp add: sint_small unsigned_drop_bit_eq)
  then have "(word_of_int (sint (signed_drop_bit k x)) :: u64) = word_of_int (sint (drop_bit k x))" using 1 by simp
  then show ?thesis by (simp only: of_int_sint scast_id)
qed

lemma sqr_inner_run:
  assumes "fe_small a" and r: "fold_run (fe_cols a a) D2 D5 D7 U C4 D9 C7 D11 C10 C12 C14"
  shows "secp256k1_fe_sqr_inner a = \<lparr>n0 = ucast (W (C4 mod B52)), n1 = ucast (W (C7 mod B52)),
    n2 = ucast (W (C10 mod B52)), n3 = ucast (W (C12 mod B52)), n4 = ucast (W C14)\<rparr>"
proof -
  note bounds = fold_run_bounds [OF r fe_cols_ok [OF assms(1,1)]]
  have lt: "D2 < 2 ^ 128" "D5 < 2 ^ 128" "D7 < 2 ^ 128" "C4 < 2 ^ 128" "D9 < 2 ^ 128" "C7 < 2 ^ 128" "D11 < 2 ^ 128"
    "C10 < 2 ^ 128" "C12 < 2 ^ 128" "fe_cols a a 8 < 2 ^ 128"
    using bounds fe_cols_ok [OF assms(1,1)] by (simp_all add: cols_ok_def)
  have run: "D2 = fe_cols a a 3 + fe_cols a a 8 mod B52 * FR" "D5 = D2 div B52 + fe_cols a a 4 + fe_cols a a 8 div B52 * FR"
    "D7 = D5 div B52 + fe_cols a a 5"
    "U = 16 * (D7 mod B52) + D5 mod B52 div 2 ^ 48" "C4 = fe_cols a a 0 + U * FS" "D9 = D7 div B52 + fe_cols a a 6"
    "C7 = C4 div B52 + fe_cols a a 1 + D9 mod B52 * FR" "D11 = D9 div B52 + fe_cols a a 7"
    "C10 = C7 div B52 + fe_cols a a 2 + D11 mod B52 * FR" "C12 = C10 div B52 + (D11 div B52 * FR + D2 mod B52)"
    "C14 = C12 div B52 + D5 mod B52 mod 2 ^ 48"
    using r unfolding fold_run_def by blast+
  have dbl: "unat (n0 a * 2) = unat (n0 a) * 2" "unat (n1 a * 2) = unat (n1 a) * 2" "unat (n2 a * 2) = unat (n2 a) * 2"
    "unat (n4 a * 2) = unat (n4 a) * 2"
    using assms(1) by (auto simp: fe_small_def unat_word_ariths)
  have cols: "unat (n0 a) * 2 * unat (n3 a) + unat (n1 a) * 2 * unat (n2 a) = fe_cols a a 3"
    "unat (n4 a) * unat (n4 a) = fe_cols a a 8"
    "unat (n0 a) * (unat (n4 a) * 2) + unat (n1 a) * 2 * unat (n3 a) + unat (n2 a) * unat (n2 a) = fe_cols a a 4"
    "unat (n0 a) * unat (n0 a) = fe_cols a a 0"
    "unat (n1 a) * (unat (n4 a) * 2) + unat (n2 a) * 2 * unat (n3 a) = fe_cols a a 5"
    "unat (n0 a) * 2 * unat (n1 a) = fe_cols a a 1"
    "unat (n2 a) * (unat (n4 a) * 2) + unat (n3 a) * unat (n3 a) = fe_cols a a 6"
    "unat (n0 a) * 2 * unat (n2 a) + unat (n1 a) * unat (n1 a) = fe_cols a a 2"
    "unat (n3 a) * (unat (n4 a) * 2) = fe_cols a a 7"
    by (simp_all add: fe_cols_def)
  have R: "FE_R = W FR" "drop_bit 4 (W FR) = W FS" by simp_all
  have small: "x mod B52 < 2 ^ 64" "x mod B52 < 2 ^ 52" for x :: nat
    using mod_less_divisor [of B52 x] by simp_all
  have limb: "unat (ucast (W (x mod B52)) :: u64) < 2 ^ 63" for x
    using small(2) [of x] W_low [OF small(1), of x] by simp
  have top: "unat ((ucast (W (x mod B52)) :: u64) AND drop_bit 4 M52) < 2 ^ 63" for x
    using limb [of x] word_and_le2 [of "ucast (W (x mod B52)) :: u64" "drop_bit 4 M52"]
    by (meson order.strict_trans1 word_le_nat_alt)
  have mid: "(scast (push_bit 4 (ucast (W (x mod B52)) :: u64) OR drop_bit 48 (ucast (W (y mod B52)) :: u64)) :: u128) =
      W (16 * (x mod B52) + y mod B52 div 2 ^ 48)" for x y
  proof -
    let ?w = "push_bit 4 (ucast (W (x mod B52)) :: u64) OR drop_bit 48 (ucast (W (y mod B52)) :: u64)"
    have w: "(ucast ?w :: u128) = W (16 * (x mod B52) + y mod B52 div 2 ^ 48)" by (rule W_mid [OF small(2) small(2)])
    have "y mod B52 div 2 ^ 48 < 2 ^ 4" using small(2) [of y] by (intro less_mult_imp_div_less) simp
    then have n: "16 * (x mod B52) + y mod B52 div 2 ^ 48 < 2 ^ 63" using small(2) [of x] by simp
    have W: "n < 2 ^ 63 \<Longrightarrow> unat (W n) < 2 ^ 63" for n by (simp add: unat_of_nat)
    have "unat (ucast ?w :: u128) < 2 ^ 63" unfolding w by (rule W [OF n])
    moreover have "unat (ucast v :: u128) = unat v" for v :: u64
      using unsigned_less [of v, where 'a = nat] by (simp add: unsigned_ucast_eq take_bit_nat_eq_self)
    ultimately have "unat ?w < 2 ^ 63" by (simp only:)
    then show ?thesis using w by (simp only: scast_small)
  qed
  show ?thesis
    unfolding secp256k1_fe_sqr_inner_def
    by (simp only: mul128_W dbl cols Let_def R(2) of_nat_add [symmetric] of_nat_mult [symmetric] W_and W_shift lt simp_thms
        run [symmetric] R(1) mid scast_small [OF top] scast_small [OF limb] signed_shift_small [OF limb]
        W_top [OF small(1)] W_limb [OF small(1)] cong: let_weak_cong)
qed

section \<open>Multiplication and squaring\<close>

lemma limbs_val:
  fixes C4 C7 C10 C12 C14 :: nat
  assumes "C14 < 2 ^ 48 + 2 ^ 46"
  defines "r \<equiv> \<lparr>n0 = ucast (W (C4 mod B52)), n1 = ucast (W (C7 mod B52)), n2 = ucast (W (C10 mod B52)),
    n3 = ucast (W (C12 mod B52)), n4 = ucast (W C14)\<rparr> :: fe"
  shows "fe_weak r \<and> fval r = C4 mod B52 + C7 mod B52 * B52 + C10 mod B52 * B52 ^ 2 + C12 mod B52 * B52 ^ 3 + C14 * B52 ^ 4"
proof -
  have u: "unat (ucast (W (x mod B52)) :: u64) = x mod B52" "x mod B52 < 2 ^ 52" for x :: nat
    using mod_less_divisor [of B52 x] by (auto intro: W_low)
  have "unat (ucast (W C14) :: u64) = C14" using assms(1) by (intro W_low) simp
  then show ?thesis using u assms(1) by (simp only: r_def fe_weak_def fval_def fe.simps) (simp add: mult.commute)
qed

lemma fe_mul_val:
  assumes "fe_small a" "fe_small b"
  shows "fe_weak (secp256k1_fe_mul a b) \<and> fval (secp256k1_fe_mul a b) mod secp256k1_p = fval a * fval b mod secp256k1_p"
proof -
  obtain D2 D5 D7 U C4 D9 C7 D11 C10 C12 C14 where r: "fold_run (fe_cols a b) D2 D5 D7 U C4 D9 C7 D11 C10 C12 C14"
    by (rule fold_run_exists)
  have "C14 < 2 ^ 48 + 2 ^ 46" using fold_run_bounds [OF r fe_cols_ok [OF assms]] by blast
  from limbs_val [OF this, of C4 C7 C10 C12] show ?thesis
    unfolding secp256k1_fe_mul_def mul_inner_run [OF assms r] fe_cols_val [symmetric] fold_run_val [OF r] by simp
qed

lemma fe_sqr_val:
  assumes "fe_small a"
  shows "fe_weak (secp256k1_fe_sqr a) \<and> fval (secp256k1_fe_sqr a) mod secp256k1_p = fval a * fval a mod secp256k1_p"
proof -
  obtain D2 D5 D7 U C4 D9 C7 D11 C10 C12 C14 where r: "fold_run (fe_cols a a) D2 D5 D7 U C4 D9 C7 D11 C10 C12 C14"
    by (rule fold_run_exists)
  have "C14 < 2 ^ 48 + 2 ^ 46" using fold_run_bounds [OF r fe_cols_ok [OF assms assms]] by blast
  from limbs_val [OF this, of C4 C7 C10 C12] show ?thesis
    unfolding secp256k1_fe_sqr_def sqr_inner_run [OF assms r] fe_cols_val [symmetric] fold_run_val [OF r] by simp
qed

lemma fe_weak_small: "fe_weak a \<Longrightarrow> fe_small a"
  by (auto simp: fe_weak_def fe_small_def)

text \<open>C24: field multiplication: for arguments within the documented magnitude (limbs of 56 bits,
  the top one of 52) the five limbs computed are a representation of the product modulo the
  field prime, with magnitude one again; no 64-bit or 128-bit operation of the routine wraps.\<close>

theorem fe_mul_correct:
  assumes "fe_small a" "fe_small b"
  shows "fval (secp256k1_fe_mul a b) mod secp256k1_p = fval a * fval b mod secp256k1_p \<and>
    fe_weak (secp256k1_fe_mul a b)"
  using fe_mul_val [OF assms] by simp

theorem fe_mul_correct_witness:
  "fval (secp256k1_fe_mul \<lparr>n0 = 3, n1 = 0, n2 = 0, n3 = 0, n4 = 1\<rparr> \<lparr>n0 = 5, n1 = 0, n2 = 7, n3 = 0, n4 = 0\<rparr>) mod secp256k1_p =
   fval \<lparr>n0 = 3, n1 = 0, n2 = 0, n3 = 0, n4 = 1\<rparr> * fval \<lparr>n0 = 5, n1 = 0, n2 = 7, n3 = 0, n4 = 0\<rparr> mod secp256k1_p"
  by (rule conjunct1 [OF fe_mul_correct]) (simp_all add: fe_small_def)

text \<open>the dedicated squaring, with its doubled limbs and signed temporaries, gives the same limbs
  as the multiplication of an element by itself.\<close>

theorem fe_sqr_is_mul:
  assumes "fe_small a"
  shows "secp256k1_fe_sqr a = secp256k1_fe_mul a a"
proof -
  obtain D2 D5 D7 U C4 D9 C7 D11 C10 C12 C14 where r: "fold_run (fe_cols a a) D2 D5 D7 U C4 D9 C7 D11 C10 C12 C14"
    by (rule fold_run_exists)
  then show ?thesis
    by (simp only: secp256k1_fe_sqr_def secp256k1_fe_mul_def sqr_inner_run [OF assms r] mul_inner_run [OF assms assms r])
qed

theorem fe_sqr_is_mul_witness:
  "secp256k1_fe_sqr \<lparr>n0 = 3, n1 = 9, n2 = 0, n3 = 0, n4 = 1\<rparr> =
   secp256k1_fe_mul \<lparr>n0 = 3, n1 = 9, n2 = 0, n3 = 0, n4 = 1\<rparr> \<lparr>n0 = 3, n1 = 9, n2 = 0, n3 = 0, n4 = 1\<rparr>"
  by (rule fe_sqr_is_mul) (simp add: fe_small_def)

interpretation fe_power: power_chain secp256k1_fe_mul secp256k1_fe_sqr fval fe_small secp256k1_p
  by unfold_locales (use fe_mul_val fe_sqr_val fe_weak_small in blast)+

end
