(* ===== verification/Field_Normalize.thy ===== *)
theory Field_Normalize
  imports Field_5x52_Correct
begin

text \<open>
  Normalization of field elements, the magnitudes that additions and negations build up, and
  the byte and storage formats of normalized elements.
\<close>

text \<open>Limbs below \<open>2 ^ 63\<close>: every magnitude up to 511.\<close>

definition fe_loose :: "fe \<Rightarrow> bool" where
  "fe_loose a = (unat (n0 a) < 2 ^ 63 \<and> unat (n1 a) < 2 ^ 63 \<and> unat (n2 a) < 2 ^ 63 \<and> unat (n3 a) < 2 ^ 63 \<and>
     unat (n4 a) < 2 ^ 63)"

definition fe_norm :: "fe \<Rightarrow> bool" where
  "fe_norm a = (unat (n0 a) < 2 ^ 52 \<and> unat (n1 a) < 2 ^ 52 \<and> unat (n2 a) < 2 ^ 52 \<and> unat (n3 a) < 2 ^ 52 \<and>
     unat (n4 a) < 2 ^ 48 \<and> fval a < secp256k1_p)"

lemma unat_and_M52: "unat ((x :: u64) AND M52) = unat x mod B52"
proof -
  have "unat (x AND M52) = unat x mod 2 ^ 52" unfolding M52_mask by (rule unat_and_mask_eq)
  then show ?thesis by simp
qed

lemma unat_and_M48: "unat ((x :: u64) AND M48) = unat x mod 2 ^ 48"
proof -
  have "(M48 :: u64) = mask 48" by (simp add: mask_eq_exp_minus_1)
  then show ?thesis by (simp only: unat_and_mask_eq)
qed

lemma unat_shift52: "unat (drop_bit 52 (x :: u64)) = unat x div B52"
  using unat_drop_bit_div [of 52 x] by simp

section \<open>One pass\<close>

lemma fe_carry_step:
  fixes t u :: u64
  assumes "unat t < 2 ^ 63"
  shows "unat (t + drop_bit 52 u) = unat t + unat u div B52 \<and> unat u div B52 < 2 ^ 12"
proof -
  have "unat u < 2 ^ 64" using unsigned_less [of u, where 'a = nat] by simp
  then have "unat u div B52 < 2 ^ 12" by (intro less_mult_imp_div_less) simp
  moreover from this have "unat (t + drop_bit 52 u) = unat t + unat (drop_bit 52 u)"
    using assms by (intro unat_add_no_overflow) (simp add: unat_shift52)
  ultimately show ?thesis by (simp add: unat_shift52)
qed

lemma carry5:
  fixes B :: nat
  assumes "t1 = y1 + t0 div B" "t2 = y2 + t1 div B" "t3 = y3 + t2 div B" "t4 = y4 + t3 div B"
  shows "t0 + B * y1 + B ^ 2 * y2 + B ^ 3 * y3 + B ^ 4 * y4 =
    t0 mod B + B * (t1 mod B) + B ^ 2 * (t2 mod B) + B ^ 3 * (t3 mod B) + B ^ 4 * t4"
proof -
  define q0 m0 q1 m1 q2 m2 q3 m3 where qm: "q0 = t0 div B" "m0 = t0 mod B" "q1 = t1 div B" "m1 = t1 mod B"
    "q2 = t2 div B" "m2 = t2 mod B" "q3 = t3 div B" "m3 = t3 mod B"
  have e: "t = t mod B + B * (t div B)" for t by simp
  have "t0 = m0 + B * q0" "y1 + q0 = m1 + B * q1" "y2 + q1 = m2 + B * q2" "y3 + q2 = m3 + B * q3" "t4 = y4 + q3"
    using e [of t0] e [of t1] e [of t2] e [of t3] assms unfolding qm by auto
  then have "t0 + B * y1 + B ^ 2 * y2 + B ^ 3 * y3 + B ^ 4 * y4 = m0 + B * m1 + B ^ 2 * m2 + B ^ 3 * m3 + B ^ 4 * t4"
    by algebra
  then show ?thesis unfolding qm .
qed

lemma fe_pass_val:
  assumes "fe_loose r" "unat x < 2 ^ 16"
  shows "fval (fe_pass x r) = fval r + unat x * FS \<and> unat (n0 (fe_pass x r)) < 2 ^ 52 \<and>
    unat (n1 (fe_pass x r)) < 2 ^ 52 \<and> unat (n2 (fe_pass x r)) < 2 ^ 52 \<and> unat (n3 (fe_pass x r)) < 2 ^ 52 \<and>
    unat (n4 (fe_pass x r)) < unat (n4 r) + 2 ^ 12"
proof -
  have lt: "unat (n0 r) < 2 ^ 63" "unat (n1 r) < 2 ^ 63" "unat (n2 r) < 2 ^ 63" "unat (n3 r) < 2 ^ 63" "unat (n4 r) < 2 ^ 63"
    using assms(1) by (auto simp: fe_loose_def)
  define t0 where "t0 = n0 r + x * 0x1000003D1"
  define t1 where "t1 = n1 r + drop_bit 52 t0"
  define t2 where "t2 = n2 r + drop_bit 52 t1"
  define t3 where "t3 = n3 r + drop_bit 52 t2"
  define t4 where "t4 = n4 r + drop_bit 52 t3"
  have "unat (x * 0x1000003D1) = unat x * FS"
    using assms(2) by (simp add: unat_word_ariths)
  then have u0: "unat t0 = unat (n0 r) + unat x * FS"
    unfolding t0_def using lt(1) assms(2) by (subst unat_add_no_overflow) simp_all
  have u1: "unat t1 = unat (n1 r) + unat t0 div B52" unfolding t1_def using fe_carry_step [OF lt(2)] by blast
  have u2: "unat t2 = unat (n2 r) + unat t1 div B52" unfolding t2_def using fe_carry_step [OF lt(3)] by blast
  have u3: "unat t3 = unat (n3 r) + unat t2 div B52" unfolding t3_def using fe_carry_step [OF lt(4)] by blast
  have u4: "unat t4 = unat (n4 r) + unat t3 div B52" "unat t3 div B52 < 2 ^ 12"
    unfolding t4_def using fe_carry_step [OF lt(5)] by blast+
  have pass: "fe_pass x r = \<lparr>n0 = t0 AND M52, n1 = t1 AND M52, n2 = t2 AND M52, n3 = t3 AND M52, n4 = t4\<rparr>"
    by (simp add: fe_pass_def Let_def t0_def t1_def t2_def t3_def t4_def)
  have "fval r + unat x * FS = unat t0 + B52 * unat (n1 r) + B52 ^ 2 * unat (n2 r) + B52 ^ 3 * unat (n3 r) + B52 ^ 4 * unat (n4 r)"
    by (simp add: fval_def u0)
  also have "\<dots> = unat t0 mod B52 + B52 * (unat t1 mod B52) + B52 ^ 2 * (unat t2 mod B52) + B52 ^ 3 * (unat t3 mod B52) + B52 ^ 4 * unat t4"
    by (rule carry5 [OF u1 u2 u3 u4(1)])
  finally have "fval (fe_pass x r) = fval r + unat x * FS"
    by (simp add: fval_def pass unat_and_M52)
  moreover have "t mod B52 < 2 ^ 52" for t using mod_less_divisor [of B52 t] by simp
  ultimately show ?thesis using u4 by (simp add: pass unat_and_M52)
qed

section \<open>The first pass and the weak normalization\<close>

lemma fe_fold_top:
  assumes "fe_loose r"
  defines "x \<equiv> drop_bit 48 (n4 r)" and "r' \<equiv> r\<lparr>n4 := n4 r AND M48\<rparr>"
  shows "fval r = fval r' + unat x * 2 ^ 256" "unat x < 2 ^ 16" "fe_loose r'" "unat (n4 r') < 2 ^ 48"
proof -
  have x: "unat x = unat (n4 r) div 2 ^ 48" by (simp only: x_def unat_drop_bit_div)
  have n4: "unat (n4 r') = unat (n4 r) mod 2 ^ 48" by (simp add: r'_def unat_and_M48)
  have "unat (n4 r) = unat (n4 r') + unat x * 2 ^ 48" using mod_mult_div_eq [of "unat (n4 r)" "2 ^ 48"] by (simp add: x n4)
  then show "fval r = fval r' + unat x * 2 ^ 256" by (simp add: fval_def r'_def)
  show lt: "unat (n4 r') < 2 ^ 48" unfolding n4 by simp
  show "unat x < 2 ^ 16"
    using unsigned_less [of "n4 r", where 'a = nat] unfolding x by (intro less_mult_imp_div_less) simp
  show "fe_loose r'" using assms(1) lt by (simp add: fe_loose_def r'_def)
qed

lemma p_eq: "secp256k1_p + FS = 2 ^ 256"
  by (simp add: secp256k1_p_def)

lemma normalize_weak_val:
  assumes "fe_loose r"
  defines "t \<equiv> secp256k1_fe_normalize_weak r"
  shows "fe_weak t" "fval r = fval t + unat (drop_bit 48 (n4 r)) * secp256k1_p" "unat (n4 t) < 2 ^ 48 + 2 ^ 12"
proof -
  let ?r = "r\<lparr>n4 := n4 r AND M48\<rparr>" and ?x = "drop_bit 48 (n4 r)"
  note top = fe_fold_top [OF assms(1)]
  have t: "t = fe_pass ?x ?r" by (simp add: t_def secp256k1_fe_normalize_weak_def Let_def)
  note pass = fe_pass_val [OF top(3,2), folded t]
  show "fval r = fval t + unat ?x * secp256k1_p" using pass top(1) p_eq by (simp add: algebra_simps secp256k1_p_def)
  show n4: "unat (n4 t) < 2 ^ 48 + 2 ^ 12" using pass top(4) by linarith
  then have "unat (n4 t) < 2 ^ 48 + 2 ^ 46" by simp
  then show "fe_weak t" using pass by (simp add: fe_weak_def)
qed

section \<open>Full normalization\<close>

lemma and_full: "((x :: u64) AND y = M52) = (x = M52 \<and> y = M52)" if "unat x < 2 ^ 52" "unat y < 2 ^ 52" for x y
proof
  assume a: "x AND y = M52"
  have "M52 \<le> x" "M52 \<le> y" using a word_and_le2 [of x y] word_and_le1 [of x y] by auto
  then show "x = M52 \<and> y = M52" using that by (auto simp: word_le_nat_alt word_unat_eq_iff)
qed simp

text \<open>The comparison of a weakly normalized value with the prime.\<close>

definition fe_ge_p :: "fe \<Rightarrow> bool" where
  "fe_ge_p t = (n4 t = M48 \<and> (n1 t AND n2 t AND n3 t) = M52 \<and> n0 t \<ge> 0xFFFFEFFFFFC2F)"

lemma fe_ge_p_val:
  assumes "fe_weak t" "unat (n4 t) < 2 ^ 48"
  shows "fe_ge_p t = (secp256k1_p \<le> fval t)"
proof -
  have lt: "unat (n0 t) < 2 ^ 52" "unat (n1 t) < 2 ^ 52" "unat (n2 t) < 2 ^ 52" "unat (n3 t) < 2 ^ 52"
    using assms(1) by (auto simp: fe_weak_def)
  have "unat (n2 t AND n3 t) < 2 ^ 52"
    using lt(3) word_and_le2 [of "n2 t" "n3 t"] by (meson order.strict_trans1 word_le_nat_alt)
  then have "fe_ge_p t = (unat (n4 t) = 2 ^ 48 - 1 \<and> unat (n1 t) = 2 ^ 52 - 1 \<and> unat (n2 t) = 2 ^ 52 - 1 \<and>
      unat (n3 t) = 2 ^ 52 - 1 \<and> 0xFFFFEFFFFFC2F \<le> unat (n0 t))"
    unfolding fe_ge_p_def and_full [OF lt(2) \<open>unat (n2 t AND n3 t) < 2 ^ 52\<close>] and_full [OF lt(3,4)]
    by (simp add: word_unat_eq_iff word_le_nat_alt)
  also have "\<dots> = (secp256k1_p \<le> fval t)"
    using lt assms(2) by (auto simp: fval_def secp256k1_p_def)
  finally show ?thesis .
qed

lemma final_x:
  assumes "fe_weak t" "unat (n4 t) < 2 ^ 48 + 2 ^ 12"
  shows "drop_bit 48 (n4 t) OR of_bool (fe_ge_p t) = of_bool (secp256k1_p \<le> fval t)"
proof (cases "unat (n4 t) < 2 ^ 48")
  case True
  then have "unat (drop_bit 48 (n4 t)) = 0" by (simp only: unat_drop_bit_div div_less)
  then have "drop_bit 48 (n4 t) = 0" by (simp only: unsigned_eq_0_iff)
  then show ?thesis using fe_ge_p_val [OF assms(1) True] by simp
next
  case False
  then have "unat (n4 t) div 2 ^ 48 = 1" using assms(2) by (intro div_nat_eqI) simp_all
  then have "unat (drop_bit 48 (n4 t)) = unat (1 :: u64)" by (simp only: unat_drop_bit_div) simp
  then have 1: "drop_bit 48 (n4 t) = 1" by (simp only: word_unat_eq_iff)
  have "n4 t \<noteq> M48" using False by auto
  then have "\<not> fe_ge_p t" by (simp add: fe_ge_p_def)
  moreover have "secp256k1_p \<le> fval t" using False by (simp add: fval_def secp256k1_p_def)
  ultimately show ?thesis by (simp only: 1) simp
qed

lemma fe_eqI: "n0 a = n0 b \<Longrightarrow> n1 a = n1 b \<Longrightarrow> n2 a = n2 b \<Longrightarrow> n3 a = n3 b \<Longrightarrow> n4 a = n4 b \<Longrightarrow> a = (b :: fe)"
  by (cases a; cases b) simp

text \<open>The last step: fold once more when the value has reached the prime, and drop bit 256.\<close>

lemma final_pass:
  assumes "fe_weak t" "unat (n4 t) < 2 ^ 48 + 2 ^ 12"
  defines "x \<equiv> of_bool (secp256k1_p \<le> fval t) :: u64"
  defines "u \<equiv> fe_pass x t"
  defines "v \<equiv> u\<lparr>n4 := n4 u AND M48\<rparr>"
  shows "fe_norm v \<and> fval v = (if secp256k1_p \<le> fval t then fval t - secp256k1_p else fval t)"
proof -
  have x: "unat x = of_bool (secp256k1_p \<le> fval t)" by (simp add: x_def)
  have lt: "unat (n0 t) < 2 ^ 52" "unat (n1 t) < 2 ^ 52" "unat (n2 t) < 2 ^ 52" "unat (n3 t) < 2 ^ 52"
    using assms(1) by (auto simp: fe_weak_def)
  then have bound: "fval t < 2 ^ 256 + 2 ^ 221" using assms(2) by (simp add: fval_def)
  have "fe_loose t" using assms(1) by (simp add: fe_weak_def fe_loose_def)
  note pass = fe_pass_val [OF this, of x, folded u_def]
  have u: "fval u = fval t + unat x * FS" "unat (n0 u) < 2 ^ 52" "unat (n1 u) < 2 ^ 52" "unat (n2 u) < 2 ^ 52"
    "unat (n3 u) < 2 ^ 52" using pass x by (simp_all split: if_splits)
  have "unat (n4 v) = unat (n4 u) mod 2 ^ 48" by (simp add: v_def unat_and_M48)
  then have n4: "unat (n4 u) = unat (n4 v) + 2 ^ 48 * (unat (n4 u) div 2 ^ 48)" "unat (n4 v) < 2 ^ 48"
    using mod_mult_div_eq [of "unat (n4 u)" "2 ^ 48"] by simp_all
  have v: "fval u = fval v + 2 ^ 256 * (unat (n4 u) div 2 ^ 48)"
    using n4(1) by (simp add: fval_def v_def)
  have vlt: "fval v < 2 ^ 256" using u(2-5) n4(2) by (simp add: fval_def v_def)
  then have "fval v = fval u mod 2 ^ 256" by (simp add: v)
  also have "\<dots> = (if secp256k1_p \<le> fval t then fval t - secp256k1_p else fval t)"
  proof (cases "secp256k1_p \<le> fval t")
    case True
    then have "fval u = (fval t - secp256k1_p) + 2 ^ 256" using u(1) x p_eq by simp
    moreover have "fval t - secp256k1_p < 2 ^ 256" using bound by (simp add: secp256k1_p_def)
    ultimately show ?thesis using True by (simp only: mod_add_self2 mod_less if_True)
  next
    case False
    then show ?thesis using u(1) x by (simp add: secp256k1_p_def)
  qed
  finally have val: "fval v = (if secp256k1_p \<le> fval t then fval t - secp256k1_p else fval t)" .
  moreover have "fval v < secp256k1_p" using bound by (simp add: val secp256k1_p_def) linarith
  ultimately show ?thesis using u(2-5) n4(2) by (simp add: fe_norm_def v_def)
qed

lemma normalize_steps:
  "secp256k1_fe_normalize r =
     (let t = secp256k1_fe_normalize_weak r; u = fe_pass (drop_bit 48 (n4 t) OR of_bool (fe_ge_p t)) t
      in u\<lparr>n4 := n4 u AND M48\<rparr>)"
  by (simp add: secp256k1_fe_normalize_def secp256k1_fe_normalize_weak_def Let_def fe_ge_p_def)

lemma normalize_val:
  assumes "fe_loose r"
  shows "fe_norm (secp256k1_fe_normalize r) \<and> fval (secp256k1_fe_normalize r) = fval r mod secp256k1_p"
proof -
  let ?t = "secp256k1_fe_normalize_weak r"
  note w = normalize_weak_val [OF assms]
  have "secp256k1_fe_normalize r = (let u = fe_pass (of_bool (secp256k1_p \<le> fval ?t)) ?t in u\<lparr>n4 := n4 u AND M48\<rparr>)"
    by (simp only: normalize_steps Let_def final_x [OF w(1,3)])
  note final = final_pass [OF w(1,3), folded this [unfolded Let_def]]
  have "fval (secp256k1_fe_normalize r) mod secp256k1_p = fval r mod secp256k1_p"
    using final w(2) by (auto simp: le_mod_geq)
  then show ?thesis using final by (simp add: fe_norm_def)
qed

text \<open>\<open>secp256k1_fe_normalize\<close>: for every element with limbs below \<open>2 ^ 63\<close> (all magnitudes
  up to 511) the result is the canonical representation of the value modulo the field prime:
  52-bit limbs, a 48-bit top limb, and below the prime.\<close>

theorem fe_normalize_correct:
  assumes "fe_loose r"
  shows "fval (secp256k1_fe_normalize r) = fval r mod secp256k1_p \<and> fe_norm (secp256k1_fe_normalize r)"
  using normalize_val [OF assms] by simp

theorem fe_normalize_correct_witness:
  "fval (secp256k1_fe_normalize \<lparr>n0 = 0xFFFFEFFFFFC30, n1 = M52, n2 = M52, n3 = M52, n4 = M48\<rparr>) = 1"
  using fe_normalize_correct [of "\<lparr>n0 = 0xFFFFEFFFFFC30, n1 = M52, n2 = M52, n3 = M52, n4 = M48\<rparr>"]
  by (simp add: fe_loose_def fval_def secp256k1_p_def)

section \<open>The variable-time variants\<close>

lemma fe_pass_0:
  assumes "fe_weak t"
  shows "fe_pass 0 t = t"
proof -
  have s: "drop_bit 52 x = 0 \<and> x AND M52 = x" if "unat x < 2 ^ 52" for x :: u64
  proof -
    have "unat (drop_bit 52 x) = 0" "unat (x AND M52) = unat x" using that by (simp_all add: unat_shift52 unat_and_M52)
    then show ?thesis by (simp only: word_unat_eq_iff unsigned_0)
  qed
  have "unat (n0 t) < 2 ^ 52" "unat (n1 t) < 2 ^ 52" "unat (n2 t) < 2 ^ 52" "unat (n3 t) < 2 ^ 52"
    using assms by (auto simp: fe_weak_def)
  then show ?thesis by (intro fe_eqI) (simp_all add: fe_pass_def Let_def s)
qed

lemma M48_id: "unat (x :: u64) < 2 ^ 48 \<Longrightarrow> x AND M48 = x"
  by (simp only: word_unat_eq_iff unat_and_M48 mod_less)

text \<open>the variable-time normalization, which skips the second pass when it is not needed, computes
  the same limbs as the constant-time one.\<close>

theorem fe_normalize_var_equiv:
  assumes "fe_loose r"
  shows "secp256k1_fe_normalize_var r = secp256k1_fe_normalize r"
proof -
  let ?t = "secp256k1_fe_normalize_weak r"
  note w = normalize_weak_val [OF assms]
  have var: "secp256k1_fe_normalize_var r =
     (if drop_bit 48 (n4 ?t) OR of_bool (fe_ge_p ?t) \<noteq> 0
      then let u = fe_pass 1 ?t in u\<lparr>n4 := n4 u AND M48\<rparr> else ?t)"
    by (simp add: secp256k1_fe_normalize_var_def secp256k1_fe_normalize_weak_def Let_def fe_ge_p_def)
  have "?t\<lparr>n4 := n4 ?t AND M48\<rparr> = ?t" if "\<not> secp256k1_p \<le> fval ?t"
  proof -
    have "unat (n4 ?t) < 2 ^ 48" using that by (simp add: fval_def secp256k1_p_def)
    then show ?thesis by (intro fe_eqI) (simp_all add: M48_id)
  qed
  then show ?thesis
    unfolding var normalize_steps Let_def final_x [OF w(1,3)] using fe_pass_0 [OF w(1)] by auto
qed

theorem fe_normalize_var_equiv_witness:
  "secp256k1_fe_normalize_var \<lparr>n0 = 7, n1 = M52, n2 = 0, n3 = 0xFFFFFFFFFFFFFFF, n4 = 1\<rparr> =
   secp256k1_fe_normalize \<lparr>n0 = 7, n1 = M52, n2 = 0, n3 = 0xFFFFFFFFFFFFFFF, n4 = 1\<rparr>"
  by (rule fe_normalize_var_equiv) (simp add: fe_loose_def)

section \<open>Test for zero\<close>

lemma or_zero: "((x :: u64) OR y = 0) = (x = 0 \<and> y = 0)"
  by (auto simp: or_eq_0_iff)

lemma xor_eq: "((x :: u64) XOR k = c) = (x = c XOR k)"
proof
  assume "x XOR k = c"
  then have "(x XOR k) XOR k = c XOR k" by (simp only:)
  then show "x = c XOR k" by (simp only: xor.assoc xor_self_eq xor.right_neutral)
next
  assume "x = c XOR k"
  then show "x XOR k = c" by (simp only: xor.assoc xor_self_eq xor.right_neutral)
qed

lemma digits5:
  fixes B :: nat
  assumes "a0 + (a1 + (a2 + (a3 + a4 * B) * B) * B) * B = b0 + (b1 + (b2 + (b3 + b4 * B) * B) * B) * B"
    and "a0 < B" "a1 < B" "a2 < B" "a3 < B" "b0 < B" "b1 < B" "b2 < B" "b3 < B"
  shows "a0 = b0 \<and> a1 = b1 \<and> a2 = b2 \<and> a3 = b3 \<and> a4 = b4"
  using assms(1) by (simp only: digit_eq assms(2-9))

lemma raw_p_iff:
  assumes "fe_weak t"
  shows "((n0 t XOR 0x1000003D0) AND n1 t AND n2 t AND n3 t AND (n4 t XOR 0xF000000000000) = M52) = (fval t = secp256k1_p)"
proof -
  have lt: "unat (n0 t) < 2 ^ 52" "unat (n1 t) < 2 ^ 52" "unat (n2 t) < 2 ^ 52" "unat (n3 t) < 2 ^ 52" "unat (n4 t) < 2 ^ 49"
    using assms by (auto simp: fe_weak_def)
  have small: "unat (x XOR c) < 2 ^ 52" if "unat x < 2 ^ 52" "unat c < 2 ^ 52" for x c :: u64
  proof -
    have "unat (x XOR c) = take_bit 52 (unat x XOR unat c)"
      using that by (simp only: unsigned_xor_eq take_bit_xor take_bit_nat_eq_self)
    then show ?thesis using take_bit_nat_less_exp [of 52 "unat x XOR unat c"] by (simp only:)
  qed
  have and_lt: "unat (x AND y) < 2 ^ 52" if "unat x < 2 ^ 52" for x y :: u64
    using that word_and_le2 [of x y] by (meson order.strict_trans1 word_le_nat_alt)
  have x0: "unat (n0 t XOR 0x1000003D0) < 2 ^ 52" using lt(1) by (intro small) simp_all
  have x4: "unat (n4 t XOR 0xF000000000000) < 2 ^ 52" using lt(5) by (intro small) simp_all
  have "((n0 t XOR 0x1000003D0) AND n1 t AND n2 t AND n3 t AND (n4 t XOR 0xF000000000000) = M52) =
      (n0 t XOR 0x1000003D0 = M52 \<and> n1 t = M52 \<and> n2 t = M52 \<and> n3 t = M52 \<and> n4 t XOR 0xF000000000000 = M52)"
    by (simp only: and_full [OF x0 and_lt [OF lt(2)]] and_full [OF lt(2) and_lt [OF lt(3)]]
        and_full [OF lt(3) and_lt [OF lt(4)]] and_full [OF lt(4) x4])
  also have "\<dots> = (n0 t = 0xFFFFEFFFFFC2F \<and> n1 t = M52 \<and> n2 t = M52 \<and> n3 t = M52 \<and> n4 t = M48)"
    by (simp add: xor_eq)
  also have "\<dots> = (fval t = secp256k1_p)"
  proof
    assume "fval t = secp256k1_p"
    then have "unat (n0 t) + (unat (n1 t) + (unat (n2 t) + (unat (n3 t) + unat (n4 t) * B52) * B52) * B52) * B52 =
        0xFFFFEFFFFFC2F + (0xFFFFFFFFFFFFF + (0xFFFFFFFFFFFFF + (0xFFFFFFFFFFFFF + 0xFFFFFFFFFFFF * B52) * B52) * B52) * B52"
      by (simp add: fval_def secp256k1_p_def)
    from digits5 [OF this] show "n0 t = 0xFFFFEFFFFFC2F \<and> n1 t = M52 \<and> n2 t = M52 \<and> n3 t = M52 \<and> n4 t = M48"
      using lt by (simp add: word_unat_eq_iff)
  qed (simp add: fval_def secp256k1_p_def)
  finally show ?thesis .
qed

lemma raw_0_iff: "(n0 t OR n1 t OR n2 t OR n3 t OR n4 t = 0) = (fval t = 0)"
  by (auto simp: or_zero fval_def unsigned_eq_0_iff)

lemma normalizes_to_zero_steps:
  "secp256k1_fe_normalizes_to_zero r =
     (let t = secp256k1_fe_normalize_weak r in
      (n0 t OR n1 t OR n2 t OR n3 t OR n4 t) = 0 \<or>
      ((n0 t XOR 0x1000003D0) AND n1 t AND n2 t AND n3 t AND (n4 t XOR 0xF000000000000)) = M52)"
  by (simp add: secp256k1_fe_normalizes_to_zero_def secp256k1_fe_normalize_weak_def Let_def)

lemma normalizes_to_zero_val:
  assumes "fe_loose r"
  shows "secp256k1_fe_normalizes_to_zero r = (fval r mod secp256k1_p = 0)"
proof -
  let ?t = "secp256k1_fe_normalize_weak r"
  note w = normalize_weak_val [OF assms]
  have "fval ?t < 2 * secp256k1_p"
    using w(1,3) by (simp add: fe_weak_def fval_def secp256k1_p_def)
  then have "(fval ?t mod secp256k1_p = 0) = (fval ?t = 0 \<or> fval ?t = secp256k1_p)"
  proof (cases "fval ?t < secp256k1_p")
    case False
    then have "fval ?t mod secp256k1_p = fval ?t - secp256k1_p"
      using \<open>fval ?t < 2 * secp256k1_p\<close> by (simp add: le_mod_geq)
    then show ?thesis using False by (auto simp: secp256k1_p_def)
  qed auto
  moreover have "fval r mod secp256k1_p = fval ?t mod secp256k1_p" by (simp only: w(2) mod_mult_self1)
  ultimately show ?thesis
    by (simp only: normalizes_to_zero_steps Let_def raw_p_iff [OF w(1)] raw_0_iff)
qed

lemma normalizes_to_zero_var_eq:
  assumes "fe_loose r"
  shows "secp256k1_fe_normalizes_to_zero_var r = secp256k1_fe_normalizes_to_zero r"
proof -
  let ?t = "secp256k1_fe_normalize_weak r"
  let ?z1 = "n0 ?t XOR 0x1000003D0"
  have var: "secp256k1_fe_normalizes_to_zero_var r =
     (if n0 ?t \<noteq> 0 \<and> ?z1 \<noteq> M52 then False
      else (n0 ?t OR n1 ?t OR n2 ?t OR n3 ?t OR n4 ?t) = 0 \<or>
        (?z1 AND n1 ?t AND n2 ?t AND n3 ?t AND (n4 ?t XOR 0xF000000000000)) = M52)"
    by (simp add: secp256k1_fe_normalizes_to_zero_var_def secp256k1_fe_normalize_weak_def fe_pass_def Let_def or.assoc and.assoc)
  note w = normalize_weak_val [OF assms]
  have "n0 ?t \<noteq> 0 \<Longrightarrow> fval ?t \<noteq> 0" by (auto simp: fval_def unsigned_eq_0_iff)
  moreover have "?z1 \<noteq> M52 \<Longrightarrow> fval ?t \<noteq> secp256k1_p"
  proof
    assume z: "?z1 \<noteq> M52" and "fval ?t = secp256k1_p"
    then have "?z1 AND (n1 ?t AND n2 ?t AND n3 ?t AND (n4 ?t XOR 0xF000000000000)) = M52"
      using raw_p_iff [OF w(1)] by blast
    then have "M52 \<le> ?z1" using word_and_le2 [of ?z1] by metis
    moreover have "unat ?z1 < 2 ^ 52"
    proof -
      have "unat (n0 ?t) < 2 ^ 52" using w(1) by (simp add: fe_weak_def)
      then have "unat ?z1 = take_bit 52 (unat (n0 ?t) XOR unat (0x1000003D0 :: u64))"
        by (simp only: unsigned_xor_eq take_bit_xor take_bit_nat_eq_self) (simp add: take_bit_nat_eq_self)
      then show ?thesis using take_bit_nat_less_exp [of 52 "unat (n0 ?t) XOR unat (0x1000003D0 :: u64)"] by (simp only:)
    qed
    ultimately show False using z by (simp add: word_le_nat_alt word_unat_eq_iff)
  qed
  ultimately show ?thesis
    unfolding var normalizes_to_zero_steps Let_def raw_p_iff [OF w(1)] raw_0_iff by auto
qed

text \<open>the test for zero without normalizing, constant-time and variable-time alike, decides whether
  the value is zero modulo the field prime.\<close>

theorem fe_normalizes_to_zero_correct:
  assumes "fe_loose r"
  shows "secp256k1_fe_normalizes_to_zero r = (fval r mod secp256k1_p = 0) \<and>
    secp256k1_fe_normalizes_to_zero_var r = (fval r mod secp256k1_p = 0)"
  using normalizes_to_zero_val [OF assms] normalizes_to_zero_var_eq [OF assms] by simp

theorem fe_normalizes_to_zero_correct_witness:
  "secp256k1_fe_normalizes_to_zero \<lparr>n0 = 0xFFFFEFFFFFC2F, n1 = M52, n2 = M52, n3 = M52, n4 = M48\<rparr>"
  using fe_normalizes_to_zero_correct [of "\<lparr>n0 = 0xFFFFEFFFFFC2F, n1 = M52, n2 = M52, n3 = M52, n4 = M48\<rparr>"]
  by (simp add: fe_loose_def fval_def secp256k1_p_def)

section \<open>Magnitudes\<close>

definition fe_mag :: "nat \<Rightarrow> fe \<Rightarrow> bool" where
  "fe_mag m a = (unat (n0 a) \<le> 2 * m * 0xFFFFFFFFFFFFF \<and> unat (n1 a) \<le> 2 * m * 0xFFFFFFFFFFFFF \<and>
     unat (n2 a) \<le> 2 * m * 0xFFFFFFFFFFFFF \<and> unat (n3 a) \<le> 2 * m * 0xFFFFFFFFFFFFF \<and> unat (n4 a) \<le> 2 * m * 0xFFFFFFFFFFFF)"

lemma fe_mag_loose: "fe_mag m a \<Longrightarrow> m \<le> 511 \<Longrightarrow> fe_loose a"
proof -
  assume a: "fe_mag m a" and m: "m \<le> 511"
  have "2 * m * 0xFFFFFFFFFFFFF \<le> 2 * 511 * 0xFFFFFFFFFFFFF" "2 * m * 0xFFFFFFFFFFFF \<le> 2 * 511 * 0xFFFFFFFFFFFF" using m by auto
  then show ?thesis using a by (simp add: fe_mag_def fe_loose_def)
qed

lemma fe_mag_small: "fe_mag m a \<Longrightarrow> m \<le> 8 \<Longrightarrow> fe_small a"
proof -
  assume a: "fe_mag m a" and m: "m \<le> 8"
  have "2 * m * 0xFFFFFFFFFFFFF \<le> 2 * 8 * 0xFFFFFFFFFFFFF" "2 * m * 0xFFFFFFFFFFFF \<le> 2 * 8 * 0xFFFFFFFFFFFF" using m by auto
  then show ?thesis using a by (simp add: fe_mag_def fe_small_def)
qed

lemma fe_weak_mag: "fe_weak a \<Longrightarrow> fe_mag 1 a"
  by (auto simp: fe_weak_def fe_mag_def)

lemma fe_norm_weak: "fe_norm a \<Longrightarrow> fe_weak a"
  by (auto simp: fe_norm_def fe_weak_def)

lemma fe_norm_mag: "fe_norm a \<Longrightarrow> fe_mag 1 a"
  by (auto simp: fe_norm_def fe_mag_def)

lemma fe_add_val:
  assumes "fe_mag m a" "fe_mag k b" "m + k \<le> 500"
  shows "fval (secp256k1_fe_add a b) = fval a + fval b \<and> fe_mag (m + k) (secp256k1_fe_add a b)"
proof -
  have s: "unat (x + y) = unat x + unat y \<and> unat (x + y) \<le> 2 * (m + k) * c"
    if "unat x \<le> 2 * m * c" "unat y \<le> 2 * k * c" "c \<le> 0xFFFFFFFFFFFFF" for x y :: u64 and c
  proof -
    have le: "unat x + unat y \<le> 2 * (m + k) * c" using that(1,2) by (simp add: algebra_simps)
    also have "\<dots> \<le> 2 * 500 * 0xFFFFFFFFFFFFF" using assms(3) that(3) by (intro mult_le_mono) auto
    finally have "unat (x + y) = unat x + unat y" by (intro unat_add_no_overflow) simp
    then show ?thesis using le by simp
  qed
  have a: "unat (n0 a) \<le> 2 * m * 0xFFFFFFFFFFFFF" "unat (n1 a) \<le> 2 * m * 0xFFFFFFFFFFFFF" "unat (n2 a) \<le> 2 * m * 0xFFFFFFFFFFFFF"
    "unat (n3 a) \<le> 2 * m * 0xFFFFFFFFFFFFF" "unat (n4 a) \<le> 2 * m * 0xFFFFFFFFFFFF"
    and b: "unat (n0 b) \<le> 2 * k * 0xFFFFFFFFFFFFF" "unat (n1 b) \<le> 2 * k * 0xFFFFFFFFFFFFF" "unat (n2 b) \<le> 2 * k * 0xFFFFFFFFFFFFF"
    "unat (n3 b) \<le> 2 * k * 0xFFFFFFFFFFFFF" "unat (n4 b) \<le> 2 * k * 0xFFFFFFFFFFFF"
    using assms(1,2) by (auto simp: fe_mag_def)
  note l = s [OF a(1) b(1)] s [OF a(2) b(2)] s [OF a(3) b(3)] s [OF a(4) b(4)] s [OF a(5) b(5)]
  show ?thesis using l by (simp add: secp256k1_fe_add_def fval_def fe_mag_def algebra_simps)
qed

lemma fe_negate_val:
  assumes "fe_mag m a" "m \<le> 500"
  shows "fval (secp256k1_fe_negate a (word_of_nat m)) + fval a = 2 * (m + 1) * secp256k1_p \<and>
    fe_mag (m + 1) (secp256k1_fe_negate a (word_of_nat m))"
proof -
  have s: "unat (word_of_nat c * 2 * (word_of_nat m + 1) - x :: u64) + unat x = c * 2 * (m + 1)"
    if "unat x \<le> 2 * m * d" "d \<le> c + 0x1000003D0" "0x80000000000 \<le> c" "c \<le> 0xFFFFFFFFFFFFF" for x :: u64 and c d :: nat
  proof -
    have "(word_of_nat c * 2 * (word_of_nat m + 1) :: u64) = word_of_nat (c * 2 * (m + 1))" by (simp add: algebra_simps)
    moreover have lt: "c * 2 * (m + 1) < 2 ^ 64"
    proof -
      have "c * 2 * (m + 1) \<le> 0xFFFFFFFFFFFFF * 2 * 501" using that(4) assms(2) by (intro mult_le_mono) auto
      then show ?thesis by simp
    qed
    ultimately have u: "unat (word_of_nat c * 2 * (word_of_nat m + 1) :: u64) = c * 2 * (m + 1)"
      by (simp only: unat_of_nat) simp
    have "2 * m * d \<le> 2 * m * (c + 0x1000003D0)" using that(2) by (intro mult_le_mono) auto
    also have "\<dots> \<le> 2 * m * c + 2 * c" using that(3) assms(2) by (simp add: add_mult_distrib2)
    finally have "unat x \<le> c * 2 * (m + 1)" using that(1) by (simp add: algebra_simps)
    then show ?thesis using u unat_sub_no_underflow [of x "word_of_nat c * 2 * (word_of_nat m + 1)"] by simp
  qed
  have a: "unat (n0 a) \<le> 2 * m * 0xFFFFFFFFFFFFF" "unat (n1 a) \<le> 2 * m * 0xFFFFFFFFFFFFF" "unat (n2 a) \<le> 2 * m * 0xFFFFFFFFFFFFF"
    "unat (n3 a) \<le> 2 * m * 0xFFFFFFFFFFFFF" "unat (n4 a) \<le> 2 * m * 0xFFFFFFFFFFFF"
    using assms(1) by (auto simp: fe_mag_def)
  note l = s [where c = "0xFFFFEFFFFFC2F", OF a(1)] s [where c = "0xFFFFFFFFFFFFF", OF a(2)]
    s [where c = "0xFFFFFFFFFFFFF", OF a(3)] s [where c = "0xFFFFFFFFFFFFF", OF a(4)] s [where c = "0xFFFFFFFFFFFF", OF a(5)]
  define r where "r = secp256k1_fe_negate a (word_of_nat m)"
  have r: "unat (n0 r) + unat (n0 a) = 0xFFFFEFFFFFC2F * 2 * (m + 1)" "unat (n1 r) + unat (n1 a) = 0xFFFFFFFFFFFFF * 2 * (m + 1)"
    "unat (n2 r) + unat (n2 a) = 0xFFFFFFFFFFFFF * 2 * (m + 1)" "unat (n3 r) + unat (n3 a) = 0xFFFFFFFFFFFFF * 2 * (m + 1)"
    "unat (n4 r) + unat (n4 a) = 0xFFFFFFFFFFFF * 2 * (m + 1)"
    using l by (simp_all add: r_def secp256k1_fe_negate_def)
  have "fval r + fval a = (unat (n0 r) + unat (n0 a)) + B52 * (unat (n1 r) + unat (n1 a)) + B52 ^ 2 * (unat (n2 r) + unat (n2 a)) +
      B52 ^ 3 * (unat (n3 r) + unat (n3 a)) + B52 ^ 4 * (unat (n4 r) + unat (n4 a))"
    by (simp add: fval_def algebra_simps)
  then have "fval r + fval a = 2 * (m + 1) * secp256k1_p" unfolding r by (simp add: secp256k1_p_def algebra_simps)
  moreover have "fe_mag (m + 1) r" using r unfolding fe_mag_def by linarith
  ultimately show ?thesis by (simp add: r_def)
qed

text \<open>addition and negation are limb-wise, so they build up magnitude: within magnitudes up to
  500 the sum of limbs stands for the sum, the negation for the additive inverse modulo the
  prime, and the magnitudes add up as the interface documents.\<close>

theorem fe_add_negate_correct:
  assumes "fe_mag m a" "fe_mag k b" "m + k \<le> 500"
  shows "fval (secp256k1_fe_add a b) = fval a + fval b \<and> fe_mag (m + k) (secp256k1_fe_add a b) \<and>
    (fval (secp256k1_fe_negate a (word_of_nat m)) + fval a) mod secp256k1_p = 0 \<and>
    fe_mag (m + 1) (secp256k1_fe_negate a (word_of_nat m))"
  using fe_add_val [OF assms] fe_negate_val [OF assms(1)] assms(3) by simp

theorem fe_add_negate_correct_witness:
  "fval (secp256k1_fe_add \<lparr>n0 = M52, n1 = 0, n2 = 0, n3 = 0, n4 = 0\<rparr> \<lparr>n0 = 2, n1 = 0, n2 = 0, n3 = 0, n4 = 5\<rparr>) =
   fval \<lparr>n0 = M52, n1 = 0, n2 = 0, n3 = 0, n4 = 0\<rparr> + fval \<lparr>n0 = 2, n1 = 0, n2 = 0, n3 = 0, n4 = 5\<rparr>"
  by (rule conjunct1 [OF fe_add_negate_correct [where m = 1 and k = 1]]) (simp_all add: fe_mag_def)


section \<open>Bytes and storage\<close>

lemma fval_inject:
  assumes "fe_norm a" "fe_norm b" "fval a = fval b"
  shows "a = b"
proof -
  have "unat (n0 a) + (unat (n1 a) + (unat (n2 a) + (unat (n3 a) + unat (n4 a) * B52) * B52) * B52) * B52 =
      unat (n0 b) + (unat (n1 b) + (unat (n2 b) + (unat (n3 b) + unat (n4 b) * B52) * B52) * B52) * B52"
    using assms(3) by (simp add: fval_def)
  from digits5 [OF this] show ?thesis
    using assms(1,2) by (intro fe_eqI) (simp_all add: fe_norm_def word_unat_eq_iff)
qed

text \<open>A store of a field element as four 64-bit words and back.\<close>

lemma bit_above: "unat (x :: u64) < 2 ^ k \<Longrightarrow> k \<le> i \<Longrightarrow> \<not> bit x i"
proof -
  assume x: "unat x < 2 ^ k" and i: "k \<le> i"
  have "unat x = take_bit k (unat x)" using x by (simp add: take_bit_nat_eq_self)
  then have "x = take_bit k x" by (simp only: word_unat_eq_iff unsigned_take_bit_eq)
  then show ?thesis using i by (metis bit_take_bit_iff not_less)
qed

text \<open>packing a normalized field element into four words and unpacking it gives it back.\<close>

theorem fe_storage_roundtrip:
  assumes "fe_norm a"
  shows "secp256k1_fe_from_storage (secp256k1_fe_to_storage a) = a"
proof -
  have lt: "unat (n0 a) < 2 ^ 52" "unat (n1 a) < 2 ^ 52" "unat (n2 a) < 2 ^ 52" "unat (n3 a) < 2 ^ 52" "unat (n4 a) < 2 ^ 48"
    using assms by (auto simp: fe_norm_def)
  note above = bit_above [OF lt(1)] bit_above [OF lt(2)] bit_above [OF lt(3)] bit_above [OF lt(4)] bit_above [OF lt(5)]
  have below: "bit (n0 a) i \<Longrightarrow> i < 52" "bit (n4 a) i \<Longrightarrow> i < 48" for i
    by (meson above(1,5) not_le)+
  show ?thesis
    by (intro fe_eqI; rule bit_word_eqI)
      (auto simp: secp256k1_fe_from_storage_def secp256k1_fe_to_storage_def M52_mask bit_simps above dest: below)
qed

theorem fe_storage_roundtrip_witness:
  "secp256k1_fe_from_storage (secp256k1_fe_to_storage \<lparr>n0 = M52, n1 = 5, n2 = M52, n3 = 7, n4 = 0xFFFFFFFFFFF\<rparr>) =
   \<lparr>n0 = M52, n1 = 5, n2 = M52, n3 = 7, n4 = 0xFFFFFFFFFFF\<rparr>"
  by (rule fe_storage_roundtrip) (simp add: fe_norm_def fval_def secp256k1_p_def)

end
