(* ===== verification/Field_Bytes.thy ===== *)
theory Field_Bytes
  imports Field_Normalize
begin

text \<open>
  The 32-byte big-endian form of field elements: reading, the test against the prime, writing.
\<close>

lemma unat_byte: "unat (b :: u8) < 256"
  using unsigned_less [of b, where 'a = nat] by simp

lemma unat_byte_u64: "unat (ucast (b :: u8) :: u64) = unat b"
  using unat_byte [of b] by (simp add: unsigned_ucast_eq take_bit_nat_eq_self)

text \<open>Limbs from whole bytes with a nibble on top, and from a nibble with bytes above it.\<close>

lemma limb_nibble_top:
  fixes x0 x1 x2 x3 x4 x5 h :: u8
  assumes "unat h < 16"
  shows "unat (ucast x0 OR push_bit 8 (ucast x1) OR push_bit 16 (ucast x2) OR push_bit 24 (ucast x3) OR
      push_bit 32 (ucast x4) OR push_bit 40 (ucast x5) OR push_bit 48 (ucast h) :: u64) =
    unat x0 + unat x1 * 2 ^ 8 + unat x2 * 2 ^ 16 + unat x3 * 2 ^ 24 + unat x4 * 2 ^ 32 + unat x5 * 2 ^ 40 + unat h * 2 ^ 48"
proof -
  note lt = unat_byte [of x0] unat_byte [of x1] unat_byte [of x2] unat_byte [of x3] unat_byte [of x4] unat_byte [of x5] assms
  define y0 y1 y2 y3 y4 y5 y6 :: u64 where y: "y0 = ucast x0" "y1 = y0 OR push_bit 8 (ucast x1)"
    "y2 = y1 OR push_bit 16 (ucast x2)" "y3 = y2 OR push_bit 24 (ucast x3)" "y4 = y3 OR push_bit 32 (ucast x4)"
    "y5 = y4 OR push_bit 40 (ucast x5)" "y6 = y5 OR push_bit 48 (ucast h)"
  have u0: "unat y0 = unat x0" by (simp only: y unat_byte_u64)
  have u1: "unat y1 = unat y0 + unat x1 * 2 ^ 8"
    unfolding y(2) using lt by (subst unat_or_push(2)) (simp_all add: u0 unat_byte_u64)
  have u2: "unat y2 = unat y1 + unat x2 * 2 ^ 16"
    unfolding y(3) using lt by (subst unat_or_push(2)) (simp_all add: u0 u1 unat_byte_u64)
  have u3: "unat y3 = unat y2 + unat x3 * 2 ^ 24"
    unfolding y(4) using lt by (subst unat_or_push(2)) (simp_all add: u0 u1 u2 unat_byte_u64)
  have u4: "unat y4 = unat y3 + unat x4 * 2 ^ 32"
    unfolding y(5) using lt by (subst unat_or_push(2)) (simp_all add: u0 u1 u2 u3 unat_byte_u64)
  have u5: "unat y5 = unat y4 + unat x5 * 2 ^ 40"
    unfolding y(6) using lt by (subst unat_or_push(2)) (simp_all add: u0 u1 u2 u3 u4 unat_byte_u64)
  have u6: "unat y6 = unat y5 + unat h * 2 ^ 48"
    unfolding y(7) using lt by (subst unat_or_push(2)) (simp_all add: u0 u1 u2 u3 u4 u5 unat_byte_u64)
  have "ucast x0 OR push_bit 8 (ucast x1) OR push_bit 16 (ucast x2) OR push_bit 24 (ucast x3) OR
      push_bit 32 (ucast x4) OR push_bit 40 (ucast x5) OR push_bit 48 (ucast h) = y6"
    by (simp only: y or.assoc)
  then show ?thesis by (simp only: u0 u1 u2 u3 u4 u5 u6)
qed

lemma limb_nibble_low:
  fixes x0 x1 x2 x3 x4 x5 h :: u8
  assumes "unat h < 16"
  shows "unat (ucast h OR push_bit 4 (ucast x0) OR push_bit 12 (ucast x1) OR push_bit 20 (ucast x2) OR
      push_bit 28 (ucast x3) OR push_bit 36 (ucast x4) OR push_bit 44 (ucast x5) :: u64) =
    unat h + unat x0 * 2 ^ 4 + unat x1 * 2 ^ 12 + unat x2 * 2 ^ 20 + unat x3 * 2 ^ 28 + unat x4 * 2 ^ 36 + unat x5 * 2 ^ 44"
proof -
  note lt = unat_byte [of x0] unat_byte [of x1] unat_byte [of x2] unat_byte [of x3] unat_byte [of x4] unat_byte [of x5] assms
  define y0 y1 y2 y3 y4 y5 y6 :: u64 where y: "y0 = ucast h" "y1 = y0 OR push_bit 4 (ucast x0)"
    "y2 = y1 OR push_bit 12 (ucast x1)" "y3 = y2 OR push_bit 20 (ucast x2)" "y4 = y3 OR push_bit 28 (ucast x3)"
    "y5 = y4 OR push_bit 36 (ucast x4)" "y6 = y5 OR push_bit 44 (ucast x5)"
  have u0: "unat y0 = unat h" by (simp only: y unat_byte_u64)
  have u1: "unat y1 = unat y0 + unat x0 * 2 ^ 4"
    unfolding y(2) using lt by (subst unat_or_push(2)) (simp_all add: u0 unat_byte_u64)
  have u2: "unat y2 = unat y1 + unat x1 * 2 ^ 12"
    unfolding y(3) using lt by (subst unat_or_push(2)) (simp_all add: u0 u1 unat_byte_u64)
  have u3: "unat y3 = unat y2 + unat x2 * 2 ^ 20"
    unfolding y(4) using lt by (subst unat_or_push(2)) (simp_all add: u0 u1 u2 unat_byte_u64)
  have u4: "unat y4 = unat y3 + unat x3 * 2 ^ 28"
    unfolding y(5) using lt by (subst unat_or_push(2)) (simp_all add: u0 u1 u2 u3 unat_byte_u64)
  have u5: "unat y5 = unat y4 + unat x4 * 2 ^ 36"
    unfolding y(6) using lt by (subst unat_or_push(2)) (simp_all add: u0 u1 u2 u3 u4 unat_byte_u64)
  have u6: "unat y6 = unat y5 + unat x5 * 2 ^ 44"
    unfolding y(7) using lt by (subst unat_or_push(2)) (simp_all add: u0 u1 u2 u3 u4 u5 unat_byte_u64)
  have "ucast h OR push_bit 4 (ucast x0) OR push_bit 12 (ucast x1) OR push_bit 20 (ucast x2) OR
      push_bit 28 (ucast x3) OR push_bit 36 (ucast x4) OR push_bit 44 (ucast x5) = y6"
    by (simp only: y or.assoc)
  then show ?thesis by (simp only: u0 u1 u2 u3 u4 u5 u6)
qed

section \<open>Reading\<close>

lemma list_32:
  assumes "length xs = 32"
  shows "xs = [xs ! 0, xs ! 1, xs ! 2, xs ! 3, xs ! 4, xs ! 5, xs ! 6, xs ! 7, xs ! 8, xs ! 9, xs ! 10, xs ! 11,
    xs ! 12, xs ! 13, xs ! 14, xs ! 15, xs ! 16, xs ! 17, xs ! 18, xs ! 19, xs ! 20, xs ! 21, xs ! 22, xs ! 23,
    xs ! 24, xs ! 25, xs ! 26, xs ! 27, xs ! 28, xs ! 29, xs ! 30, xs ! 31]"
proof -
  have "xs = map ((!) xs) [0..<32]" using map_nth [of xs] assms by simp
  also have "[0..<32] = [0, 1, 2, 3, 4, 5, 6, 7, 8, 9, 10, 11, 12, 13, 14, 15, 16, 17, 18, 19, 20, 21, 22, 23,
      24, 25, 26, 27, 28, 29, 30, 31 :: nat]" by (simp add: upt_rec)
  finally show ?thesis by simp
qed

lemma nibbles: "unat ((b :: u8) AND 0xF) = unat b mod 16" "unat (drop_bit 4 (b :: u8) AND 0xF) = unat b div 16"
proof -
  have m: "(0xF :: u8) = mask 4" by (simp add: mask_eq_exp_minus_1)
  show "unat (b AND 0xF) = unat b mod 16" using unat_and_mask_eq [of b 4] by (simp add: m)
  have "unat (drop_bit 4 b AND 0xF) = unat b div 2 ^ 4 mod 2 ^ 4" unfolding m by (simp only: unat_and_mask_eq unat_drop_bit_div)
  also have "unat b div 2 ^ 4 < 2 ^ 4" using unat_byte [of b] by (intro less_mult_imp_div_less) simp
  then have "unat b div 2 ^ 4 mod 2 ^ 4 = unat b div 16" by (simp only: mod_less) simp
  finally show "unat (drop_bit 4 b AND 0xF) = unat b div 16" .
qed

lemma set_b32_limbs:
  fixes a :: bytes
  defines "r \<equiv> fst (secp256k1_fe_set_b32 a)" and "b \<equiv> \<lambda>i. unat (a ! i)"
  shows "unat (n0 r) = b 31 + b 30 * 2 ^ 8 + b 29 * 2 ^ 16 + b 28 * 2 ^ 24 + b 27 * 2 ^ 32 + b 26 * 2 ^ 40 + b 25 mod 16 * 2 ^ 48"
    "unat (n1 r) = b 25 div 16 + b 24 * 2 ^ 4 + b 23 * 2 ^ 12 + b 22 * 2 ^ 20 + b 21 * 2 ^ 28 + b 20 * 2 ^ 36 + b 19 * 2 ^ 44"
    "unat (n2 r) = b 18 + b 17 * 2 ^ 8 + b 16 * 2 ^ 16 + b 15 * 2 ^ 24 + b 14 * 2 ^ 32 + b 13 * 2 ^ 40 + b 12 mod 16 * 2 ^ 48"
    "unat (n3 r) = b 12 div 16 + b 11 * 2 ^ 4 + b 10 * 2 ^ 12 + b 9 * 2 ^ 20 + b 8 * 2 ^ 28 + b 7 * 2 ^ 36 + b 6 * 2 ^ 44"
    "unat (n4 r) = b 5 + b 4 * 2 ^ 8 + b 3 * 2 ^ 16 + b 2 * 2 ^ 24 + b 1 * 2 ^ 32 + b 0 * 2 ^ 40"
proof -
  have h: "unat (x AND 0xF) < 16" "unat (drop_bit 4 x AND 0xF) < 16" for x :: u8
    using unat_byte [of x] by (simp_all add: nibbles)
  note d = secp256k1_fe_set_b32_def Let_def fst_conv fe.select_convs
  show "unat (n0 r) = b 31 + b 30 * 2 ^ 8 + b 29 * 2 ^ 16 + b 28 * 2 ^ 24 + b 27 * 2 ^ 32 + b 26 * 2 ^ 40 + b 25 mod 16 * 2 ^ 48"
    unfolding r_def b_def d limb_nibble_top [OF h(1)] nibbles ..
  show "unat (n1 r) = b 25 div 16 + b 24 * 2 ^ 4 + b 23 * 2 ^ 12 + b 22 * 2 ^ 20 + b 21 * 2 ^ 28 + b 20 * 2 ^ 36 + b 19 * 2 ^ 44"
    unfolding r_def b_def d limb_nibble_low [OF h(2)] nibbles(2) ..
  show "unat (n2 r) = b 18 + b 17 * 2 ^ 8 + b 16 * 2 ^ 16 + b 15 * 2 ^ 24 + b 14 * 2 ^ 32 + b 13 * 2 ^ 40 + b 12 mod 16 * 2 ^ 48"
    unfolding r_def b_def d limb_nibble_top [OF h(1)] nibbles ..
  show "unat (n3 r) = b 12 div 16 + b 11 * 2 ^ 4 + b 10 * 2 ^ 12 + b 9 * 2 ^ 20 + b 8 * 2 ^ 28 + b 7 * 2 ^ 36 + b 6 * 2 ^ 44"
    unfolding r_def b_def d limb_nibble_low [OF h(2)] nibbles(2) ..
  show "unat (n4 r) = b 5 + b 4 * 2 ^ 8 + b 3 * 2 ^ 16 + b 2 * 2 ^ 24 + b 1 * 2 ^ 32 + b 0 * 2 ^ 40"
    unfolding r_def b_def d
    using limb_nibble_top [of 0 "a ! 5" "a ! 4" "a ! 3" "a ! 2" "a ! 1" "a ! 0"] by simp
qed

lemma limb_bounds:
  fixes x0 :: nat
  assumes "x0 < 256" "x1 < 256" "x2 < 256" "x3 < 256" "x4 < 256" "x5 < 256" "h < 16"
  shows "x0 + x1 * 2 ^ 8 + x2 * 2 ^ 16 + x3 * 2 ^ 24 + x4 * 2 ^ 32 + x5 * 2 ^ 40 + h * 2 ^ 48 < 2 ^ 52"
    "h + x0 * 2 ^ 4 + x1 * 2 ^ 12 + x2 * 2 ^ 20 + x3 * 2 ^ 28 + x4 * 2 ^ 36 + x5 * 2 ^ 44 < 2 ^ 52"
    "x0 + x1 * 2 ^ 8 + x2 * 2 ^ 16 + x3 * 2 ^ 24 + x4 * 2 ^ 32 + x5 * 2 ^ 40 < 2 ^ 48"
  using assms by simp_all

lemma fe_set_b32_val:
  assumes "length a = 32"
  defines "r \<equiv> fst (secp256k1_fe_set_b32 a)"
  shows "fval r = of_be a" "fe_weak r" "unat (n4 r) < 2 ^ 48" "snd (secp256k1_fe_set_b32 a) = (of_be a < secp256k1_p)"
proof -
  note l = set_b32_limbs [of a, folded r_def]
  define h25 l25 h12 l12 where hl: "h25 = unat (a ! 25) div 16" "l25 = unat (a ! 25) mod 16"
    "h12 = unat (a ! 12) div 16" "l12 = unat (a ! 12) mod 16"
  have s: "unat (a ! 25) = 16 * h25 + l25" "unat (a ! 12) = 16 * h12 + l12" by (simp_all add: hl)
  have "of_be a = of_be [a ! 0, a ! 1, a ! 2, a ! 3, a ! 4, a ! 5, a ! 6, a ! 7, a ! 8, a ! 9, a ! 10, a ! 11,
    a ! 12, a ! 13, a ! 14, a ! 15, a ! 16, a ! 17, a ! 18, a ! 19, a ! 20, a ! 21, a ! 22, a ! 23,
    a ! 24, a ! 25, a ! 26, a ! 27, a ! 28, a ! 29, a ! 30, a ! 31]" by (subst list_32 [OF assms(1)]) (rule refl)
  then show v: "fval r = of_be a"
    unfolding fval_def l hl [symmetric] by (simp add: of_be_def s)
  have b: "unat (a ! i) < 256" "unat (a ! i) mod 16 < 16" "unat (a ! i) div 16 < 16" for i
    using unat_byte [of "a ! i"] by auto
  show n4: "unat (n4 r) < 2 ^ 48" unfolding l by (rule limb_bounds(3) [OF b(1) b(1) b(1) b(1) b(1) b(1), of 0]) simp
  then have "unat (n4 r) < 2 ^ 48 + 2 ^ 46" by simp
  moreover have "unat (n0 r) < 2 ^ 52" "unat (n2 r) < 2 ^ 52" unfolding l by (intro limb_bounds(1) b)+
  moreover have "unat (n1 r) < 2 ^ 52" "unat (n3 r) < 2 ^ 52" unfolding l by (intro limb_bounds(2) b)+
  ultimately show weak: "fe_weak r" by (simp only: fe_weak_def)
  have "snd (secp256k1_fe_set_b32 a) = (\<not> fe_ge_p r)"
    by (simp add: r_def secp256k1_fe_set_b32_def Let_def fe_ge_p_def and.commute and.left_commute)
  then show "snd (secp256k1_fe_set_b32 a) = (of_be a < secp256k1_p)"
    using fe_ge_p_val [OF weak n4] v by auto
qed


section \<open>Writing\<close>

lemma byte_of: "unat (ucast (drop_bit k (x :: u64) AND 0xFF) :: u8) = unat x div 2 ^ k mod 256"
    "unat (ucast ((x :: u64) AND 0xFF) :: u8) = unat x mod 256"
proof -
  have m: "(0xFF :: u64) = mask 8" by (simp add: mask_eq_exp_minus_1)
  have c: "unat (ucast (y AND 0xFF) :: u8) = unat y mod 256" for y :: u64
  proof -
    have "unat (y AND 0xFF) = unat y mod 2 ^ 8" by (simp only: m unat_and_mask_eq)
    then show ?thesis by (simp add: unsigned_ucast_eq take_bit_eq_mod)
  qed
  show "unat (ucast (drop_bit k x AND 0xFF) :: u8) = unat x div 2 ^ k mod 256" by (simp only: c unat_drop_bit_div)
  show "unat (ucast (x AND 0xFF) :: u8) = unat x mod 256" by (rule c)
qed

lemma shared_byte:
  fixes x y :: u64
  assumes "unat x < 2 ^ 52"
  shows "unat (ucast ((drop_bit 48 x AND 0xF) OR push_bit 4 (y AND 0xF)) :: u8) = unat x div 2 ^ 48 + unat y mod 16 * 16"
proof -
  have m: "(0xF :: u64) = mask 4" by (simp add: mask_eq_exp_minus_1)
  have q: "unat x div 2 ^ 48 < 16" using assms by (intro less_mult_imp_div_less) simp
  have a: "unat (drop_bit 48 x AND 0xF) = unat x div 2 ^ 48"
    using q unat_and_mask_eq [of "drop_bit 48 x" 4] by (simp only: m unat_drop_bit_div) simp
  have b: "unat (y AND 0xF) = unat y mod 16" using unat_and_mask_eq [of y 4] by (simp only: m) simp
  have "unat ((drop_bit 48 x AND 0xF) OR push_bit 4 (y AND 0xF)) = unat x div 2 ^ 48 + unat y mod 16 * 2 ^ 4"
    using q mod_less_divisor [of 16 "unat y"] by (subst unat_or_push(2)) (simp_all only: a b, simp_all)
  moreover have "unat x div 2 ^ 48 + unat y mod 16 * 16 < 256" using q mod_less_divisor [of 16 "unat y"] by linarith
  ultimately show ?thesis by (simp add: unsigned_ucast_eq take_bit_nat_eq_self)
qed

lemma digit_chain:
  fixes n b :: nat
  assumes "n = m0 + b * q1" "q1 = m1 + 256 * q2" "q2 = m2 + 256 * q3" "q3 = m3 + 256 * q4" "q4 = m4 + 256 * q5" "q5 = m5 + 256 * q6"
  shows "n = m0 + b * (m1 + 256 * m2 + 256 ^ 2 * m3 + 256 ^ 3 * m4 + 256 ^ 4 * m5 + 256 ^ 5 * q6)"
  using assms by algebra

lemma div_step: "(n :: nat) div 2 ^ k = n div 2 ^ k mod 256 + 256 * (n div 2 ^ (k + 8))"
  by (simp add: power_add div_mult2_eq)

lemma digits_top:
  fixes n :: nat
  shows "n = n mod 256 + 256 * (n div 2 ^ 8 mod 256 + 256 * (n div 2 ^ 16 mod 256) + 256 ^ 2 * (n div 2 ^ 24 mod 256) +
     256 ^ 3 * (n div 2 ^ 32 mod 256) + 256 ^ 4 * (n div 2 ^ 40 mod 256) + 256 ^ 5 * (n div 2 ^ 48))"
proof (rule digit_chain)
  show "n = n mod 256 + 256 * (n div 2 ^ 8)" by simp
qed (use div_step [of n 8] div_step [of n 16] div_step [of n 24] div_step [of n 32] div_step [of n 40] in simp_all)

lemma digits_low:
  fixes n :: nat
  shows "n = n mod 16 + 16 * (n div 2 ^ 4 mod 256 + 256 * (n div 2 ^ 12 mod 256) + 256 ^ 2 * (n div 2 ^ 20 mod 256) +
     256 ^ 3 * (n div 2 ^ 28 mod 256) + 256 ^ 4 * (n div 2 ^ 36 mod 256) + 256 ^ 5 * (n div 2 ^ 44))"
proof (rule digit_chain)
  show "n = n mod 16 + 16 * (n div 2 ^ 4)" by simp
qed (use div_step [of n 4] div_step [of n 12] div_step [of n 20] div_step [of n 28] div_step [of n 36] in simp_all)


lemma fe_get_b32_val:
  assumes "fe_norm a"
  shows "of_be (secp256k1_fe_get_b32 a) = fval a"
proof -
  have lt: "unat (n0 a) < 2 ^ 52" "unat (n1 a) < 2 ^ 52" "unat (n2 a) < 2 ^ 52" "unat (n3 a) < 2 ^ 52" "unat (n4 a) < 2 ^ 48"
    using assms by (auto simp: fe_norm_def)
  have q: "unat (n1 a) div 2 ^ 44 mod 256 = unat (n1 a) div 2 ^ 44" "unat (n3 a) div 2 ^ 44 mod 256 = unat (n3 a) div 2 ^ 44"
    using lt(2,4) by (simp_all add: less_mult_imp_div_less)
  have z: "unat (n4 a) div 2 ^ 48 = 0" using lt(5) by simp
  define x where "x n k = unat n div 2 ^ k mod 256" for n :: u64 and k :: nat
  have d: "unat (n0 a) = unat (n0 a) mod 256 + 256 * (x (n0 a) 8 + 256 * x (n0 a) 16 + 256 ^ 2 * x (n0 a) 24 +
        256 ^ 3 * x (n0 a) 32 + 256 ^ 4 * x (n0 a) 40 + 256 ^ 5 * (unat (n0 a) div 2 ^ 48))"
    "unat (n1 a) = unat (n1 a) mod 16 + 16 * (x (n1 a) 4 + 256 * x (n1 a) 12 + 256 ^ 2 * x (n1 a) 20 +
        256 ^ 3 * x (n1 a) 28 + 256 ^ 4 * x (n1 a) 36 + 256 ^ 5 * x (n1 a) 44)"
    "unat (n2 a) = unat (n2 a) mod 256 + 256 * (x (n2 a) 8 + 256 * x (n2 a) 16 + 256 ^ 2 * x (n2 a) 24 +
        256 ^ 3 * x (n2 a) 32 + 256 ^ 4 * x (n2 a) 40 + 256 ^ 5 * (unat (n2 a) div 2 ^ 48))"
    "unat (n3 a) = unat (n3 a) mod 16 + 16 * (x (n3 a) 4 + 256 * x (n3 a) 12 + 256 ^ 2 * x (n3 a) 20 +
        256 ^ 3 * x (n3 a) 28 + 256 ^ 4 * x (n3 a) 36 + 256 ^ 5 * x (n3 a) 44)"
    "unat (n4 a) = unat (n4 a) mod 256 + 256 * (x (n4 a) 8 + 256 * x (n4 a) 16 + 256 ^ 2 * x (n4 a) 24 +
        256 ^ 3 * x (n4 a) 32 + 256 ^ 4 * x (n4 a) 40 + 256 ^ 5 * (unat (n4 a) div 2 ^ 48))"
    unfolding x_def q by (rule digits_top digits_low)+
  define m0 m1 m2 m3 m4 t0 t2 where m: "m0 = unat (n0 a) mod 256" "m1 = unat (n1 a) mod 16" "m2 = unat (n2 a) mod 256"
    "m3 = unat (n3 a) mod 16" "m4 = unat (n4 a) mod 256" "t0 = unat (n0 a) div 2 ^ 48" "t2 = unat (n2 a) div 2 ^ 48"
  note d' = d [folded m, unfolded z]
  have "of_be (secp256k1_fe_get_b32 a) =
      m0 + 256 * x (n0 a) 8 + 256 ^ 2 * x (n0 a) 16 + 256 ^ 3 * x (n0 a) 24 + 256 ^ 4 * x (n0 a) 32 + 256 ^ 5 * x (n0 a) 40 +
      256 ^ 6 * (t0 + m1 * 16) + 256 ^ 7 * x (n1 a) 4 + 256 ^ 8 * x (n1 a) 12 + 256 ^ 9 * x (n1 a) 20 + 256 ^ 10 * x (n1 a) 28 +
      256 ^ 11 * x (n1 a) 36 + 256 ^ 12 * x (n1 a) 44 + 256 ^ 13 * m2 + 256 ^ 14 * x (n2 a) 8 + 256 ^ 15 * x (n2 a) 16 +
      256 ^ 16 * x (n2 a) 24 + 256 ^ 17 * x (n2 a) 32 + 256 ^ 18 * x (n2 a) 40 + 256 ^ 19 * (t2 + m3 * 16) +
      256 ^ 20 * x (n3 a) 4 + 256 ^ 21 * x (n3 a) 12 + 256 ^ 22 * x (n3 a) 20 + 256 ^ 23 * x (n3 a) 28 + 256 ^ 24 * x (n3 a) 36 +
      256 ^ 25 * x (n3 a) 44 + 256 ^ 26 * m4 + 256 ^ 27 * x (n4 a) 8 + 256 ^ 28 * x (n4 a) 16 + 256 ^ 29 * x (n4 a) 24 +
      256 ^ 30 * x (n4 a) 32 + 256 ^ 31 * x (n4 a) 40"
    unfolding of_be_def secp256k1_fe_get_b32_def rev.simps append.simps of_le.simps byte_of(1) shared_byte [OF lt(1)] shared_byte [OF lt(3)]
    unfolding byte_of(2) x_def [symmetric] m [symmetric] by simp
  also have "\<dots> = fval a"
    unfolding fval_def by (subst d'(1), subst d'(2), subst d'(3), subst d'(4), subst d'(5)) simp
  finally show ?thesis .
qed

lemma fe_length_get_b32: "length (secp256k1_fe_get_b32 a) = 32"
  by (simp add: secp256k1_fe_get_b32_def)

text \<open>reading 32 big-endian bytes into a field element gives the number they encode, and the flag
  returned says whether it is below the field prime.\<close>

theorem fe_set_b32_correct:
  assumes "length bs = 32"
  shows "fval (fst (secp256k1_fe_set_b32 bs)) = of_be bs \<and> snd (secp256k1_fe_set_b32 bs) = (of_be bs < secp256k1_p)"
  using fe_set_b32_val [OF assms] by simp

theorem fe_set_b32_correct_witness:
  "fval (fst (secp256k1_fe_set_b32 ([0, 0, 0, 0, 0, 0, 0, 0, 0, 0, 0, 0, 0, 0, 0, 0, 0, 0, 0, 0, 0, 0, 0, 0, 0, 0, 0, 0, 0, 0, 0, 9]))) = 9"
  using fe_set_b32_correct [of "[0, 0, 0, 0, 0, 0, 0, 0, 0, 0, 0, 0, 0, 0, 0, 0, 0, 0, 0, 0, 0, 0, 0, 0, 0, 0, 0, 0, 0, 0, 0, 9]"] by (simp add: of_be_def)

text \<open>writing a normalized field element as 32 bytes and reading them gives the element back.\<close>

theorem fe_b32_roundtrip:
  assumes "fe_norm a"
  shows "secp256k1_fe_set_b32 (secp256k1_fe_get_b32 a) = (a, True)"
proof -
  let ?bs = "secp256k1_fe_get_b32 a"
  note v = fe_set_b32_val [OF fe_length_get_b32 [of a]]
  have lt: "fval a < secp256k1_p" using assms by (simp add: fe_norm_def)
  have "fe_norm (fst (secp256k1_fe_set_b32 ?bs))"
    using v(1,2,3) fe_get_b32_val [OF assms] lt by (simp add: fe_norm_def fe_weak_def)
  then have "fst (secp256k1_fe_set_b32 ?bs) = a"
    using fval_inject [OF _ assms] v(1) fe_get_b32_val [OF assms] by simp
  moreover have "snd (secp256k1_fe_set_b32 ?bs)" using v(4) fe_get_b32_val [OF assms] lt by simp
  ultimately show ?thesis by (metis prod.collapse)
qed

theorem fe_b32_roundtrip_witness:
  "secp256k1_fe_set_b32 (secp256k1_fe_get_b32 \<lparr>n0 = M52, n1 = 5, n2 = M52, n3 = 7, n4 = 0xFFFFFFFFFFF\<rparr>) =
   (\<lparr>n0 = M52, n1 = 5, n2 = M52, n3 = 7, n4 = 0xFFFFFFFFFFF\<rparr>, True)"
  by (rule fe_b32_roundtrip) (simp add: fe_norm_def fval_def secp256k1_p_def)

end
