(* ===== verification/Field_Inverse.thy ===== *)
theory Field_Inverse
  imports Field_Bytes
begin

text \<open>
  \<open>secp256k1/src/field_impl.h\<close>: equality, square root and inverse of field elements, and the
  inversion of a whole array with one inverse. A loop \<open>for (j=0; j<k; j++) sqr(x, x)\<close> is the
  \<open>k\<close>-fold iterate of the squaring.
\<close>

section \<open>The routines\<close>

definition secp256k1_fe_equal :: "fe \<Rightarrow> fe \<Rightarrow> bool" where
  "secp256k1_fe_equal a b =
     (let na = secp256k1_fe_negate a 1; na = secp256k1_fe_add na b in secp256k1_fe_normalizes_to_zero na)"

definition secp256k1_fe_equal_var :: "fe \<Rightarrow> fe \<Rightarrow> bool" where
  "secp256k1_fe_equal_var a b =
     (let na = secp256k1_fe_negate a 1; na = secp256k1_fe_add na b in secp256k1_fe_normalizes_to_zero_var na)"

definition secp256k1_fe_sqrt :: "fe \<Rightarrow> fe \<times> bool" where
  "secp256k1_fe_sqrt a =
     (let mul = secp256k1_fe_mul; sqr = secp256k1_fe_sqr;
          x2 = sqr a; x2 = mul x2 a;
          x3 = sqr x2; x3 = mul x3 a;
          x6 = (sqr ^^ 3) x3; x6 = mul x6 x3;
          x9 = (sqr ^^ 3) x6; x9 = mul x9 x3;
          x11 = (sqr ^^ 2) x9; x11 = mul x11 x2;
          x22 = (sqr ^^ 11) x11; x22 = mul x22 x11;
          x44 = (sqr ^^ 22) x22; x44 = mul x44 x22;
          x88 = (sqr ^^ 44) x44; x88 = mul x88 x44;
          x176 = (sqr ^^ 88) x88; x176 = mul x176 x88;
          x220 = (sqr ^^ 44) x176; x220 = mul x220 x44;
          x223 = (sqr ^^ 3) x220; x223 = mul x223 x3;
          t1 = (sqr ^^ 23) x223; t1 = mul t1 x22;
          t1 = (sqr ^^ 6) t1; t1 = mul t1 x2;
          t1 = sqr t1;
          r = sqr t1;
          t1 = sqr r
      in (r, secp256k1_fe_equal t1 a))"

definition secp256k1_fe_inv :: "fe \<Rightarrow> fe" where
  "secp256k1_fe_inv a =
     (let mul = secp256k1_fe_mul; sqr = secp256k1_fe_sqr;
          x2 = sqr a; x2 = mul x2 a;
          x3 = sqr x2; x3 = mul x3 a;
          x6 = (sqr ^^ 3) x3; x6 = mul x6 x3;
          x9 = (sqr ^^ 3) x6; x9 = mul x9 x3;
          x11 = (sqr ^^ 2) x9; x11 = mul x11 x2;
          x22 = (sqr ^^ 11) x11; x22 = mul x22 x11;
          x44 = (sqr ^^ 22) x22; x44 = mul x44 x22;
          x88 = (sqr ^^ 44) x44; x88 = mul x88 x44;
          x176 = (sqr ^^ 88) x88; x176 = mul x176 x88;
          x220 = (sqr ^^ 44) x176; x220 = mul x220 x44;
          x223 = (sqr ^^ 3) x220; x223 = mul x223 x3;
          t1 = (sqr ^^ 23) x223; t1 = mul t1 x22;
          t1 = (sqr ^^ 5) t1; t1 = mul t1 a;
          t1 = (sqr ^^ 3) t1; t1 = mul t1 x2;
          t1 = (sqr ^^ 2) t1
      in mul a t1)"

definition secp256k1_fe_inv_var :: "fe \<Rightarrow> fe" where
  "secp256k1_fe_inv_var a = secp256k1_fe_inv a"

definition secp256k1_fe_is_quad_var :: "fe \<Rightarrow> bool" where
  "secp256k1_fe_is_quad_var a = snd (secp256k1_fe_sqrt a)"

text \<open>
  The first loop of \<open>secp256k1_fe_inv_all_var\<close> fills \<open>r[i]\<close> with the product of \<open>a[0..i]\<close>;
  the second goes down from the last index \<open>i\<close>, keeping in \<open>u\<close> the inverse of that product.
\<close>

function inv_all_up :: "fe list \<Rightarrow> fe list \<Rightarrow> nat \<Rightarrow> fe list" where
  "inv_all_up a r i = (if i < length a
     then inv_all_up a (r[i := secp256k1_fe_mul (r ! (i - 1)) (a ! i)]) (i + 1) else r)"
  by pat_completeness auto

termination inv_all_up
  by (relation "measure (\<lambda>(a, r, i). length a - i)") auto

declare inv_all_up.simps [simp del]

fun inv_all_down :: "fe list \<Rightarrow> fe list \<Rightarrow> fe \<Rightarrow> nat \<Rightarrow> fe list \<times> fe" where
  "inv_all_down a r u 0 = (r, u)"
| "inv_all_down a r u (Suc i) =
     inv_all_down a (r[Suc i := secp256k1_fe_mul (r ! i) u]) (secp256k1_fe_mul u (a ! Suc i)) i"

definition secp256k1_fe_inv_all_var :: "fe list \<Rightarrow> fe list \<Rightarrow> fe list" where
  "secp256k1_fe_inv_all_var r a =
     (if length a < 1 then r
      else let r = r[0 := a ! 0];
               r = inv_all_up a r 1;
               i = length a - 1;
               u = secp256k1_fe_inv_var (r ! i);
               (r, u) = inv_all_down a r u i
           in r[0 := u])"

section \<open>Equality\<close>

lemma fe_diff_zero:
  assumes "fe_mag 1 a" "fe_mag m b" "m \<le> 400"
  defines "d \<equiv> secp256k1_fe_add (secp256k1_fe_negate a 1) b"
  shows "fe_loose d \<and> (fval d mod secp256k1_p = 0) = (fval a mod secp256k1_p = fval b mod secp256k1_p)"
proof -
  have n: "fval (secp256k1_fe_negate a 1) + fval a = 4 * secp256k1_p" "fe_mag 2 (secp256k1_fe_negate a 1)"
    using fe_negate_val [OF assms(1)] by (simp_all add: numeral_2_eq_2)
  have s: "fval d = fval (secp256k1_fe_negate a 1) + fval b" "fe_mag (2 + m) d"
    using fe_add_val [OF n(2) assms(2)] assms(3) by (simp_all add: d_def)
  have "fval d + fval a = fval b + 4 * secp256k1_p" using n(1) s(1) by simp
  then have "int (fval d) = int (fval b) - int (fval a) + 4 * int secp256k1_p" by linarith
  then have "(int secp256k1_p dvd int (fval d)) = (int secp256k1_p dvd int (fval b) - int (fval a))"
    by (simp add: dvd_add_left_iff)
  then have "(secp256k1_p dvd fval d) = (int (fval b) mod int secp256k1_p = int (fval a) mod int secp256k1_p)"
    by (simp only: mod_eq_dvd_iff of_nat_dvd_iff)
  then have "(fval d mod secp256k1_p = 0) = (fval b mod secp256k1_p = fval a mod secp256k1_p)"
    by (simp only: dvd_eq_mod_eq_0 of_nat_mod [symmetric] of_nat_eq_iff)
  then show ?thesis using fe_mag_loose [OF s(2)] assms(3) by auto
qed

lemma fe_equal_val:
  assumes "fe_mag 1 a" "fe_mag m b" "m \<le> 400"
  shows "secp256k1_fe_equal a b = (fval a mod secp256k1_p = fval b mod secp256k1_p) \<and>
    secp256k1_fe_equal_var a b = (fval a mod secp256k1_p = fval b mod secp256k1_p)"
  using fe_diff_zero [OF assms] normalizes_to_zero_val normalizes_to_zero_var_eq
  by (simp add: secp256k1_fe_equal_def secp256k1_fe_equal_var_def Let_def)

section \<open>The addition chains\<close>

text \<open>The blocks of ones that both chains build: \<open>xN\<close> is the power with exponent \<open>2^N - 1\<close>.\<close>

lemma fe_chain:
  fixes a :: fe
  assumes "fe_small a"
  defines "mul \<equiv> secp256k1_fe_mul" and "sqr \<equiv> secp256k1_fe_sqr"
  defines "x2 \<equiv> mul (sqr a) a"
  defines "x3 \<equiv> mul (sqr x2) a"
  defines "x6 \<equiv> mul ((sqr ^^ 3) x3) x3"
  defines "x9 \<equiv> mul ((sqr ^^ 3) x6) x3"
  defines "x11 \<equiv> mul ((sqr ^^ 2) x9) x2"
  defines "x22 \<equiv> mul ((sqr ^^ 11) x11) x11"
  defines "x44 \<equiv> mul ((sqr ^^ 22) x22) x22"
  defines "x88 \<equiv> mul ((sqr ^^ 44) x44) x44"
  defines "x176 \<equiv> mul ((sqr ^^ 88) x88) x88"
  defines "x220 \<equiv> mul ((sqr ^^ 44) x176) x44"
  defines "x223 \<equiv> mul ((sqr ^^ 3) x220) x3"
  shows "fe_power.raised a 3 x2 \<and> fe_power.raised a (2 ^ 22 - 1) x22 \<and> fe_power.raised a (2 ^ 223 - 1) x223"
proof -
  note w = fe_power.raised_window [of a, folded mul_def sqr_def] and m = fe_power.raised_mul [of a, folded mul_def]
    and q = fe_power.raised_sqr [of a, folded sqr_def]
  have 1: "fe_power.raised a 1 a" by (rule fe_power.raised_self) (rule assms(1))
  have x2: "fe_power.raised a 3 x2" using m [OF q [OF 1] 1] by (simp add: x2_def)
  have x3: "fe_power.raised a 7 x3" using m [OF q [OF x2] 1] by (simp add: x3_def)
  have x6: "fe_power.raised a (2 ^ 6 - 1) x6" using w [OF x3 x3, of 3] by (simp add: x6_def)
  have x9: "fe_power.raised a (2 ^ 9 - 1) x9" using w [OF x6 x3, of 3] by (simp add: x9_def)
  have x11: "fe_power.raised a (2 ^ 11 - 1) x11" using w [OF x9 x2, of 2] by (simp add: x11_def)
  have x22: "fe_power.raised a (2 ^ 22 - 1) x22" using w [OF x11 x11, of 11] by (simp add: x22_def)
  have x44: "fe_power.raised a (2 ^ 44 - 1) x44" using w [OF x22 x22, of 22] by (simp add: x44_def)
  have x88: "fe_power.raised a (2 ^ 88 - 1) x88" using w [OF x44 x44, of 44] by (simp add: x88_def)
  have x176: "fe_power.raised a (2 ^ 176 - 1) x176" using w [OF x88 x88, of 88] by (simp add: x176_def)
  have x220: "fe_power.raised a (2 ^ 220 - 1) x220" using w [OF x176 x44, of 44] by (simp add: x220_def)
  have x223: "fe_power.raised a (2 ^ 223 - 1) x223" using w [OF x220 x3, of 3] by (simp add: x223_def)
  show ?thesis using x2 x22 x223 by blast
qed

lemma inv_raised: "fe_small a \<Longrightarrow> fe_power.raised a (secp256k1_p - 2) (secp256k1_fe_inv a)"
proof -
  assume a: "fe_small a"
  note w = fe_power.raised_window [of a] and m = fe_power.raised_mul [of a] and qs = fe_power.raised_sqrs [of a]
  have 1: "fe_power.raised a 1 a" by (rule fe_power.raised_self) (rule a)
  note x = fe_chain [OF a]
  have "secp256k1_p - 2 = 1 + 2 ^ 2 * (2 ^ 3 * (2 ^ 5 * (2 ^ 23 * (2 ^ 223 - 1) + (2 ^ 22 - 1)) + 1) + 3)"
    by (simp add: secp256k1_p_def)
  then show ?thesis
    using m [OF 1 qs [OF w [OF w [OF w [OF conjunct2 [OF conjunct2 [OF x]] conjunct1 [OF conjunct2 [OF x]], of 23] 1, of 5] conjunct1 [OF x], of 3], of 2]]
    unfolding secp256k1_fe_inv_def Let_def by (simp only:)
qed

lemma sqrt_raised: "fe_small a \<Longrightarrow> fe_power.raised a ((secp256k1_p + 1) div 4) (fst (secp256k1_fe_sqrt a))"
proof -
  assume a: "fe_small a"
  note w = fe_power.raised_window [of a] and q = fe_power.raised_sqr [of a]
  note x = fe_chain [OF a]
  have "(secp256k1_p + 1) div 4 = 2 * (2 * (2 ^ 6 * (2 ^ 23 * (2 ^ 223 - 1) + (2 ^ 22 - 1)) + 3))"
    by (simp add: secp256k1_p_def)
  then show ?thesis
    using q [OF q [OF w [OF w [OF conjunct2 [OF conjunct2 [OF x]] conjunct1 [OF conjunct2 [OF x]], of 23] conjunct1 [OF x], of 6]]]
    unfolding secp256k1_fe_sqrt_def Let_def by (simp only: fst_conv)
qed

lemma sqrt_flag:
  "snd (secp256k1_fe_sqrt a) = secp256k1_fe_equal (secp256k1_fe_sqr (fst (secp256k1_fe_sqrt a))) a"
  by (simp add: secp256k1_fe_sqrt_def Let_def)

text \<open>the addition chain of \<open>secp256k1_fe_inv\<close> raises a field element to the power \<open>p - 2\<close>
  modulo the field prime \<open>p\<close>.\<close>

theorem fe_inv_power:
  assumes "fe_small a"
  shows "fval (secp256k1_fe_inv a) mod secp256k1_p = fval a ^ (secp256k1_p - 2) mod secp256k1_p \<and>
    fval (secp256k1_fe_mul a (secp256k1_fe_inv a)) mod secp256k1_p = fval a ^ (secp256k1_p - 1) mod secp256k1_p"
proof -
  have i: "fe_small (secp256k1_fe_inv a)" "fval (secp256k1_fe_inv a) mod secp256k1_p = fval a ^ (secp256k1_p - 2) mod secp256k1_p"
    using inv_raised [OF assms] by (auto simp: fe_power.raised_def)
  have "secp256k1_p - 1 = Suc (secp256k1_p - 2)" by (simp add: secp256k1_p_def)
  then show ?thesis using fe_mul_val [OF assms i(1)] i(2) by (metis mod_mult_right_eq power_Suc)
qed

theorem fe_inv_power_witness:
  "fval (secp256k1_fe_inv (secp256k1_fe_set_int 2)) mod secp256k1_p = 2 ^ (secp256k1_p - 2) mod secp256k1_p"
  using conjunct1 [OF fe_inv_power [of "secp256k1_fe_set_int 2"]]
  by (simp add: fe_small_def secp256k1_fe_set_int_def fval_def)

text \<open>\<open>secp256k1_fe_sqrt\<close> computes the power with exponent \<open>(p + 1) / 4\<close> and returns whether
  the square of it is the argument, which is what the quadratic residue test reports too.\<close>

theorem fe_sqrt_correct:
  assumes "fe_mag m a" "m \<le> 8"
  shows "fval (fst (secp256k1_fe_sqrt a)) mod secp256k1_p = fval a ^ ((secp256k1_p + 1) div 4) mod secp256k1_p \<and>
    snd (secp256k1_fe_sqrt a) = (fval (fst (secp256k1_fe_sqrt a)) ^ 2 mod secp256k1_p = fval a mod secp256k1_p) \<and>
    secp256k1_fe_is_quad_var a = (fval a ^ ((secp256k1_p + 1) div 4 * 2) mod secp256k1_p = fval a mod secp256k1_p)"
proof -
  let ?r = "fst (secp256k1_fe_sqrt a)"
  have r: "fe_small ?r" "fval ?r mod secp256k1_p = fval a ^ ((secp256k1_p + 1) div 4) mod secp256k1_p"
    using sqrt_raised [OF fe_mag_small [OF assms]] by (auto simp: fe_power.raised_def)
  note s = fe_sqr_val [OF r(1)]
  have "snd (secp256k1_fe_sqrt a) = (fval ?r ^ 2 mod secp256k1_p = fval a mod secp256k1_p)"
    using fe_equal_val [OF fe_weak_mag [OF conjunct1 [OF s]] assms(1)] s assms(2) unfolding sqrt_flag by (simp add: power2_eq_square)
  moreover have "fval ?r ^ 2 mod secp256k1_p = fval a ^ ((secp256k1_p + 1) div 4 * 2) mod secp256k1_p"
    using r(2) by (metis power_mod power_mult)
  ultimately show ?thesis using r(2) by (simp only: secp256k1_fe_is_quad_var_def)
qed

theorem fe_sqrt_correct_witness:
  "secp256k1_fe_is_quad_var (secp256k1_fe_set_int 1) \<and> fe_mag 1 (secp256k1_fe_set_int 1)"
proof -
  have m: "fe_mag 1 (secp256k1_fe_set_int 1)" and v: "fval (secp256k1_fe_set_int 1) = 1"
    by (simp_all add: fe_mag_def secp256k1_fe_set_int_def fval_def)
  show ?thesis using m conjunct2 [OF conjunct2 [OF fe_sqrt_correct [OF m]]] by (simp add: v)
qed

section \<open>Inverting an array\<close>

definition prefix_val :: "fe list \<Rightarrow> nat \<Rightarrow> nat" where
  "prefix_val a k = (\<Prod>x\<leftarrow>take (Suc k) a. fval x)"

lemma prefix_val_Suc: "Suc k < length a \<Longrightarrow> prefix_val a (Suc k) = prefix_val a k * fval (a ! Suc k)"
  by (simp add: prefix_val_def take_Suc_conv_app_nth [of "Suc k" a])

definition prefixes :: "fe list \<Rightarrow> fe list \<Rightarrow> nat \<Rightarrow> bool" where
  "prefixes a r i = (\<forall>k<i. fe_small (r ! k) \<and> fval (r ! k) mod secp256k1_p = prefix_val a k mod secp256k1_p)"

lemma fe_mul_mod:
  assumes "fe_small x" "fe_small y"
    and "fval x mod secp256k1_p = u mod secp256k1_p" "fval y mod secp256k1_p = v mod secp256k1_p"
  shows "fe_small (secp256k1_fe_mul x y) \<and> fval (secp256k1_fe_mul x y) mod secp256k1_p = u * v mod secp256k1_p"
  using fe_mul_val [OF assms(1,2)] fe_weak_small mod_mult_cong [OF assms(3,4)] by simp

lemma inv_all_up_val:
  assumes "list_all fe_small a" "length r = length a" "prefixes a r i" "0 < i" "i \<le> length a"
  shows "prefixes a (inv_all_up a r i) (length a) \<and> length (inv_all_up a r i) = length a"
  using assms
proof (induction a r i rule: inv_all_up.induct)
  case (1 a r i)
  show ?case
  proof (cases "i < length a")
    case True
    obtain j where j: "i = Suc j" using "1.prems"(4) by (cases i) auto
    let ?r = "r[i := secp256k1_fe_mul (r ! (i - 1)) (a ! i)]"
    have "fe_small (secp256k1_fe_mul (r ! j) (a ! i)) \<and>
        fval (secp256k1_fe_mul (r ! j) (a ! i)) mod secp256k1_p = prefix_val a j * fval (a ! i) mod secp256k1_p"
      using "1.prems" True j by (intro fe_mul_mod) (auto simp: prefixes_def list_all_length)
    then have "prefixes a ?r (i + 1)"
      using "1.prems" True j by (auto simp: prefixes_def less_Suc_eq prefix_val_Suc)
    then show ?thesis using "1.IH" [OF True] "1.prems" True by (simp add: inv_all_up.simps [of a r i])
  next
    case False
    then have "inv_all_up a r i = r" "i = length a" using "1.prems"(5) by (auto simp: inv_all_up.simps)
    then show ?thesis using "1.prems" by simp
  qed
qed

text \<open>At index \<open>i\<close> of the loop down: \<open>u\<close> times the prefix up to \<open>i\<close> is \<open>E\<close>, and each entry above
  \<open>i\<close> times the element there is \<open>E\<close> already.\<close>

lemma inv_all_down_val:
  assumes "list_all fe_small a" "length r = length a" "i < length a" "prefixes a r (Suc i)" "fe_small u"
    and "fval u * prefix_val a i mod secp256k1_p = E"
    and "\<forall>k<length a. i < k \<longrightarrow> fval (r ! k) * fval (a ! k) mod secp256k1_p = E"
    and "inv_all_down a r u i = (r', u')"
  shows "length r' = length a \<and> fval u' * fval (a ! 0) mod secp256k1_p = E \<and>
    (\<forall>k<length a. 0 < k \<longrightarrow> fval (r' ! k) * fval (a ! k) mod secp256k1_p = E)"
  using assms
proof (induction i arbitrary: r u)
  case 0
  then show ?case by (cases a) (auto simp: prefix_val_def)
next
  case (Suc i)
  let ?m = "secp256k1_fe_mul (r ! i) u" and ?u = "secp256k1_fe_mul u (a ! Suc i)"
  have m: "fe_small ?m" "fval ?m mod secp256k1_p = prefix_val a i * fval u mod secp256k1_p"
    using Suc.prems fe_mul_mod [of "r ! i" u "prefix_val a i" "fval u"] by (auto simp: prefixes_def)
  have u: "fe_small ?u" "fval ?u mod secp256k1_p = fval u * fval (a ! Suc i) mod secp256k1_p"
    using Suc.prems fe_mul_mod [of u "a ! Suc i" "fval u" "fval (a ! Suc i)"] by (auto simp: list_all_length)
  have pre: "prefix_val a (Suc i) = prefix_val a i * fval (a ! Suc i)" by (rule prefix_val_Suc [OF Suc.prems(3)])
  have e1: "fval ?m * fval (a ! Suc i) mod secp256k1_p = E"
    using mod_mult_cong [OF m(2) refl, of "fval (a ! Suc i)"] Suc.prems(6) by (simp add: pre ac_simps)
  have e2: "fval ?u * prefix_val a i mod secp256k1_p = E"
    using mod_mult_cong [OF u(2) refl, of "prefix_val a i"] Suc.prems(6) by (simp add: pre ac_simps)
  show ?case
  proof (rule Suc.IH [OF Suc.prems(1) _ _ _ u(1) e2])
    show "\<forall>k<length a. i < k \<longrightarrow> fval (r[Suc i := ?m] ! k) * fval (a ! k) mod secp256k1_p = E"
      using Suc.prems(2,3,7) e1 by (auto simp: nth_list_update)
    show "prefixes a (r[Suc i := ?m]) (Suc i)" using Suc.prems(4) by (auto simp: prefixes_def)
  qed (use Suc.prems in auto)
qed

text \<open>batch inversion: with one inversion and three multiplications per element,
  \<open>secp256k1_fe_inv_all_var\<close> gives for every element of the array a number whose product with it is
  the power with exponent \<open>p - 1\<close> of the product of them all, which is 1 when no element is zero.\<close>

theorem fe_inv_all_correct:
  assumes "list_all fe_small a" "length r = length a" "k < length a"
  shows "fval (secp256k1_fe_inv_all_var r a ! k) * fval (a ! k) mod secp256k1_p =
    (\<Prod>x\<leftarrow>a. fval x) ^ (secp256k1_p - 1) mod secp256k1_p"
proof -
  let ?n = "length a - 1" and ?P = "\<Prod>x\<leftarrow>a. fval x"
  have n: "?n < length a" "Suc ?n = length a" using assms(3) by auto
  define r0 where "r0 = r[0 := a ! 0]"
  define r1 where "r1 = inv_all_up a r0 1"
  define u where "u = secp256k1_fe_inv (r1 ! ?n)"
  obtain r2 u2 where d: "inv_all_down a r1 u ?n = (r2, u2)" by force
  have "fe_small (a ! 0)" using assms(1,3) by (cases a) auto
  moreover have "r0 ! 0 = a ! 0" using assms(2,3) by (cases r) (auto simp: r0_def)
  moreover have "prefix_val a 0 = fval (a ! 0)" using assms(3) by (cases a) (auto simp: prefix_val_def)
  ultimately have "prefixes a r0 1" by (simp add: prefixes_def)
  then have r1: "prefixes a r1 (length a)" "length r1 = length a"
    using inv_all_up_val [OF assms(1), of r0 1] assms(2,3) by (auto simp: r1_def r0_def)
  have top: "prefix_val a ?n = ?P" using n(2) by (simp add: prefix_val_def)
  have s: "fe_small (r1 ! ?n)" "fval (r1 ! ?n) mod secp256k1_p = ?P mod secp256k1_p"
    using r1(1) n(1) top by (auto simp: prefixes_def)
  have u: "fe_small u" "fval u mod secp256k1_p = fval (r1 ! ?n) ^ (secp256k1_p - 2) mod secp256k1_p"
    using inv_raised [OF s(1)] by (auto simp: fe_power.raised_def u_def)
  have um: "fval u mod secp256k1_p = ?P ^ (secp256k1_p - 2) mod secp256k1_p" using u(2) s(2) by (metis power_mod)
  have p1: "secp256k1_p - 1 = Suc (secp256k1_p - 2)" by (simp add: secp256k1_p_def)
  have "fval u * prefix_val a ?n mod secp256k1_p = ?P ^ (secp256k1_p - 1) mod secp256k1_p"
    using mod_mult_cong [OF um refl, of ?P] unfolding top p1 power_Suc2 .
  from inv_all_down_val [OF assms(1) r1(2) n(1) _ u(1) this _ d] r1(1) n(2)
  have fin: "length r2 = length a" "fval u2 * fval (a ! 0) mod secp256k1_p = ?P ^ (secp256k1_p - 1) mod secp256k1_p"
    "\<forall>k<length a. 0 < k \<longrightarrow> fval (r2 ! k) * fval (a ! k) mod secp256k1_p = ?P ^ (secp256k1_p - 1) mod secp256k1_p"
    by auto
  have "secp256k1_fe_inv_all_var r a = r2[0 := u2]"
    using assms(3) d by (auto simp add: secp256k1_fe_inv_all_var_def secp256k1_fe_inv_var_def r0_def r1_def u_def Let_def)
  then show ?thesis using fin assms(3) by (cases "k = 0") auto
qed

theorem fe_inv_all_correct_witness:
  "fval (secp256k1_fe_inv_all_var [secp256k1_fe_set_int 0, secp256k1_fe_set_int 0] [secp256k1_fe_set_int 2, secp256k1_fe_set_int 3] ! 1) * 3
     mod secp256k1_p = 6 ^ (secp256k1_p - 1) mod secp256k1_p"
  using fe_inv_all_correct [of "[secp256k1_fe_set_int 2, secp256k1_fe_set_int 3]" "[secp256k1_fe_set_int 0, secp256k1_fe_set_int 0]" 1]
  by (simp add: fe_small_def secp256k1_fe_set_int_def fval_def)

end
