(* ===== verification/Group.thy ===== *)
theory Group
  imports Field_Inverse
begin

text \<open>
  Points of secp256k1 (\<open>secp256k1/src/group.h\<close>, \<open>group_impl.h\<close>): affine (\<open>ge\<close>) and Jacobian
  (\<open>gej\<close>) coordinates on the field elements of \<open>Field_5x52\<close>. Where a function leaves members of
  its result as they were, the old value is the argument \<open>r\<close>. The ratio of the z coordinates,
  stored through \<open>rzr\<close> unless it is null, is the second result; \<open>None\<close> where nothing is stored.
\<close>

record ge =
  ge_x :: fe
  ge_y :: fe
  ge_infinity :: bool

record gej =
  gej_x :: fe
  gej_y :: fe
  gej_z :: fe
  gej_infinity :: bool

record ge_storage =
  gs_x :: fe_storage
  gs_y :: fe_storage

abbreviation CURVE_B :: u64 where
  "CURVE_B \<equiv> 7"

text \<open>\<open>SECP256K1_FE_CONST\<close> packs eight 32-bit words, the most significant first.\<close>

definition secp256k1_fe_const :: "u32 \<Rightarrow> u32 \<Rightarrow> u32 \<Rightarrow> u32 \<Rightarrow> u32 \<Rightarrow> u32 \<Rightarrow> u32 \<Rightarrow> u32 \<Rightarrow> fe" where
  "secp256k1_fe_const d7 d6 d5 d4 d3 d2 d1 d0 =
     \<lparr>n0 = ucast d0 OR push_bit 32 (ucast d1 AND 0xFFFFF),
      n1 = drop_bit 20 (ucast d1) OR push_bit 12 (ucast d2) OR push_bit 44 (ucast d3 AND 0xFF),
      n2 = drop_bit 8 (ucast d3) OR push_bit 24 (ucast d4 AND 0xFFFFFFF),
      n3 = drop_bit 28 (ucast d4) OR push_bit 4 (ucast d5) OR push_bit 36 (ucast d6 AND 0xFFFF),
      n4 = drop_bit 16 (ucast d6) OR push_bit 16 (ucast d7)\<rparr>"

definition secp256k1_ge_const_g :: ge where
  "secp256k1_ge_const_g =
     \<lparr>ge_x = secp256k1_fe_const 0x79BE667E 0xF9DCBBAC 0x55A06295 0xCE870B07 0x029BFCDB 0x2DCE28D9 0x59F2815B 0x16F81798,
      ge_y = secp256k1_fe_const 0x483ADA77 0x26A3C465 0x5DA4FBFC 0x0E1108A8 0xFD17B448 0xA6855419 0x9C47D08F 0xFB10D4B8,
      ge_infinity = False\<rparr>"

section \<open>Conversions\<close>

definition secp256k1_ge_set_gej_zinv :: "gej \<Rightarrow> fe \<Rightarrow> ge" where
  "secp256k1_ge_set_gej_zinv a zi =
     (let zi2 = secp256k1_fe_sqr zi; zi3 = secp256k1_fe_mul zi2 zi
      in \<lparr>ge_x = secp256k1_fe_mul (gej_x a) zi2, ge_y = secp256k1_fe_mul (gej_y a) zi3, ge_infinity = gej_infinity a\<rparr>)"

definition secp256k1_ge_set_xy :: "fe \<Rightarrow> fe \<Rightarrow> ge" where
  "secp256k1_ge_set_xy x y = \<lparr>ge_x = x, ge_y = y, ge_infinity = False\<rparr>"

definition secp256k1_ge_is_infinity :: "ge \<Rightarrow> bool" where
  "secp256k1_ge_is_infinity a = ge_infinity a"

definition secp256k1_ge_neg :: "ge \<Rightarrow> ge" where
  "secp256k1_ge_neg a = a\<lparr>ge_y := secp256k1_fe_negate (secp256k1_fe_normalize_weak (ge_y a)) 1\<rparr>"

text \<open>Both conversions also change the argument.\<close>

definition secp256k1_ge_set_gej :: "gej \<Rightarrow> ge \<times> gej" where
  "secp256k1_ge_set_gej a =
     (let z = secp256k1_fe_inv (gej_z a); z2 = secp256k1_fe_sqr z; z3 = secp256k1_fe_mul z z2;
          x = secp256k1_fe_mul (gej_x a) z2; y = secp256k1_fe_mul (gej_y a) z3
      in (\<lparr>ge_x = x, ge_y = y, ge_infinity = gej_infinity a\<rparr>,
          a\<lparr>gej_x := x, gej_y := y, gej_z := secp256k1_fe_set_int 1\<rparr>))"

definition secp256k1_ge_set_gej_var :: "ge \<Rightarrow> gej \<Rightarrow> ge \<times> gej" where
  "secp256k1_ge_set_gej_var r a =
     (if gej_infinity a then (r\<lparr>ge_infinity := True\<rparr>, a)
      else
        let z = secp256k1_fe_inv_var (gej_z a); z2 = secp256k1_fe_sqr z; z3 = secp256k1_fe_mul z z2;
            x = secp256k1_fe_mul (gej_x a) z2; y = secp256k1_fe_mul (gej_y a) z3
        in (\<lparr>ge_x = x, ge_y = y, ge_infinity = False\<rparr>, a\<lparr>gej_x := x, gej_y := y, gej_z := secp256k1_fe_set_int 1\<rparr>))"

text \<open>The inverses are taken for the points that are not at infinity; \<open>azi\<close> is the new array they go to.\<close>

fun set_all_loop :: "ge list \<Rightarrow> gej list \<Rightarrow> fe list \<Rightarrow> ge list" where
  "set_all_loop (r # rs) (a # as) azi =
     (if gej_infinity a then r\<lparr>ge_infinity := True\<rparr> # set_all_loop rs as azi
      else (case azi of [] \<Rightarrow> r # rs | zi # azi \<Rightarrow> secp256k1_ge_set_gej_zinv a zi # set_all_loop rs as azi))"
| "set_all_loop rs _ azi = rs"

definition secp256k1_ge_set_all_gej_var :: "fe list \<Rightarrow> ge list \<Rightarrow> gej list \<Rightarrow> ge list" where
  "secp256k1_ge_set_all_gej_var mem r a =
     (let az = map gej_z (filter (\<lambda>p. \<not> gej_infinity p) a)
      in set_all_loop r a (secp256k1_fe_inv_all_var (take (length az) mem) az))"

text \<open>The loops over a table run from its end; the lists are given reversed.\<close>

fun set_table_loop :: "gej list \<Rightarrow> fe list \<Rightarrow> fe \<Rightarrow> ge list" where
  "set_table_loop (a # as) (z # zs) zi =
     (let zi = secp256k1_fe_mul zi z in secp256k1_ge_set_gej_zinv a zi # set_table_loop as zs zi)"
| "set_table_loop _ _ zi = []"

definition secp256k1_ge_set_table_gej_var :: "gej list \<Rightarrow> fe list \<Rightarrow> ge list" where
  "secp256k1_ge_set_table_gej_var a zr =
     (case rev a of [] \<Rightarrow> []
      | p # ps \<Rightarrow>
          let zi = secp256k1_fe_inv (gej_z p)
          in rev (secp256k1_ge_set_gej_zinv p zi # set_table_loop ps (rev zr) zi))"

fun globalz_loop :: "gej list \<Rightarrow> fe list \<Rightarrow> fe \<Rightarrow> ge list" where
  "globalz_loop (a # as) (z # zs) s =
     (let s = secp256k1_fe_mul s z in secp256k1_ge_set_gej_zinv a s # globalz_loop as zs s)"
| "globalz_loop _ _ s = []"

text \<open>The first step back takes the ratio of the last entry as it is.\<close>

definition secp256k1_ge_globalz_set_table_gej :: "gej list \<Rightarrow> fe list \<Rightarrow> ge list \<times> fe option" where
  "secp256k1_ge_globalz_set_table_gej a zr =
     (case rev a of [] \<Rightarrow> ([], None)
      | p # ps \<Rightarrow>
          let r = \<lparr>ge_x = gej_x p, ge_y = gej_y p, ge_infinity = False\<rparr> in
          (case (ps, rev zr) of
             (q # qs, zs # zr') \<Rightarrow> (rev (r # secp256k1_ge_set_gej_zinv q zs # globalz_loop qs zr' zs), Some (gej_z p))
           | _ \<Rightarrow> ([r], Some (gej_z p))))"

definition secp256k1_gej_set_infinity :: "gej \<Rightarrow> gej" where
  "secp256k1_gej_set_infinity r =
     \<lparr>gej_x = secp256k1_fe_clear (gej_x r), gej_y = secp256k1_fe_clear (gej_y r), gej_z = secp256k1_fe_clear (gej_z r), gej_infinity = True\<rparr>"

definition secp256k1_ge_set_infinity :: "ge \<Rightarrow> ge" where
  "secp256k1_ge_set_infinity r = \<lparr>ge_x = secp256k1_fe_clear (ge_x r), ge_y = secp256k1_fe_clear (ge_y r), ge_infinity = True\<rparr>"

definition secp256k1_gej_clear :: "gej \<Rightarrow> gej" where
  "secp256k1_gej_clear r =
     \<lparr>gej_x = secp256k1_fe_clear (gej_x r), gej_y = secp256k1_fe_clear (gej_y r), gej_z = secp256k1_fe_clear (gej_z r), gej_infinity = False\<rparr>"

definition secp256k1_ge_clear :: "ge \<Rightarrow> ge" where
  "secp256k1_ge_clear r = \<lparr>ge_x = secp256k1_fe_clear (ge_x r), ge_y = secp256k1_fe_clear (ge_y r), ge_infinity = False\<rparr>"

definition secp256k1_ge_set_xquad :: "fe \<Rightarrow> ge \<times> bool" where
  "secp256k1_ge_set_xquad x =
     (let x2 = secp256k1_fe_sqr x; x3 = secp256k1_fe_mul x x2;
          c = secp256k1_fe_add (secp256k1_fe_set_int CURVE_B) x3;
          (y, ok) = secp256k1_fe_sqrt c
      in (\<lparr>ge_x = x, ge_y = y, ge_infinity = False\<rparr>, ok))"

definition secp256k1_ge_set_xo_var :: "fe \<Rightarrow> bool \<Rightarrow> ge \<times> bool" where
  "secp256k1_ge_set_xo_var x odd_y =
     (let (r, ok) = secp256k1_ge_set_xquad x in
      if \<not> ok then (r, False)
      else
        let r = r\<lparr>ge_y := secp256k1_fe_normalize_var (ge_y r)\<rparr>
        in (if secp256k1_fe_is_odd (ge_y r) \<noteq> odd_y then r\<lparr>ge_y := secp256k1_fe_negate (ge_y r) 1\<rparr> else r, True))"

definition secp256k1_gej_set_ge :: "ge \<Rightarrow> gej" where
  "secp256k1_gej_set_ge a =
     \<lparr>gej_x = ge_x a, gej_y = ge_y a, gej_z = secp256k1_fe_set_int 1, gej_infinity = ge_infinity a\<rparr>"

definition secp256k1_gej_eq_x_var :: "fe \<Rightarrow> gej \<Rightarrow> bool" where
  "secp256k1_gej_eq_x_var x a =
     (let r = secp256k1_fe_mul (secp256k1_fe_sqr (gej_z a)) x; r2 = secp256k1_fe_normalize_weak (gej_x a)
      in secp256k1_fe_equal_var r r2)"

definition secp256k1_gej_neg :: "gej \<Rightarrow> gej" where
  "secp256k1_gej_neg a = a\<lparr>gej_y := secp256k1_fe_negate (secp256k1_fe_normalize_weak (gej_y a)) 1\<rparr>"

definition secp256k1_gej_is_infinity :: "gej \<Rightarrow> bool" where
  "secp256k1_gej_is_infinity a = gej_infinity a"

definition secp256k1_gej_is_valid_var :: "gej \<Rightarrow> bool" where
  "secp256k1_gej_is_valid_var a =
     (if gej_infinity a then False
      else
        let y2 = secp256k1_fe_sqr (gej_y a);
            x3 = secp256k1_fe_mul (secp256k1_fe_sqr (gej_x a)) (gej_x a);
            z2 = secp256k1_fe_sqr (gej_z a);
            z6 = secp256k1_fe_mul (secp256k1_fe_sqr z2) z2;
            z6 = secp256k1_fe_mul_int z6 CURVE_B;
            x3 = secp256k1_fe_normalize_weak (secp256k1_fe_add x3 z6)
        in secp256k1_fe_equal_var y2 x3)"

definition secp256k1_ge_is_valid_var :: "ge \<Rightarrow> bool" where
  "secp256k1_ge_is_valid_var a =
     (if ge_infinity a then False
      else
        let y2 = secp256k1_fe_sqr (ge_y a);
            x3 = secp256k1_fe_mul (secp256k1_fe_sqr (ge_x a)) (ge_x a);
            x3 = secp256k1_fe_normalize_weak (secp256k1_fe_add x3 (secp256k1_fe_set_int CURVE_B))
        in secp256k1_fe_equal_var y2 x3)"

section \<open>Doubling and addition\<close>

definition secp256k1_gej_double_var :: "gej \<Rightarrow> gej \<Rightarrow> gej \<times> fe option" where
  "secp256k1_gej_double_var r a =
     (if gej_infinity a then (r\<lparr>gej_infinity := True\<rparr>, Some (secp256k1_fe_set_int 1))
      else
        let rzr = secp256k1_fe_mul_int (secp256k1_fe_normalize_weak (gej_y a)) 2;
            z = secp256k1_fe_mul_int (secp256k1_fe_mul (gej_z a) (gej_y a)) 2;
            t1 = secp256k1_fe_mul_int (secp256k1_fe_sqr (gej_x a)) 3;
            t2 = secp256k1_fe_sqr t1;
            t3 = secp256k1_fe_mul_int (secp256k1_fe_sqr (gej_y a)) 2;
            t4 = secp256k1_fe_mul_int (secp256k1_fe_sqr t3) 2;
            t3 = secp256k1_fe_mul t3 (gej_x a);
            x = secp256k1_fe_mul_int t3 4;
            x = secp256k1_fe_negate x 4;
            x = secp256k1_fe_add x t2;
            t2 = secp256k1_fe_negate t2 1;
            t3 = secp256k1_fe_mul_int t3 6;
            t3 = secp256k1_fe_add t3 t2;
            y = secp256k1_fe_mul t1 t3;
            t2 = secp256k1_fe_negate t4 2;
            y = secp256k1_fe_add y t2
        in (\<lparr>gej_x = x, gej_y = y, gej_z = z, gej_infinity = False\<rparr>, Some rzr))"

definition secp256k1_gej_double_nonzero :: "gej \<Rightarrow> gej \<Rightarrow> gej \<times> fe option" where
  "secp256k1_gej_double_nonzero r a = secp256k1_gej_double_var r a"

text \<open>The coordinates the three variable-time additions end with.\<close>

definition add_coords :: "fe \<Rightarrow> fe \<Rightarrow> fe \<Rightarrow> fe \<Rightarrow> fe \<Rightarrow> fe \<Rightarrow> fe \<times> fe" where
  "add_coords u1 sy1 h2 h3 i i2 =
     (let t = secp256k1_fe_mul u1 h2;
          x = secp256k1_fe_mul_int t 2;
          x = secp256k1_fe_add x h3;
          x = secp256k1_fe_negate x 3;
          x = secp256k1_fe_add x i2;
          y = secp256k1_fe_negate x 5;
          y = secp256k1_fe_add y t;
          y = secp256k1_fe_mul y i;
          h3 = secp256k1_fe_mul h3 sy1;
          h3 = secp256k1_fe_negate h3 1
      in (x, secp256k1_fe_add y h3))"

definition secp256k1_gej_add_var :: "gej \<Rightarrow> gej \<Rightarrow> gej \<Rightarrow> gej \<times> fe option" where
  "secp256k1_gej_add_var r a b =
     (if gej_infinity a then (b, None)
      else if gej_infinity b then (a, Some (secp256k1_fe_set_int 1))
      else
        let z22 = secp256k1_fe_sqr (gej_z b);
            z12 = secp256k1_fe_sqr (gej_z a);
            u1 = secp256k1_fe_mul (gej_x a) z22;
            u2 = secp256k1_fe_mul (gej_x b) z12;
            sy1 = secp256k1_fe_mul (secp256k1_fe_mul (gej_y a) z22) (gej_z b);
            sy2 = secp256k1_fe_mul (secp256k1_fe_mul (gej_y b) z12) (gej_z a);
            h = secp256k1_fe_add (secp256k1_fe_negate u1 1) u2;
            i = secp256k1_fe_add (secp256k1_fe_negate sy1 1) sy2
        in if secp256k1_fe_normalizes_to_zero_var h then
             (if secp256k1_fe_normalizes_to_zero_var i then secp256k1_gej_double_var (r\<lparr>gej_infinity := False\<rparr>) a
              else (r\<lparr>gej_infinity := True\<rparr>, Some (secp256k1_fe_set_int 0)))
           else
             let i2 = secp256k1_fe_sqr i;
                 h2 = secp256k1_fe_sqr h;
                 h3 = secp256k1_fe_mul h h2;
                 h = secp256k1_fe_mul h (gej_z b);
                 (x, y) = add_coords u1 sy1 h2 h3 i i2
             in (\<lparr>gej_x = x, gej_y = y, gej_z = secp256k1_fe_mul (gej_z a) h, gej_infinity = False\<rparr>, Some h))"

definition secp256k1_gej_add_ge_var :: "gej \<Rightarrow> gej \<Rightarrow> ge \<Rightarrow> gej \<times> fe option" where
  "secp256k1_gej_add_ge_var r a b =
     (if gej_infinity a then (secp256k1_gej_set_ge b, None)
      else if ge_infinity b then (a, Some (secp256k1_fe_set_int 1))
      else
        let z12 = secp256k1_fe_sqr (gej_z a);
            u1 = secp256k1_fe_normalize_weak (gej_x a);
            u2 = secp256k1_fe_mul (ge_x b) z12;
            sy1 = secp256k1_fe_normalize_weak (gej_y a);
            sy2 = secp256k1_fe_mul (secp256k1_fe_mul (ge_y b) z12) (gej_z a);
            h = secp256k1_fe_add (secp256k1_fe_negate u1 1) u2;
            i = secp256k1_fe_add (secp256k1_fe_negate sy1 1) sy2
        in if secp256k1_fe_normalizes_to_zero_var h then
             (if secp256k1_fe_normalizes_to_zero_var i then secp256k1_gej_double_var (r\<lparr>gej_infinity := False\<rparr>) a
              else (r\<lparr>gej_infinity := True\<rparr>, Some (secp256k1_fe_set_int 0)))
           else
             let i2 = secp256k1_fe_sqr i;
                 h2 = secp256k1_fe_sqr h;
                 h3 = secp256k1_fe_mul h h2;
                 (x, y) = add_coords u1 sy1 h2 h3 i i2
             in (\<lparr>gej_x = x, gej_y = y, gej_z = secp256k1_fe_mul (gej_z a) h, gej_infinity = False\<rparr>, Some h))"

definition secp256k1_gej_add_zinv_var :: "gej \<Rightarrow> gej \<Rightarrow> ge \<Rightarrow> fe \<Rightarrow> gej" where
  "secp256k1_gej_add_zinv_var r a b bzinv =
     (if ge_infinity b then a
      else if gej_infinity a then
        (let bzinv2 = secp256k1_fe_sqr bzinv; bzinv3 = secp256k1_fe_mul bzinv2 bzinv
         in \<lparr>gej_x = secp256k1_fe_mul (ge_x b) bzinv2, gej_y = secp256k1_fe_mul (ge_y b) bzinv3,
             gej_z = secp256k1_fe_set_int 1, gej_infinity = ge_infinity b\<rparr>)
      else
        let az = secp256k1_fe_mul (gej_z a) bzinv;
            z12 = secp256k1_fe_sqr az;
            u1 = secp256k1_fe_normalize_weak (gej_x a);
            u2 = secp256k1_fe_mul (ge_x b) z12;
            sy1 = secp256k1_fe_normalize_weak (gej_y a);
            sy2 = secp256k1_fe_mul (secp256k1_fe_mul (ge_y b) z12) az;
            h = secp256k1_fe_add (secp256k1_fe_negate u1 1) u2;
            i = secp256k1_fe_add (secp256k1_fe_negate sy1 1) sy2
        in if secp256k1_fe_normalizes_to_zero_var h then
             (if secp256k1_fe_normalizes_to_zero_var i then fst (secp256k1_gej_double_var (r\<lparr>gej_infinity := False\<rparr>) a)
              else r\<lparr>gej_infinity := True\<rparr>)
           else
             let i2 = secp256k1_fe_sqr i;
                 h2 = secp256k1_fe_sqr h;
                 h3 = secp256k1_fe_mul h h2;
                 (x, y) = add_coords u1 sy1 h2 h3 i i2
             in \<lparr>gej_x = x, gej_y = y, gej_z = secp256k1_fe_mul (gej_z a) h, gej_infinity = False\<rparr>)"

text \<open>The addition without branches on the points.\<close>

definition secp256k1_gej_add_ge :: "gej \<Rightarrow> ge \<Rightarrow> gej" where
  "secp256k1_gej_add_ge a b =
     (let inf = (of_bool (gej_infinity a) :: u64);
          zz = secp256k1_fe_sqr (gej_z a);
          u1 = secp256k1_fe_normalize_weak (gej_x a);
          u2 = secp256k1_fe_mul (ge_x b) zz;
          sy1 = secp256k1_fe_normalize_weak (gej_y a);
          sy2 = secp256k1_fe_mul (ge_y b) zz;
          sy2 = secp256k1_fe_mul sy2 (gej_z a);
          t = secp256k1_fe_add u1 u2;
          m = secp256k1_fe_add sy1 sy2;
          rr = secp256k1_fe_sqr t;
          m_alt = secp256k1_fe_negate u2 1;
          tt = secp256k1_fe_mul u1 m_alt;
          rr = secp256k1_fe_add rr tt;
          degenerate = secp256k1_fe_normalizes_to_zero m \<and> secp256k1_fe_normalizes_to_zero rr;
          rr_alt = secp256k1_fe_mul_int sy1 2;
          m_alt = secp256k1_fe_add m_alt u1;
          rr_alt = secp256k1_fe_cmov rr_alt rr (of_bool (\<not> degenerate));
          m_alt = secp256k1_fe_cmov m_alt m (of_bool (\<not> degenerate));
          n = secp256k1_fe_sqr m_alt;
          q = secp256k1_fe_mul n t;
          n = secp256k1_fe_sqr n;
          n = secp256k1_fe_cmov n m (of_bool degenerate);
          t = secp256k1_fe_sqr rr_alt;
          z = secp256k1_fe_mul (gej_z a) m_alt;
          infinity = secp256k1_fe_normalizes_to_zero z \<and> \<not> gej_infinity a;
          z = secp256k1_fe_mul_int z 2;
          q = secp256k1_fe_negate q 1;
          t = secp256k1_fe_add t q;
          t = secp256k1_fe_normalize_weak t;
          x = t;
          t = secp256k1_fe_mul_int t 2;
          t = secp256k1_fe_add t q;
          t = secp256k1_fe_mul t rr_alt;
          t = secp256k1_fe_add t n;
          y = secp256k1_fe_negate t 3;
          y = secp256k1_fe_normalize_weak y;
          x = secp256k1_fe_mul_int x 4;
          y = secp256k1_fe_mul_int y 4
      in \<lparr>gej_x = secp256k1_fe_cmov x (ge_x b) inf, gej_y = secp256k1_fe_cmov y (ge_y b) inf,
          gej_z = secp256k1_fe_cmov z (secp256k1_fe_const 0 0 0 0 0 0 0 1) inf, gej_infinity = infinity\<rparr>)"

section \<open>The rest of the interface\<close>

definition secp256k1_gej_rescale :: "gej \<Rightarrow> fe \<Rightarrow> gej" where
  "secp256k1_gej_rescale r s =
     (let zz = secp256k1_fe_sqr s
      in r\<lparr>gej_x := secp256k1_fe_mul (gej_x r) zz, gej_y := secp256k1_fe_mul (secp256k1_fe_mul (gej_y r) zz) s,
           gej_z := secp256k1_fe_mul (gej_z r) s\<rparr>)"

definition secp256k1_ge_to_storage :: "ge \<Rightarrow> ge_storage" where
  "secp256k1_ge_to_storage a =
     (let x = secp256k1_fe_normalize (ge_x a); y = secp256k1_fe_normalize (ge_y a)
      in \<lparr>gs_x = secp256k1_fe_to_storage x, gs_y = secp256k1_fe_to_storage y\<rparr>)"

definition secp256k1_ge_from_storage :: "ge_storage \<Rightarrow> ge" where
  "secp256k1_ge_from_storage a =
     \<lparr>ge_x = secp256k1_fe_from_storage (gs_x a), ge_y = secp256k1_fe_from_storage (gs_y a), ge_infinity = False\<rparr>"

definition secp256k1_ge_storage_cmov :: "ge_storage \<Rightarrow> ge_storage \<Rightarrow> u64 \<Rightarrow> ge_storage" where
  "secp256k1_ge_storage_cmov r a flag =
     \<lparr>gs_x = secp256k1_fe_storage_cmov (gs_x r) (gs_x a) flag, gs_y = secp256k1_fe_storage_cmov (gs_y r) (gs_y a) flag\<rparr>"

definition secp256k1_gej_has_quad_y_var :: "gej \<Rightarrow> bool" where
  "secp256k1_gej_has_quad_y_var a =
     (if gej_infinity a then False else secp256k1_fe_is_quad_var (secp256k1_fe_mul (gej_y a) (gej_z a)))"

end
