(* ===== verification/Field_Ring.thy ===== *)
theory Field_Ring
  imports Field_Inverse
begin

text \<open>
  The integers modulo the field prime as a commutative ring, and the field elements of the code
  as representations of ring elements of some magnitude. The rules \<open>rep_intros\<close> follow the
  operations of the field, so that the value and the magnitude of a formula over them are
  found by proof search.
\<close>

section \<open>The ring\<close>

definition prime_int :: int where
  "prime_int = int secp256k1_p"

lemma prime_int_pos: "1 < prime_int"
  by (simp add: prime_int_def secp256k1_p_def)

typedef fp = "{0..<prime_int}"
  using prime_int_pos by (intro exI [of _ 0]) simp

setup_lifting type_definition_fp

instantiation fp :: comm_ring_1
begin

lift_definition zero_fp :: fp is 0 using prime_int_pos by simp
lift_definition one_fp :: fp is 1 using prime_int_pos by simp
lift_definition plus_fp :: "fp \<Rightarrow> fp \<Rightarrow> fp" is "\<lambda>a b. (a + b) mod prime_int" using prime_int_pos by simp
lift_definition times_fp :: "fp \<Rightarrow> fp \<Rightarrow> fp" is "\<lambda>a b. (a * b) mod prime_int" using prime_int_pos by simp
lift_definition uminus_fp :: "fp \<Rightarrow> fp" is "\<lambda>a. (- a) mod prime_int" using prime_int_pos by simp
lift_definition minus_fp :: "fp \<Rightarrow> fp \<Rightarrow> fp" is "\<lambda>a b. (a - b) mod prime_int" using prime_int_pos by simp

instance
proof
  fix a b c :: fp
  show "a * b * c = a * (b * c)" by transfer (simp add: mod_simps ac_simps)
  show "a * b = b * a" by transfer (simp add: ac_simps)
  show "1 * a = a" by transfer simp
  show "a + b + c = a + (b + c)" by transfer (simp add: mod_simps ac_simps)
  show "a + b = b + a" by transfer (simp add: ac_simps)
  show "0 + a = a" by transfer simp
  show "- a + a = 0" by transfer (simp add: mod_simps)
  show "a - b = a + - b" by transfer (simp add: mod_simps)
  show "(a + b) * c = a * c + b * c" by transfer (simp add: mod_simps algebra_simps)
  show "(0 :: fp) \<noteq> 1" by transfer simp
qed

end

lemma of_nat_fp: "Rep_fp (of_nat n) = int n mod prime_int"
proof (induction n)
  case 0
  then show ?case using prime_int_pos by (simp add: zero_fp.rep_eq)
next
  case (Suc n)
  then show ?case by (simp add: plus_fp.rep_eq one_fp.rep_eq mod_simps)
qed

lemma of_nat_fp_eq: "((of_nat m :: fp) = of_nat n) = (m mod secp256k1_p = n mod secp256k1_p)"
proof -
  have "((of_nat m :: fp) = of_nat n) = (int m mod prime_int = int n mod prime_int)"
    by (simp add: of_nat_fp [symmetric] Rep_fp_inject)
  then show ?thesis unfolding prime_int_def by (simp flip: of_nat_mod)
qed

lemma of_nat_fp_0: "((of_nat n :: fp) = 0) = (n mod secp256k1_p = 0)"
  using of_nat_fp_eq [of n 0] by simp

section \<open>Representations\<close>

definition fe_elem :: "fe \<Rightarrow> fp" where
  "fe_elem a = of_nat (fval a)"

definition rep :: "nat \<Rightarrow> fe \<Rightarrow> fp \<Rightarrow> bool" where
  "rep m a v = (fe_mag m a \<and> fe_elem a = v)"

named_theorems rep_intros \<open>values and magnitudes of the field operations\<close>

lemma fe_mag_mono: "fe_mag m a \<Longrightarrow> m \<le> k \<Longrightarrow> fe_mag k a"
proof -
  assume a: "fe_mag m a" and m: "m \<le> k"
  have "2 * m * 0xFFFFFFFFFFFFF \<le> 2 * k * 0xFFFFFFFFFFFFF" "2 * m * 0xFFFFFFFFFFFF \<le> 2 * k * 0xFFFFFFFFFFFF" using m by auto
  then show ?thesis using a by (auto simp: fe_mag_def intro: order_trans)
qed

lemma rep_mono: "rep m a v \<Longrightarrow> m \<le> k \<Longrightarrow> rep k a v"
  by (auto simp: rep_def intro: fe_mag_mono)

lemma rep_mul [rep_intros]:
  assumes "rep m a u" "rep k b v" "m \<le> 8" "k \<le> 8"
  shows "rep 1 (secp256k1_fe_mul a b) (u * v)"
proof -
  have "fe_small a" "fe_small b" using assms by (auto simp: rep_def intro: fe_mag_small)
  from fe_mul_val [OF this] show ?thesis
    using assms(1,2) fe_weak_mag of_nat_fp_eq [of "fval (secp256k1_fe_mul a b)" "fval a * fval b"] by (auto simp: rep_def fe_elem_def)
qed

lemma rep_sqr [rep_intros]:
  assumes "rep m a u" "m \<le> 8"
  shows "rep 1 (secp256k1_fe_sqr a) (u * u)"
proof -
  have "fe_small a" using assms by (auto simp: rep_def intro: fe_mag_small)
  from fe_sqr_val [OF this] show ?thesis
    using assms(1) fe_weak_mag of_nat_fp_eq [of "fval (secp256k1_fe_sqr a)" "fval a * fval a"] by (auto simp: rep_def fe_elem_def)
qed

lemma rep_add [rep_intros]:
  assumes "rep m a u" "rep k b v" "m + k \<le> 500"
  shows "rep (m + k) (secp256k1_fe_add a b) (u + v)"
  using assms fe_add_val by (auto simp: rep_def fe_elem_def)

lemma rep_negate_nat:
  assumes "rep m a u" "m \<le> 500"
  shows "rep (m + 1) (secp256k1_fe_negate a (word_of_nat m)) (- u)"
proof -
  have n: "fval (secp256k1_fe_negate a (word_of_nat m)) + fval a = 2 * (m + 1) * secp256k1_p"
    "fe_mag (m + 1) (secp256k1_fe_negate a (word_of_nat m))" using assms fe_negate_val by (auto simp: rep_def)
  have "fe_elem (secp256k1_fe_negate a (word_of_nat m)) + fe_elem a = of_nat (2 * (m + 1) * secp256k1_p)"
    unfolding fe_elem_def of_nat_add [symmetric] n(1) ..
  also have "\<dots> = 0" by (simp only: of_nat_fp_0) simp
  finally have "fe_elem (secp256k1_fe_negate a (word_of_nat m)) = - fe_elem a" by (rule eq_neg_iff_add_eq_0 [THEN iffD2])
  then show ?thesis using assms(1) n(2) by (simp add: rep_def)
qed

text \<open>The magnitude argument of the negation is a number of the code.\<close>

lemma rep_negate [rep_intros]:
  assumes "rep m a u" "unat k = m" "m \<le> 500"
  shows "rep (m + 1) (secp256k1_fe_negate a k) (- u)"
  using rep_negate_nat [OF assms(1,3)] by (simp add: assms(2) [symmetric])

lemma rep_weaken_negate:
  assumes "rep m a u" "m \<le> unat k" "unat k \<le> 500"
  shows "rep (unat k + 1) (secp256k1_fe_negate a k) (- u)"
  by (rule rep_negate [OF rep_mono [OF assms(1,2)] refl assms(3)])

lemma fe_mul_int_val:
  assumes "fe_mag m a" "unat k * m \<le> 500"
  shows "fval (secp256k1_fe_mul_int a k) = unat k * fval a \<and> fe_mag (unat k * m) (secp256k1_fe_mul_int a k)"
proof -
  have s: "unat (x * k) = unat k * unat x \<and> unat (x * k) \<le> 2 * (unat k * m) * c"
    if "unat x \<le> 2 * m * c" "c \<le> 0xFFFFFFFFFFFFF" for x :: u64 and c
  proof -
    have "unat k * unat x \<le> unat k * (2 * m * c)" using that(1) by (rule mult_le_mono2)
    also have "\<dots> = 2 * (unat k * m) * c" by simp
    finally have le: "unat k * unat x \<le> 2 * (unat k * m) * c" .
    also have "\<dots> \<le> 2 * 500 * 0xFFFFFFFFFFFFF" using assms(2) that(2) by (intro mult_le_mono) auto
    finally have "unat (x * k) = unat k * unat x" by (simp add: unat_word_ariths mult.commute)
    then show ?thesis using le by simp
  qed
  have a: "unat (n0 a) \<le> 2 * m * 0xFFFFFFFFFFFFF" "unat (n1 a) \<le> 2 * m * 0xFFFFFFFFFFFFF" "unat (n2 a) \<le> 2 * m * 0xFFFFFFFFFFFFF"
    "unat (n3 a) \<le> 2 * m * 0xFFFFFFFFFFFFF" "unat (n4 a) \<le> 2 * m * 0xFFFFFFFFFFFF"
    using assms(1) by (auto simp: fe_mag_def)
  note l = s [OF a(1)] s [OF a(2)] s [OF a(3)] s [OF a(4)] s [OF a(5)]
  have "fval (secp256k1_fe_mul_int a k) = unat k * fval a"
    using l by (simp add: secp256k1_fe_mul_int_def fval_def distrib_left mult.left_commute mult.assoc)
  moreover have "fe_mag (unat k * m) (secp256k1_fe_mul_int a k)"
    unfolding fe_mag_def secp256k1_fe_mul_int_def fe.simps by (intro conjI conjunct2 [OF s] a) simp_all
  ultimately show ?thesis ..
qed

lemma rep_mul_int [rep_intros]:
  assumes "rep m a u" "unat k * m \<le> 500"
  shows "rep (unat k * m) (secp256k1_fe_mul_int a k) (of_nat (unat k) * u)"
  using assms fe_mul_int_val by (auto simp: rep_def fe_elem_def)

lemma rep_normalize_weak [rep_intros]:
  assumes "rep m a u" "m \<le> 500"
  shows "rep 1 (secp256k1_fe_normalize_weak a) u"
proof -
  have l: "fe_loose a" using assms by (auto simp: rep_def intro: fe_mag_loose)
  note w = normalize_weak_val [OF l]
  have "fval a mod secp256k1_p = fval (secp256k1_fe_normalize_weak a) mod secp256k1_p"
    by (subst w(2)) simp
  then have "fe_elem (secp256k1_fe_normalize_weak a) = fe_elem a" unfolding fe_elem_def of_nat_fp_eq by simp
  then show ?thesis using assms(1) fe_weak_mag [OF w(1)] by (simp add: rep_def)
qed

lemma rep_set_int [rep_intros]: "unat k \<le> 0x1FFFFFFFFFFFFE \<Longrightarrow> rep 1 (secp256k1_fe_set_int k) (of_nat (unat k))"
  by (simp add: rep_def fe_mag_def fe_elem_def secp256k1_fe_set_int_def fval_def)

lemma normalizes_to_zero_rep:
  assumes "rep m a u" "m \<le> 500"
  shows "secp256k1_fe_normalizes_to_zero a = (u = 0)" "secp256k1_fe_normalizes_to_zero_var a = (u = 0)"
proof -
  have l: "fe_loose a" using assms by (auto simp: rep_def intro: fe_mag_loose)
  have "(u = 0) = (fval a mod secp256k1_p = 0)" using assms(1) of_nat_fp_0 [of "fval a"] by (simp add: rep_def fe_elem_def)
  then show "secp256k1_fe_normalizes_to_zero a = (u = 0)" "secp256k1_fe_normalizes_to_zero_var a = (u = 0)"
    using normalizes_to_zero_val [OF l] normalizes_to_zero_var_eq [OF l] by simp_all
qed

lemma equal_var_rep:
  assumes "rep 1 a u" "rep m b v" "m \<le> 400"
  shows "secp256k1_fe_equal a b = (u = v)" "secp256k1_fe_equal_var a b = (u = v)"
  using fe_equal_val [of a m b] assms of_nat_fp_eq [of "fval a" "fval b"] by (auto simp: rep_def fe_elem_def)

lemma inv_weak: "fe_small a \<Longrightarrow> fe_weak (secp256k1_fe_inv a)"
proof -
  assume a: "fe_small a"
  note w = fe_power.raised_window [of a] and qs = fe_power.raised_sqrs [of a]
  have 1: "fe_power.raised a 1 a" by (rule fe_power.raised_self) (rule a)
  note x = fe_chain [OF a]
  show ?thesis
    using conjunct1 [OF fe_mul_val [OF a conjunct1 [OF qs [OF w [OF w [OF w [OF conjunct2 [OF conjunct2 [OF x]]
      conjunct1 [OF conjunct2 [OF x]], of 23] 1, of 5] conjunct1 [OF x], of 3], of 2, unfolded fe_power.raised_def]]]]
    unfolding secp256k1_fe_inv_def Let_def .
qed

lemma sqrt_weak: "fe_small a \<Longrightarrow> fe_weak (fst (secp256k1_fe_sqrt a))"
proof -
  assume a: "fe_small a"
  note w = fe_power.raised_window [of a] and q = fe_power.raised_sqr [of a]
  note x = fe_chain [OF a]
  show ?thesis
    using conjunct1 [OF fe_sqr_val [OF conjunct1 [OF q [OF w [OF w [OF conjunct2 [OF conjunct2 [OF x]]
      conjunct1 [OF conjunct2 [OF x]], of 23] conjunct1 [OF x], of 6], unfolded fe_power.raised_def]]]]
    unfolding secp256k1_fe_sqrt_def Let_def fst_conv .
qed

lemma raised_rep:
  assumes "fe_power.raised a k x" "rep m a u" "fe_weak x"
  shows "rep 1 x (u ^ k)"
  using assms fe_weak_mag of_nat_fp_eq [of "fval x" "fval a ^ k"] by (auto simp: rep_def fe_elem_def fe_power.raised_def)

lemma rep_small: "rep m a u \<Longrightarrow> m \<le> 8 \<Longrightarrow> fe_small a"
  by (auto simp: rep_def intro: fe_mag_small)

lemma rep_inv [rep_intros]: "rep m a u \<Longrightarrow> m \<le> 8 \<Longrightarrow> rep 1 (secp256k1_fe_inv a) (u ^ (secp256k1_p - 2))"
  by (rule raised_rep [OF inv_raised _ inv_weak]) (auto intro: rep_small)

lemma rep_sqrt: "rep m a u \<Longrightarrow> m \<le> 8 \<Longrightarrow> rep 1 (fst (secp256k1_fe_sqrt a)) (u ^ ((secp256k1_p + 1) div 4))"
  by (rule raised_rep [OF sqrt_raised _ sqrt_weak]) (auto intro: rep_small)

lemma sqrt_flag_rep:
  assumes "rep m a u" "m \<le> 8" "rep 1 (fst (secp256k1_fe_sqrt a)) v"
  shows "snd (secp256k1_fe_sqrt a) = (v * v = u)"
  unfolding sqrt_flag by (rule equal_var_rep(1) [OF rep_sqr [OF assms(3)] assms(1)]) (use assms(2) in simp_all)

end
