(* ===== verification/Group_Correct.thy ===== *)
theory Group_Correct
  imports Group Field_Ring
begin

text \<open>
  The group law. A Jacobian triple with an invertible z stands for a point with coordinates in
  the ring of \<open>Field_Ring\<close>; sums of points are defined by tangents and chords. All additions
  compute the sum of the points their arguments stand for. That the prime of the field is one
  is not used: what it gives, that the difference of two coordinates is zero or invertible, is a
  hypothesis on the points.
\<close>

section \<open>Points\<close>

definition invertible :: "fp \<Rightarrow> bool" where
  "invertible a = (\<exists>b. a * b = 1)"

type_synonym point = "(fp \<times> fp) option"

definition gej_point :: "gej \<Rightarrow> point \<Rightarrow> bool" where
  "gej_point a P =
     (case P of None \<Rightarrow> gej_infinity a
      | Some (x, y) \<Rightarrow> \<not> gej_infinity a \<and>
          (\<exists>z. invertible z \<and> rep 8 (gej_z a) z \<and> rep 8 (gej_x a) (x * z ^ 2) \<and> rep 8 (gej_y a) (y * z ^ 3)))"

definition ge_point :: "ge \<Rightarrow> point \<Rightarrow> bool" where
  "ge_point a P =
     (case P of None \<Rightarrow> ge_infinity a | Some (x, y) \<Rightarrow> \<not> ge_infinity a \<and> rep 8 (ge_x a) x \<and> rep 8 (ge_y a) y)"

lemma gej_pointI:
  assumes "\<not> gej_infinity r" "invertible z" "rep i (gej_z r) z" "rep j (gej_x r) (x * z ^ 2)" "rep k (gej_y r) (y * z ^ 3)"
    and "i \<le> 8" "j \<le> 8" "k \<le> 8"
  shows "gej_point r (Some (x, y))"
  using assms rep_mono unfolding gej_point_def by auto

definition on_curve :: "fp \<Rightarrow> fp \<Rightarrow> bool" where
  "on_curve x y = (y ^ 2 = x ^ 3 + 7)"

inductive ec_sum :: "point \<Rightarrow> point \<Rightarrow> point \<Rightarrow> bool" where
  left: "ec_sum None Q Q"
| right: "ec_sum P None P"
| tangent: "l * (2 * y) = 3 * x ^ 2 \<Longrightarrow> x' = l ^ 2 - 2 * x \<Longrightarrow> y' = l * (x - x') - y \<Longrightarrow>
    ec_sum (Some (x, y)) (Some (x, y)) (Some (x', y'))"
| opposite: "y1 \<noteq> y2 \<Longrightarrow> ec_sum (Some (x, y1)) (Some (x, y2)) None"
| chord: "x1 \<noteq> x2 \<Longrightarrow> l * (x2 - x1) = y2 - y1 \<Longrightarrow> x' = l ^ 2 - x1 - x2 \<Longrightarrow> y' = l * (x1 - x') - y1 \<Longrightarrow>
    ec_sum (Some (x1, y1)) (Some (x2, y2)) (Some (x', y'))"

inductive_cases ec_sum_SomeE: "ec_sum (Some p) (Some q) R"

text \<open>Where the tangent or the chord has a slope.\<close>

fun slope_exists :: "point \<Rightarrow> point \<Rightarrow> bool" where
  "slope_exists (Some (x1, y1)) (Some (x2, y2)) = (if x1 = x2 then y1 = y2 \<longrightarrow> invertible (2 * y1) else invertible (x2 - x1))"
| "slope_exists _ _ = True"

lemma invertible_mult: "invertible a \<Longrightarrow> invertible b \<Longrightarrow> invertible (a * b)"
  unfolding invertible_def by (metis mult.assoc mult.left_commute mult_1_right)

lemma invertible_power: "invertible a \<Longrightarrow> invertible (a ^ n)"
proof (induction n)
  case (Suc n)
  then show ?case using invertible_mult [of a "a ^ n"] by simp
qed (simp add: invertible_def)

lemma invertible_cancel: "invertible a \<Longrightarrow> (a * b = a * c) = (b = c)"
  unfolding invertible_def by (metis mult.assoc mult.commute mult_1_right)

lemma invertible_mult_0: "invertible a \<Longrightarrow> (b * a = 0) = (b = 0)"
  using invertible_cancel [of a b 0] by (simp add: mult.commute)

lemma invertible_slope: "invertible a \<Longrightarrow> \<exists>l. l * a = b"
  unfolding invertible_def by (metis mult.assoc mult.commute mult_1_left)

lemma invertible_1: "invertible 1"
  by (auto simp: invertible_def)

section \<open>The formulas\<close>

lemma chord_coords:
  fixes x1 y1 x2 y2 l w :: fp
  assumes "l * (x2 - x1) = y2 - y1" "x3 = l ^ 2 - x1 - x2" "y3 = l * (x1 - x3) - y1"
  defines "h \<equiv> (x2 - x1) * w ^ 2" and "i \<equiv> (y2 - y1) * w ^ 3"
  shows "i ^ 2 - (2 * (x1 * w ^ 2 * h ^ 2) + h ^ 3) = x3 * (w * h) ^ 2"
    "(x1 * w ^ 2 * h ^ 2 - x3 * (w * h) ^ 2) * i - h ^ 3 * (y1 * w ^ 3) = y3 * (w * h) ^ 3"
proof -
  have i: "i = l * (x2 - x1) * w ^ 3" by (simp add: i_def assms(1))
  show "i ^ 2 - (2 * (x1 * w ^ 2 * h ^ 2) + h ^ 3) = x3 * (w * h) ^ 2"
    by (simp add: i h_def assms(2) algebra_simps power2_eq_square power3_eq_cube)
  show "(x1 * w ^ 2 * h ^ 2 - x3 * (w * h) ^ 2) * i - h ^ 3 * (y1 * w ^ 3) = y3 * (w * h) ^ 3"
    by (simp add: i h_def assms(3) algebra_simps power2_eq_square power3_eq_cube)
qed

lemma tangent_coords:
  fixes x y l z :: fp
  assumes "l * (2 * y) = 3 * x ^ 2" "x3 = l ^ 2 - 2 * x" "y3 = l * (x - x3) - y"
  defines "X \<equiv> x * z ^ 2" and "Y \<equiv> y * z ^ 3"
  shows "(3 * (X * X)) * (3 * (X * X)) - 4 * (2 * (Y * Y) * X) = x3 * (2 * (z * Y)) ^ 2"
    "3 * (X * X) * (6 * (2 * (Y * Y) * X) - (3 * (X * X)) * (3 * (X * X))) - 2 * (2 * (Y * Y) * (2 * (Y * Y))) = y3 * (2 * (z * Y)) ^ 3"
proof -
  have t: "3 * (X * X) = l * (2 * y) * z ^ 4"
    unfolding assms(1) by (simp add: X_def power2_eq_square power4_eq_xxxx algebra_simps)
  show "(3 * (X * X)) * (3 * (X * X)) - 4 * (2 * (Y * Y) * X) = x3 * (2 * (z * Y)) ^ 2"
    unfolding t by (simp add: X_def Y_def assms(2) algebra_simps power2_eq_square power3_eq_cube power4_eq_xxxx)
  show "3 * (X * X) * (6 * (2 * (Y * Y) * X) - (3 * (X * X)) * (3 * (X * X))) - 2 * (2 * (Y * Y) * (2 * (Y * Y))) = y3 * (2 * (z * Y)) ^ 3"
    unfolding t by (simp add: X_def Y_def assms(2,3) algebra_simps power2_eq_square power3_eq_cube power4_eq_xxxx)
qed

section \<open>Doubling\<close>

lemma double_rep:
  assumes x: "rep 8 (gej_x a) X" and y: "rep 8 (gej_y a) Y" and z: "rep 8 (gej_z a) Z" and "\<not> gej_infinity a"
  shows "\<exists>r' rzr. secp256k1_gej_double_var r a = (r', Some rzr) \<and> \<not> gej_infinity r' \<and> rep 2 rzr (2 * Y) \<and> rep 2 (gej_z r') (2 * (Z * Y)) \<and>
    rep 6 (gej_x r') ((3 * (X * X)) * (3 * (X * X)) - 4 * (2 * (Y * Y) * X)) \<and>
    rep 4 (gej_y r') (3 * (X * X) * (6 * (2 * (Y * Y) * X) - (3 * (X * X)) * (3 * (X * X))) - 2 * (2 * (Y * Y) * (2 * (Y * Y))))"
proof -
  note rzr = rep_mul_int [OF rep_normalize_weak [OF y], of 2, simplified]
  note z' = rep_mul_int [OF rep_mul [OF z y], of 2, simplified]
  note t1 = rep_mul_int [OF rep_sqr [OF x], of 3, simplified]
  note t2 = rep_sqr [OF t1, simplified]
  note t3 = rep_mul_int [OF rep_sqr [OF y], of 2, simplified]
  note t4 = rep_mul_int [OF rep_sqr [OF t3], of 2, simplified]
  note t3' = rep_mul [OF t3 x, simplified]
  note x' = rep_add [OF rep_negate [OF rep_mul_int [OF t3', of 4], of 4] t2, simplified]
  note s = rep_add [OF rep_mul_int [OF t3', of 6] rep_negate [OF t2, of 1], simplified]
  note y' = rep_add [OF rep_mul [OF t1 s] rep_negate [OF t4, of 2], simplified]
  show ?thesis using assms(4) rzr z' x' y'
    by (simp add: secp256k1_gej_double_var_def Let_def)
qed

lemma invertible_2: "invertible 2"
proof -
  have "(2 :: fp) * of_nat ((secp256k1_p + 1) div 2) = of_nat (2 * ((secp256k1_p + 1) div 2))" by simp
  also have "\<dots> = of_nat 1" unfolding of_nat_fp_eq by (simp add: secp256k1_p_def)
  finally show ?thesis by (auto simp: invertible_def)
qed

text \<open>The point a doubled representation stands for.\<close>

lemma double_point:
  assumes a: "gej_point a P" and s: "slope_exists P P"
  shows "\<exists>r' rzr R. secp256k1_gej_double_var r a = (r', rzr) \<and> gej_point r' R \<and> ec_sum P P R"
proof (cases P)
  case None
  then show ?thesis using a ec_sum.left [of None]
    by (auto simp: gej_point_def secp256k1_gej_double_var_def intro!: exI [of _ None])
next
  case (Some p)
  obtain x y where P: "P = Some (x, y)" using Some by (cases p) auto
  obtain z where z: "\<not> gej_infinity a" "invertible z" "rep 8 (gej_z a) z" "rep 8 (gej_x a) (x * z ^ 2)" "rep 8 (gej_y a) (y * z ^ 3)"
    using a by (auto simp: gej_point_def P)
  have y: "invertible (2 * y)" using s by (simp add: P)
  obtain l where l: "l * (2 * y) = 3 * x ^ 2" using invertible_slope [OF y] by blast
  define x3 where "x3 = l ^ 2 - 2 * x"
  define y3 where "y3 = l * (x - x3) - y"
  note t = tangent_coords [OF l x3_def y3_def, of z]
  obtain r' rzr where r: "secp256k1_gej_double_var r a = (r', Some rzr)" "\<not> gej_infinity r'"
    "rep 2 (gej_z r') (2 * (z * (y * z ^ 3)))" "rep 6 (gej_x r') (x3 * (2 * (z * (y * z ^ 3))) ^ 2)"
    "rep 4 (gej_y r') (y3 * (2 * (z * (y * z ^ 3))) ^ 3)"
    using double_rep [OF z(4,5,3,1)] unfolding t by blast
  have "invertible (2 * y * (z * z ^ 3))" by (rule invertible_mult [OF y invertible_mult [OF z(2) invertible_power [OF z(2)]]])
  then have "invertible (2 * (z * (y * z ^ 3)))" by (simp add: ac_simps)
  then have "gej_point r' (Some (x3, y3))"
    by (rule gej_pointI [OF r(2) _ r(3-5)]) simp_all
  then show ?thesis using r(1) ec_sum.tangent [OF l x3_def y3_def] P by blast
qed

section \<open>The variable-time additions\<close>

lemma add_coords_rep:
  assumes u: "rep 1 u1 U" and s: "rep 1 v1 S" and h: "rep 3 h H" and i: "rep 3 i I"
  shows "\<exists>x y. add_coords u1 v1 (secp256k1_fe_sqr h) (secp256k1_fe_mul h (secp256k1_fe_sqr h)) i (secp256k1_fe_sqr i) = (x, y) \<and>
    rep 5 x (I ^ 2 - (2 * (U * H ^ 2) + H ^ 3)) \<and>
    rep 3 y ((U * H ^ 2 - (I ^ 2 - (2 * (U * H ^ 2) + H ^ 3))) * I - H ^ 3 * S)"
proof -
  note h2 = rep_sqr [OF h, simplified]
  note h3 = rep_mul [OF h h2, simplified]
  note i2 = rep_sqr [OF i, simplified]
  note t = rep_mul [OF u h2, simplified]
  note x = rep_add [OF rep_negate [OF rep_add [OF rep_mul_int [OF t, of 2] h3], of 3] i2, simplified]
  note y = rep_add [OF rep_mul [OF rep_add [OF rep_negate [OF x, of 5] t] i] rep_negate [OF rep_mul [OF h3 s], of 1], simplified]
  show ?thesis using x y by (simp add: add_coords_def Let_def power2_eq_square power3_eq_cube algebra_simps numeral_3_eq_3)
qed

text \<open>
  What the additions compute once the coordinates of both points are over the same power of
  \<open>w\<close>: \<open>g\<close> is the z coordinate, as a function of \<open>h\<close>, and \<open>dbl\<close> the doubled first point.
\<close>

lemma var_addition:
  assumes u: "rep 1 u1 (x1 * w ^ 2)" "rep 1 u2 (x2 * w ^ 2)" and s: "rep 1 v1 (y1 * w ^ 3)" "rep 1 v2 (y2 * w ^ 3)" and w: "invertible w"
    and slope: "slope_exists (Some (x1, y1)) (Some (x2, y2))"
    and dbl: "x1 = x2 \<Longrightarrow> y1 = y2 \<Longrightarrow> \<exists>R. gej_point dbl R \<and> ec_sum (Some (x1, y1)) (Some (x1, y1)) R"
    and z: "\<And>h. rep 3 h ((x2 - x1) * w ^ 2) \<Longrightarrow> rep 1 (g h) (w * ((x2 - x1) * w ^ 2))"
  defines "h \<equiv> secp256k1_fe_add (secp256k1_fe_negate u1 1) u2" and "i \<equiv> secp256k1_fe_add (secp256k1_fe_negate v1 1) v2"
  defines "c \<equiv> add_coords u1 v1 (secp256k1_fe_sqr h) (secp256k1_fe_mul h (secp256k1_fe_sqr h)) i (secp256k1_fe_sqr i)"
  shows "\<exists>R. ec_sum (Some (x1, y1)) (Some (x2, y2)) R \<and>
    gej_point (if secp256k1_fe_normalizes_to_zero_var h then
                 if secp256k1_fe_normalizes_to_zero_var i then dbl else r\<lparr>gej_infinity := True\<rparr>
               else \<lparr>gej_x = fst c, gej_y = snd c, gej_z = g h, gej_infinity = False\<rparr>) R"
proof -
  have h: "rep 3 h ((x2 - x1) * w ^ 2)"
    using rep_add [OF rep_negate [OF u(1), of 1] u(2)] by (simp add: h_def algebra_simps numeral_3_eq_3)
  have i: "rep 3 i ((y2 - y1) * w ^ 3)"
    using rep_add [OF rep_negate [OF s(1), of 1] s(2)] by (simp add: i_def algebra_simps numeral_3_eq_3)
  have h0: "secp256k1_fe_normalizes_to_zero_var h = (x1 = x2)"
    using normalizes_to_zero_rep(2) [OF h] invertible_mult_0 [OF invertible_power [OF w, of 2], of "x2 - x1"] by auto
  have i0: "secp256k1_fe_normalizes_to_zero_var i = (y1 = y2)"
    using normalizes_to_zero_rep(2) [OF i] invertible_mult_0 [OF invertible_power [OF w, of 3], of "y2 - y1"] by auto
  show ?thesis
  proof (cases "x1 = x2")
    case True
    then show ?thesis using h0 i0 dbl ec_sum.opposite [of y1 y2 x1] by (cases "y1 = y2") (auto simp: gej_point_def)
  next
    case False
    then have d: "invertible (x2 - x1)" using slope by simp
    obtain l where l: "l * (x2 - x1) = y2 - y1" using invertible_slope [OF d] by blast
    define x3 where "x3 = l ^ 2 - x1 - x2"
    define y3 where "y3 = l * (x1 - x3) - y1"
    define H where "H = (x2 - x1) * w ^ 2"
    note k = chord_coords [OF l x3_def y3_def, of w, folded H_def]
    obtain x y where xy: "c = (x, y)" "rep 5 x (x3 * (w * H) ^ 2)" "rep 3 y (y3 * (w * H) ^ 3)"
      using add_coords_rep [OF u(1) s(1) h [folded H_def] i] unfolding c_def k by auto
    have inv: "invertible (w * H)" unfolding H_def using w d by (intro invertible_mult invertible_power)
    have "gej_point \<lparr>gej_x = fst c, gej_y = snd c, gej_z = g h, gej_infinity = False\<rparr> (Some (x3, y3))"
      by (rule gej_pointI [where z = "w * H" and i = 1 and j = 5 and k = 3]) (use inv xy z [OF h, folded H_def] in simp_all)
    then show ?thesis using h0 False ec_sum.chord [OF False l x3_def y3_def] by auto
  qed
qed

lemma gej_pointE:
  assumes "gej_point a (Some (x, y))"
  obtains z where "\<not> gej_infinity a" "invertible z" "rep 8 (gej_z a) z" "rep 8 (gej_x a) (x * z ^ 2)" "rep 8 (gej_y a) (y * z ^ 3)"
  using assms by (auto simp: gej_point_def)

lemma rep_cong: "rep m a u \<Longrightarrow> u = v \<Longrightarrow> rep m a v"
  by simp

lemma double_case:
  assumes "gej_point a (Some (x1, y1))" "slope_exists (Some (x1, y1)) (Some (x2, y2))" "x1 = x2" "y1 = y2"
  shows "\<exists>R. gej_point (fst (secp256k1_gej_double_var r a)) R \<and> ec_sum (Some (x1, y1)) (Some (x1, y1)) R"
  using double_point [OF assms(1), of r] assms(2-4) by fastforce

lemma add_var_point:
  assumes a: "gej_point a P" and b: "gej_point b Q" and s: "slope_exists P Q"
  shows "\<exists>R. ec_sum P Q R \<and> gej_point (fst (secp256k1_gej_add_var r a b)) R"
proof (cases P)
  case None
  then show ?thesis using a b ec_sum.left by (auto simp: secp256k1_gej_add_var_def gej_point_def)
next
  case P: (Some p)
  obtain x1 y1 where p: "P = Some (x1, y1)" using P by (cases p) auto
  obtain z where z: "\<not> gej_infinity a" "invertible z" "rep 8 (gej_z a) z" "rep 8 (gej_x a) (x1 * z ^ 2)" "rep 8 (gej_y a) (y1 * z ^ 3)"
    using gej_pointE [OF a [unfolded p]] .
  show ?thesis
  proof (cases Q)
    case None
    then show ?thesis using a b z(1) ec_sum.right by (auto simp: secp256k1_gej_add_var_def gej_point_def)
  next
    case Q: (Some q)
    obtain x2 y2 where q: "Q = Some (x2, y2)" using Q by (cases q) auto
    obtain t where t: "\<not> gej_infinity b" "invertible t" "rep 8 (gej_z b) t" "rep 8 (gej_x b) (x2 * t ^ 2)" "rep 8 (gej_y b) (y2 * t ^ 3)"
      using gej_pointE [OF b [unfolded q]] .
    have u: "rep 1 (secp256k1_fe_mul (gej_x a) (secp256k1_fe_sqr (gej_z b))) (x1 * (z * t) ^ 2)"
      "rep 1 (secp256k1_fe_mul (gej_x b) (secp256k1_fe_sqr (gej_z a))) (x2 * (z * t) ^ 2)"
      "rep 1 (secp256k1_fe_mul (secp256k1_fe_mul (gej_y a) (secp256k1_fe_sqr (gej_z b))) (gej_z b)) (y1 * (z * t) ^ 3)"
      "rep 1 (secp256k1_fe_mul (secp256k1_fe_mul (gej_y b) (secp256k1_fe_sqr (gej_z a))) (gej_z a)) (y2 * (z * t) ^ 3)"
      using rep_mul [OF z(4) rep_sqr [OF t(3)]] rep_mul [OF t(4) rep_sqr [OF z(3)]]
        rep_mul [OF rep_mul [OF z(5) rep_sqr [OF t(3)]] t(3)] rep_mul [OF rep_mul [OF t(5) rep_sqr [OF z(3)]] z(3)]
      by (simp_all add: power2_eq_square power3_eq_cube algebra_simps)
    have g: "rep 1 (secp256k1_fe_mul (gej_z a) (secp256k1_fe_mul h (gej_z b))) (z * t * ((x2 - x1) * (z * t) ^ 2))"
      if "rep 3 h ((x2 - x1) * (z * t) ^ 2)" for h
      by (rule rep_cong [OF rep_mul [OF z(3) rep_mul [OF that t(3)]]]) (simp_all add: ac_simps)
    have w: "invertible (z * t)" using z(2) t(2) by (rule invertible_mult)
    show ?thesis
      using var_addition [OF u w s [unfolded p q] double_case [OF a [unfolded p] s [unfolded p q], of "r\<lparr>gej_infinity := False\<rparr>"] g, where r = r] z(1) t(1)
      unfolding p q secp256k1_gej_add_var_def Let_def
      by (simp split: prod.split if_splits) (auto split: if_splits)
  qed
qed

lemma rep_1: "rep 8 (secp256k1_fe_set_int 1) 1"
  using rep_mono [OF rep_set_int [of 1], of 8] by simp

lemma set_ge_point: "ge_point b Q \<Longrightarrow> gej_point (secp256k1_gej_set_ge b) Q"
  using rep_1 invertible_1
  by (cases Q) (auto simp: ge_point_def gej_point_def secp256k1_gej_set_ge_def intro!: exI [of _ 1])

lemma add_ge_var_point:
  assumes a: "gej_point a P" and b: "ge_point b Q" and s: "slope_exists P Q"
  shows "\<exists>R. ec_sum P Q R \<and> gej_point (fst (secp256k1_gej_add_ge_var r a b)) R"
proof (cases P)
  case None
  then show ?thesis using a set_ge_point [OF b] ec_sum.left by (auto simp: secp256k1_gej_add_ge_var_def gej_point_def)
next
  case P: (Some p)
  obtain x1 y1 where p: "P = Some (x1, y1)" using P by (cases p) auto
  obtain z where z: "\<not> gej_infinity a" "invertible z" "rep 8 (gej_z a) z" "rep 8 (gej_x a) (x1 * z ^ 2)" "rep 8 (gej_y a) (y1 * z ^ 3)"
    using gej_pointE [OF a [unfolded p]] .
  show ?thesis
  proof (cases Q)
    case None
    then show ?thesis using a b z(1) ec_sum.right by (auto simp: secp256k1_gej_add_ge_var_def ge_point_def)
  next
    case Q: (Some q)
    obtain x2 y2 where q: "Q = Some (x2, y2)" using Q by (cases q) auto
    have t: "\<not> ge_infinity b" "rep 8 (ge_x b) x2" "rep 8 (ge_y b) y2" using b by (simp_all add: q ge_point_def)
    have u: "rep 1 (secp256k1_fe_normalize_weak (gej_x a)) (x1 * z ^ 2)"
      "rep 1 (secp256k1_fe_mul (ge_x b) (secp256k1_fe_sqr (gej_z a))) (x2 * z ^ 2)"
      "rep 1 (secp256k1_fe_normalize_weak (gej_y a)) (y1 * z ^ 3)"
      "rep 1 (secp256k1_fe_mul (secp256k1_fe_mul (ge_y b) (secp256k1_fe_sqr (gej_z a))) (gej_z a)) (y2 * z ^ 3)"
      using rep_normalize_weak [OF z(4)] rep_mul [OF t(2) rep_sqr [OF z(3)]]
        rep_normalize_weak [OF z(5)] rep_mul [OF rep_mul [OF t(3) rep_sqr [OF z(3)]] z(3)]
      by (simp_all add: power2_eq_square power3_eq_cube algebra_simps)
    have g: "rep 1 (secp256k1_fe_mul (gej_z a) h) (z * ((x2 - x1) * z ^ 2))" if "rep 3 h ((x2 - x1) * z ^ 2)" for h
      by (rule rep_mul [OF z(3) that]) simp_all
    show ?thesis
      using var_addition [OF u z(2) s [unfolded p q] double_case [OF a [unfolded p] s [unfolded p q], of "r\<lparr>gej_infinity := False\<rparr>"] g, where r = r] z(1) t(1)
      unfolding p q secp256k1_gej_add_ge_var_def Let_def
      by (simp split: prod.split if_splits) (auto split: if_splits)
  qed
qed

text \<open>The point \<open>(x, y, 1 / bzinv)\<close>; the z coordinate of the result leaves the factor out.\<close>

lemma add_zinv_var_point:
  assumes a: "gej_point a P" and s: "slope_exists P (Some (x2, y2))" and e: "rep 8 bzinv e" "e * t = 1"
    and b: "\<not> ge_infinity b" "rep 8 (ge_x b) (x2 * t ^ 2)" "rep 8 (ge_y b) (y2 * t ^ 3)"
  shows "\<exists>R. ec_sum P (Some (x2, y2)) R \<and> gej_point (secp256k1_gej_add_zinv_var r a b bzinv) R"
proof -
  have te: "t ^ 2 * (e * e) = 1" "t ^ 3 * (e * e * e) = 1"
  proof -
    have "t ^ 2 * (e * e) = (e * t) * (e * t)" by (simp add: power2_eq_square ac_simps)
    then show "t ^ 2 * (e * e) = 1" by (simp add: e(2))
    have "t ^ 3 * (e * e * e) = (e * t) * (e * t) * (e * t)" by (simp add: power3_eq_cube ac_simps)
    then show "t ^ 3 * (e * e * e) = 1" by (simp add: e(2))
  qed
  show ?thesis
  proof (cases P)
    case None
    have "rep 1 (secp256k1_fe_mul (ge_x b) (secp256k1_fe_sqr bzinv)) (x2 * t ^ 2 * (e * e))"
      "rep 1 (secp256k1_fe_mul (ge_y b) (secp256k1_fe_mul (secp256k1_fe_sqr bzinv) bzinv)) (y2 * t ^ 3 * (e * e * e))"
      using rep_mul [OF b(2) rep_sqr [OF e(1)]] rep_mul [OF b(3) rep_mul [OF rep_sqr [OF e(1)] e(1)]] by simp_all
    then have xy: "rep 1 (secp256k1_fe_mul (ge_x b) (secp256k1_fe_sqr bzinv)) (x2 * 1 ^ 2)"
      "rep 1 (secp256k1_fe_mul (ge_y b) (secp256k1_fe_mul (secp256k1_fe_sqr bzinv) bzinv)) (y2 * 1 ^ 3)"
      by (simp_all only: mult.assoc [of _ "t ^ 2"] mult.assoc [of _ "t ^ 3"] te) simp_all
    have "gej_point (secp256k1_gej_add_zinv_var r a b bzinv) (Some (x2, y2))"
      using a b(1) None unfolding secp256k1_gej_add_zinv_var_def Let_def
      by (intro gej_pointI [where z = 1 and i = 8 and j = 1 and k = 1]) (use xy rep_1 invertible_1 in \<open>simp_all add: gej_point_def\<close>)
    then show ?thesis using None ec_sum.left by blast
  next
    case P: (Some p)
    obtain x1 y1 where p: "P = Some (x1, y1)" using P by (cases p) auto
    obtain z where z: "\<not> gej_infinity a" "invertible z" "rep 8 (gej_z a) z" "rep 8 (gej_x a) (x1 * z ^ 2)" "rep 8 (gej_y a) (y1 * z ^ 3)"
      using gej_pointE [OF a [unfolded p]] .
    have ze: "x2 * t ^ 2 * ((z * e) * (z * e)) = x2 * z ^ 2" "y2 * t ^ 3 * ((z * e) * (z * e)) * (z * e) = y2 * z ^ 3"
    proof -
      have "x2 * t ^ 2 * ((z * e) * (z * e)) = x2 * z ^ 2 * (t ^ 2 * (e * e))" by (simp add: power2_eq_square ac_simps)
      then show "x2 * t ^ 2 * ((z * e) * (z * e)) = x2 * z ^ 2" by (simp add: te)
      have "y2 * t ^ 3 * ((z * e) * (z * e)) * (z * e) = y2 * z ^ 3 * (t ^ 3 * (e * e * e))" by (simp add: power3_eq_cube ac_simps)
      then show "y2 * t ^ 3 * ((z * e) * (z * e)) * (z * e) = y2 * z ^ 3" by (simp add: te)
    qed
    note az = rep_mul [OF z(3) e(1), simplified]
    have u: "rep 1 (secp256k1_fe_normalize_weak (gej_x a)) (x1 * z ^ 2)"
      "rep 1 (secp256k1_fe_mul (ge_x b) (secp256k1_fe_sqr (secp256k1_fe_mul (gej_z a) bzinv))) (x2 * z ^ 2)"
      "rep 1 (secp256k1_fe_normalize_weak (gej_y a)) (y1 * z ^ 3)"
      "rep 1 (secp256k1_fe_mul (secp256k1_fe_mul (ge_y b) (secp256k1_fe_sqr (secp256k1_fe_mul (gej_z a) bzinv))) (secp256k1_fe_mul (gej_z a) bzinv)) (y2 * z ^ 3)"
      using rep_normalize_weak [OF z(4)] rep_mul [OF b(2) rep_sqr [OF az]]
        rep_normalize_weak [OF z(5)] rep_mul [OF rep_mul [OF b(3) rep_sqr [OF az]] az]
      unfolding ze by simp_all
    have g: "rep 1 (secp256k1_fe_mul (gej_z a) h) (z * ((x2 - x1) * z ^ 2))" if "rep 3 h ((x2 - x1) * z ^ 2)" for h
      by (rule rep_mul [OF z(3) that]) simp_all
    show ?thesis
      using var_addition [OF u z(2) s [unfolded p] double_case [OF a [unfolded p] s [unfolded p], of "r\<lparr>gej_infinity := False\<rparr>"] g, where r = r] z(1) b(1)
      unfolding p secp256k1_gej_add_zinv_var_def Let_def
      by (simp split: prod.split if_splits) (auto split: if_splits)
  qed
qed

section \<open>The addition without branches\<close>

lemma fe_cmov_if: "secp256k1_fe_cmov r a (of_bool f) = (if f then a else r)"
  by (cases f) (simp_all add: secp256k1_fe_cmov_def)

lemma fe_const_1: "secp256k1_fe_const 0 0 0 0 0 0 0 1 = secp256k1_fe_set_int 1"
  by (simp add: secp256k1_fe_const_def secp256k1_fe_set_int_def)

lemma complete_coords:
  fixes x1 y1 x2 y2 l w r m :: fp
  assumes l: "l * (m * w) = r" and x3: "x3 = l ^ 2 - x1 - x2" and y3: "y3 = l * (x1 - x3) - y1" and s: "l * (x2 - x1) = y2 - y1"
    and n: "n = m ^ 3 * ((y1 + y2) * w ^ 3)"
  defines "t \<equiv> (x1 + x2) * w ^ 2"
  shows "4 * (r ^ 2 - m ^ 2 * t) = x3 * (2 * (w * m)) ^ 2"
    "4 * (- ((2 * (r ^ 2 - m ^ 2 * t) - m ^ 2 * t) * r + n)) = y3 * (2 * (w * m)) ^ 3"
proof -
  show x: "4 * (r ^ 2 - m ^ 2 * t) = x3 * (2 * (w * m)) ^ 2"
    unfolding l [symmetric] by (simp add: t_def x3 algebra_simps power2_eq_square)
  have "2 * y3 = l * (x1 - x3) - y1 + (l * (x1 - x3) + l * (x2 - x1) - y2)" unfolding s by (simp add: y3)
  then have y: "2 * y3 = l * (x1 + x2 - 2 * x3) - (y1 + y2)" by (simp add: algebra_simps)
  have "y3 * (2 * (w * m)) ^ 3 = 4 * (2 * y3) * (w * m) ^ 3" by (simp add: algebra_simps power3_eq_cube)
  also have "\<dots> = 4 * (- ((2 * (r ^ 2 - m ^ 2 * t) - m ^ 2 * t) * r + n))"
    unfolding y l [symmetric] n by (simp add: t_def x3 algebra_simps power2_eq_square power3_eq_cube)
  finally show "4 * (- ((2 * (r ^ 2 - m ^ 2 * t) - m ^ 2 * t) * r + n)) = y3 * (2 * (w * m)) ^ 3" by simp
qed

text \<open>The coordinates, for \<open>rr\<close> and \<open>m\<close> the numerator and denominator that are chosen.\<close>

definition complete_x :: "fe \<Rightarrow> fe \<Rightarrow> fe \<Rightarrow> fe" where
  "complete_x t rr m =
     secp256k1_fe_normalize_weak (secp256k1_fe_add (secp256k1_fe_sqr rr) (secp256k1_fe_negate (secp256k1_fe_mul (secp256k1_fe_sqr m) t) 1))"

definition complete_y :: "fe \<Rightarrow> fe \<Rightarrow> fe \<Rightarrow> fe \<Rightarrow> fe" where
  "complete_y t rr m n =
     secp256k1_fe_normalize_weak (secp256k1_fe_negate
       (secp256k1_fe_add (secp256k1_fe_mul
          (secp256k1_fe_add (secp256k1_fe_mul_int (complete_x t rr m) 2) (secp256k1_fe_negate (secp256k1_fe_mul (secp256k1_fe_sqr m) t) 1)) rr) n) 3)"

lemma complete_rep:
  assumes t: "rep 2 t T" and r: "rep 2 rr R" and m: "rep 3 m M" and n: "rep 2 n N" and z: "rep 8 z Z"
  shows "rep 4 (secp256k1_fe_mul_int (complete_x t rr m) 4) (4 * (R ^ 2 - M ^ 2 * T))"
    "rep 4 (secp256k1_fe_mul_int (complete_y t rr m n) 4) (4 * (- ((2 * (R ^ 2 - M ^ 2 * T) - M ^ 2 * T) * R + N)))"
    "rep 1 (secp256k1_fe_mul z m) (Z * M)" "rep 2 (secp256k1_fe_mul_int (secp256k1_fe_mul z m) 2) (2 * (Z * M))"
proof -
  note q = rep_negate [OF rep_mul [OF rep_sqr [OF m] t], of 1, simplified]
  note x = rep_normalize_weak [OF rep_add [OF rep_sqr [OF r] q], simplified, folded complete_x_def]
  note s = rep_add [OF rep_mul [OF rep_add [OF rep_mul_int [OF x, of 2] q] r] n, simplified]
  note y = rep_normalize_weak [OF rep_negate [OF s, of 3], simplified, folded complete_y_def]
  show "rep 4 (secp256k1_fe_mul_int (complete_x t rr m) 4) (4 * (R ^ 2 - M ^ 2 * T))"
    using rep_mul_int [OF x, of 4] by (simp add: power2_eq_square)
  show "rep 4 (secp256k1_fe_mul_int (complete_y t rr m n) 4) (4 * (- ((2 * (R ^ 2 - M ^ 2 * T) - M ^ 2 * T) * R + N)))"
    using rep_mul_int [OF y, of 4] by (simp add: power2_eq_square)
  show "rep 1 (secp256k1_fe_mul z m) (Z * M)" by (rule rep_mul [OF z m]) simp_all
  then show "rep 2 (secp256k1_fe_mul_int (secp256k1_fe_mul z m) 2) (2 * (Z * M))"
    using rep_mul_int [of 1 _ _ 2] by simp
qed

text \<open>What the prime of the field gives for two points, beside the slope.\<close>

fun sums_decided :: "point \<Rightarrow> point \<Rightarrow> bool" where
  "sums_decided (Some (x1, y1)) (Some (x2, y2)) =
     ((y1 + y2 = 0 \<or> invertible (y1 + y2)) \<and> (x1 ^ 2 + x1 * x2 + x2 ^ 2 = 0 \<or> invertible (x1 ^ 2 + x1 * x2 + x2 ^ 2)))"
| "sums_decided _ _ = True"

text \<open>The slope by the sum of the y coordinates, on the curve.\<close>

lemma cube_difference: "(x2 - x1) * (x1 ^ 2 + x1 * x2 + x2 ^ 2) = x2 ^ 3 - (x1 :: fp) ^ 3"
  by (simp add: algebra_simps power2_eq_square power3_eq_cube)

lemma curve_difference:
  assumes "on_curve x1 y1" "on_curve x2 y2"
  shows "(y1 + y2) * (y2 - y1) = (x2 - x1) * (x1 ^ 2 + x1 * x2 + x2 ^ 2)"
proof -
  have "(y1 + y2) * (y2 - y1) = y2 ^ 2 - y1 ^ 2" by (simp add: algebra_simps power2_eq_square)
  also have "\<dots> = x2 ^ 3 - x1 ^ 3" using assms by (simp add: on_curve_def)
  finally show ?thesis by (simp add: cube_difference)
qed

lemma unified_slope:
  assumes c: "on_curve x1 y1" "on_curve x2 y2" and s: "invertible (y1 + y2)" and l: "l * (y1 + y2) = x1 ^ 2 + x1 * x2 + x2 ^ 2"
  shows "l * (x2 - x1) = y2 - y1"
proof -
  have "(y1 + y2) * (l * (x2 - x1)) = (x2 - x1) * (l * (y1 + y2))" by (simp add: ac_simps)
  also have "\<dots> = (y1 + y2) * (y2 - y1)" unfolding l curve_difference [OF c] ..
  finally show ?thesis using invertible_cancel [OF s] by blast
qed

definition add_ge_finite :: "gej \<Rightarrow> fe \<Rightarrow> fe \<Rightarrow> fe \<Rightarrow> fe \<Rightarrow> gej" where
  "add_ge_finite a t rr m n =
     \<lparr>gej_x = secp256k1_fe_mul_int (complete_x t rr m) 4, gej_y = secp256k1_fe_mul_int (complete_y t rr m n) 4,
      gej_z = secp256k1_fe_mul_int (secp256k1_fe_mul (gej_z a) m) 2, gej_infinity = secp256k1_fe_normalizes_to_zero (secp256k1_fe_mul (gej_z a) m)\<rparr>"

lemma add_ge_unfold:
  fixes a b
  defines "u1 \<equiv> secp256k1_fe_normalize_weak (gej_x a)" and "u2 \<equiv> secp256k1_fe_mul (ge_x b) (secp256k1_fe_sqr (gej_z a))"
  defines "v1 \<equiv> secp256k1_fe_normalize_weak (gej_y a)"
    and "v2 \<equiv> secp256k1_fe_mul (secp256k1_fe_mul (ge_y b) (secp256k1_fe_sqr (gej_z a))) (gej_z a)"
  defines "t \<equiv> secp256k1_fe_add u1 u2" and "m \<equiv> secp256k1_fe_add v1 v2"
  defines "rr \<equiv> secp256k1_fe_add (secp256k1_fe_sqr t) (secp256k1_fe_mul u1 (secp256k1_fe_negate u2 1))"
  shows "gej_infinity a \<Longrightarrow> secp256k1_gej_add_ge a b = \<lparr>gej_x = ge_x b, gej_y = ge_y b, gej_z = secp256k1_fe_set_int 1, gej_infinity = False\<rparr>"
    "\<not> gej_infinity a \<Longrightarrow> \<not> (secp256k1_fe_normalizes_to_zero m \<and> secp256k1_fe_normalizes_to_zero rr) \<Longrightarrow>
      secp256k1_gej_add_ge a b = add_ge_finite a t rr m (secp256k1_fe_sqr (secp256k1_fe_sqr m))"
    "\<not> gej_infinity a \<Longrightarrow> secp256k1_fe_normalizes_to_zero m \<Longrightarrow> secp256k1_fe_normalizes_to_zero rr \<Longrightarrow>
      secp256k1_gej_add_ge a b = add_ge_finite a t (secp256k1_fe_mul_int v1 2) (secp256k1_fe_add (secp256k1_fe_negate u2 1) u1) m"
  by (simp_all only: secp256k1_gej_add_ge_def Let_def fe_cmov_if fe_const_1 complete_x_def complete_y_def add_ge_finite_def
      u1_def u2_def v1_def v2_def t_def m_def rr_def if_True if_False simp_thms)

text \<open>Both choices of numerator and denominator, once the denominator is invertible.\<close>

lemma complete_point:
  assumes z: "rep 8 (gej_z a) w" "invertible w" and t: "rep 2 t ((x1 + x2) * w ^ 2)" and r: "rep 2 rr R" and m: "rep 3 m M" and n: "rep 2 n N"
    and inv: "invertible M" and N: "N = M ^ 3 * ((y1 + y2) * w ^ 3)"
    and l: "l * (M * w) = R" "l * (x2 - x1) = y2 - y1"
  shows "gej_point (add_ge_finite a t rr m n) (Some (l ^ 2 - x1 - x2, l * (x1 - (l ^ 2 - x1 - x2)) - y1))"
proof -
  note c = complete_rep [OF t r m n z(1)]
  note k = complete_coords [OF l(1) refl refl l(2) N]
  have wm: "invertible (w * M)" using z(2) inv by (rule invertible_mult)
  then have "w * M \<noteq> 0" by (auto simp: invertible_def)
  then have "\<not> gej_infinity (add_ge_finite a t rr m n)"
    using normalizes_to_zero_rep(1) [OF c(3)] by (simp add: add_ge_finite_def)
  moreover have "invertible (2 * (w * M))" using invertible_2 wm by (rule invertible_mult)
  ultimately show ?thesis
    by (rule gej_pointI [where i = 2 and j = 4 and k = 4]) (use c k in \<open>simp_all add: add_ge_finite_def\<close>)
qed

lemma complete_infinity:
  assumes z: "rep 8 (gej_z a) w" and m: "rep 3 m 0"
  shows "gej_point (add_ge_finite a t rr m n) None"
proof -
  have "rep 1 (secp256k1_fe_mul (gej_z a) m) (w * 0)" by (rule rep_mul [OF z m]) simp_all
  then show ?thesis using normalizes_to_zero_rep(1) [of 1] by (simp add: gej_point_def add_ge_finite_def)
qed

lemma add_ge_point:
  assumes a: "gej_point a P" and b: "ge_point b (Some (x2, y2))" and c: "\<And>x y. P = Some (x, y) \<Longrightarrow> on_curve x y" "on_curve x2 y2"
    and s: "slope_exists P (Some (x2, y2))" "sums_decided P (Some (x2, y2))"
  shows "\<exists>R. ec_sum P (Some (x2, y2)) R \<and> gej_point (secp256k1_gej_add_ge a b) R"
proof (cases P)
  case None
  have "gej_point (secp256k1_gej_add_ge a b) (Some (x2, y2))"
    using a b None rep_1 invertible_1
    by (intro gej_pointI [where z = 1 and i = 8 and j = 8 and k = 8]) (simp_all add: gej_point_def ge_point_def add_ge_unfold(1))
  then show ?thesis using None ec_sum.left by blast
next
  case P: (Some p)
  obtain x1 y1 where p: "P = Some (x1, y1)" using P by (cases p) auto
  obtain w where z: "\<not> gej_infinity a" "invertible w" "rep 8 (gej_z a) w" "rep 8 (gej_x a) (x1 * w ^ 2)" "rep 8 (gej_y a) (y1 * w ^ 3)"
    using gej_pointE [OF a [unfolded p]] .
  have bq: "rep 8 (ge_x b) x2" "rep 8 (ge_y b) y2" using b by (simp_all add: ge_point_def)
  have curve: "on_curve x1 y1" "on_curve x2 y2" using c p by simp_all
  define u1 where "u1 = secp256k1_fe_normalize_weak (gej_x a)"
  define u2 where "u2 = secp256k1_fe_mul (ge_x b) (secp256k1_fe_sqr (gej_z a))"
  define v1 where "v1 = secp256k1_fe_normalize_weak (gej_y a)"
  define v2 where "v2 = secp256k1_fe_mul (secp256k1_fe_mul (ge_y b) (secp256k1_fe_sqr (gej_z a))) (gej_z a)"
  define t where "t = secp256k1_fe_add u1 u2"
  define m where "m = secp256k1_fe_add v1 v2"
  define rr where "rr = secp256k1_fe_add (secp256k1_fe_sqr t) (secp256k1_fe_mul u1 (secp256k1_fe_negate u2 1))"
  note unf = add_ge_unfold [of a b, folded u1_def u2_def v1_def v2_def, folded t_def m_def, folded rr_def]
  have u: "rep 1 u1 (x1 * w ^ 2)" "rep 1 u2 (x2 * w ^ 2)" "rep 1 v1 (y1 * w ^ 3)" "rep 1 v2 (y2 * w ^ 3)"
    using rep_normalize_weak [OF z(4)] rep_mul [OF bq(1) rep_sqr [OF z(3)]]
      rep_normalize_weak [OF z(5)] rep_mul [OF rep_mul [OF bq(2) rep_sqr [OF z(3)]] z(3)]
    by (simp_all add: u1_def u2_def v1_def v2_def power2_eq_square power3_eq_cube algebra_simps)
  have t: "rep 2 t ((x1 + x2) * w ^ 2)" using rep_add [OF u(1,2)] by (simp add: t_def algebra_simps numeral_2_eq_2)
  have m: "rep 2 m ((y1 + y2) * w ^ 3)" using rep_add [OF u(3,4)] by (simp add: m_def algebra_simps numeral_2_eq_2)
  have rr: "rep 2 rr ((x1 ^ 2 + x1 * x2 + x2 ^ 2) * w ^ 4)"
    using rep_add [OF rep_sqr [OF t] rep_mul [OF u(1) rep_negate [OF u(2), of 1]]]
    by (simp add: rr_def algebra_simps numeral_2_eq_2 power4_eq_xxxx)
  have m0: "secp256k1_fe_normalizes_to_zero m = (y1 + y2 = 0)"
    using normalizes_to_zero_rep(1) [OF m] invertible_mult_0 [OF invertible_power [OF z(2), of 3], of "y1 + y2"] by simp
  have r0: "secp256k1_fe_normalizes_to_zero rr = (x1 ^ 2 + x1 * x2 + x2 ^ 2 = 0)"
    using normalizes_to_zero_rep(1) [OF rr] invertible_mult_0 [OF invertible_power [OF z(2), of 4], of "x1 ^ 2 + x1 * x2 + x2 ^ 2"] by simp
  have distinct: "y1 \<noteq> y2" if "x1 = x2" "y1 + y2 = 0"
  proof
    assume "y1 = y2"
    then have "invertible (y1 + y2)" using s(1) that(1) p by simp
    then show False using that(2) by (simp add: invertible_def)
  qed
  show ?thesis
  proof (cases "y1 + y2 = 0")
    case False
    then have inv: "invertible (y1 + y2)" using s(2) p by simp
    obtain l where l: "l * (y1 + y2) = x1 ^ 2 + x1 * x2 + x2 ^ 2" using invertible_slope [OF inv] by blast
    have slope: "l * (x2 - x1) = y2 - y1" by (rule unified_slope [OF curve inv l])
    have n: "rep 2 (secp256k1_fe_sqr (secp256k1_fe_sqr m)) (((y1 + y2) * w ^ 3) ^ 3 * ((y1 + y2) * w ^ 3))"
      using rep_mono [OF rep_sqr [OF rep_sqr [OF m]], of 2] by (simp add: power3_eq_cube ac_simps)
    have lr: "l * ((y1 + y2) * w ^ 3 * w) = (x1 ^ 2 + x1 * x2 + x2 ^ 2) * w ^ 4"
      unfolding l [symmetric] by (simp add: power3_eq_cube power4_eq_xxxx ac_simps)
    have "secp256k1_gej_add_ge a b = add_ge_finite a t rr m (secp256k1_fe_sqr (secp256k1_fe_sqr m))"
      by (rule unf(2)) (use z(1) m0 False in simp_all)
    then have pt: "gej_point (secp256k1_gej_add_ge a b) (Some (l ^ 2 - x1 - x2, l * (x1 - (l ^ 2 - x1 - x2)) - y1))"
      using complete_point [OF z(3,2) t rr rep_mono [OF m] n invertible_mult [OF inv invertible_power [OF z(2)]] refl lr slope] by simp
    show ?thesis
    proof (cases "x1 = x2")
      case True
      have "(y1 + y2) * (y2 - y1) = (y1 + y2) * 0" using curve_difference [OF curve] True by simp
      then have "y1 = y2" using invertible_cancel [OF inv, of "y2 - y1" 0] by simp
      moreover have "l * (2 * y1) = 3 * x1 ^ 2" using l True \<open>y1 = y2\<close> by (simp add: power2_eq_square)
      ultimately show ?thesis using pt True p ec_sum.tangent [of l y1 x1, OF _ refl refl] by (auto simp: algebra_simps)
    next
      case False
      then show ?thesis using pt p ec_sum.chord [OF False slope refl refl] by blast
    qed
  next
    case y: True
    have m': "rep 3 m 0" using rep_mono [OF m, of 3] y by simp
    show ?thesis
    proof (cases "x1 ^ 2 + x1 * x2 + x2 ^ 2 = 0")
      case False
      then have inv: "invertible (x1 ^ 2 + x1 * x2 + x2 ^ 2)" using s(2) p by simp
      have "(x1 ^ 2 + x1 * x2 + x2 ^ 2) * (x2 - x1) = (x1 ^ 2 + x1 * x2 + x2 ^ 2) * 0"
        using curve_difference [OF curve] y by (simp add: mult.commute)
      then have x: "x1 = x2" using invertible_cancel [OF inv, of "x2 - x1" 0] by simp
      have "secp256k1_gej_add_ge a b = add_ge_finite a t rr m (secp256k1_fe_sqr (secp256k1_fe_sqr m))"
        by (rule unf(2)) (use z(1) r0 False in simp_all)
      then show ?thesis using complete_infinity [where a = a, OF z(3) m'] ec_sum.opposite [OF distinct [OF x y], of x1] x p by auto
    next
      case True
      let ?m = "secp256k1_fe_add (secp256k1_fe_negate u2 1) u1"
      have alt: "rep 3 ?m ((x1 - x2) * w ^ 2)" "rep 2 (secp256k1_fe_mul_int v1 2) (2 * (y1 * w ^ 3))"
      proof -
        show "rep 3 ?m ((x1 - x2) * w ^ 2)"
          using rep_add [OF rep_negate [OF u(2), of 1] u(1)] by (simp add: algebra_simps numeral_3_eq_3)
        show "rep 2 (secp256k1_fe_mul_int v1 2) (2 * (y1 * w ^ 3))" using rep_mul_int [OF u(3), of 2] by simp
      qed
      have run: "secp256k1_gej_add_ge a b = add_ge_finite a t (secp256k1_fe_mul_int v1 2) ?m m"
        by (rule unf(3)) (use z(1) m0 r0 y True in simp_all)
      show ?thesis
      proof (cases "x1 = x2")
        case x: True
        then have "rep 3 ?m 0" using alt(1) by simp
        then show ?thesis using complete_infinity [where a = a, OF z(3)] run ec_sum.opposite [OF distinct [OF x y], of x1] x p by auto
      next
        case x: False
        then have inv: "invertible (x2 - x1)" using s(1) p by simp
        then obtain l where l: "l * (x2 - x1) = y2 - y1" using invertible_slope by blast
        have "invertible ((-1) * (x2 - x1))" by (rule invertible_mult [OF _ inv]) (auto simp: invertible_def intro: exI [of _ "-1"])
        then have inv': "invertible ((x1 - x2) * w ^ 2)" using invertible_mult [OF _ invertible_power [OF z(2)]] by simp
        have "2 * y1 = - (l * (x2 - x1))" unfolding l using y by (simp add: eq_neg_iff_add_eq_0 algebra_simps)
        then have lr: "l * ((x1 - x2) * w ^ 2 * w) = 2 * (y1 * w ^ 3)"
          by (simp add: mult.assoc [symmetric]) (simp add: power2_eq_square power3_eq_cube algebra_simps)
        have n: "0 = ((x1 - x2) * w ^ 2) ^ 3 * ((y1 + y2) * w ^ 3)" using y by simp
        have m0: "rep 2 m 0" using m y by simp
        have "gej_point (secp256k1_gej_add_ge a b) (Some (l ^ 2 - x1 - x2, l * (x1 - (l ^ 2 - x1 - x2)) - y1))"
          unfolding run by (rule complete_point [OF z(3,2) t alt(2,1) m0 inv' n lr l])
        then show ?thesis using p ec_sum.chord [OF x l refl refl] by blast
      qed
    qed
  qed
qed

end
