(* ===== verification/Group_Law.thy ===== *)
theory Group_Law
  imports Group_Correct
begin

text \<open>
  What the group operations promise: sums are unique and stay on the curve, the additions
  compute them, the validity tests decide the curve equation, conversions and the storage
  format keep the point, and a point is recovered from its x coordinate and the parity of y.
\<close>

section \<open>Sums of points\<close>

lemma ec_sum_unique:
  assumes "slope_exists P Q" "ec_sum P Q R" "ec_sum P Q R'"
  shows "R = R'"
proof (cases "P = None \<or> Q = None")
  case True
  then show ?thesis using assms(2,3) by (auto elim: ec_sum.cases)
next
  case False
  then obtain x1 y1 x2 y2 where pq: "P = Some (x1, y1)" "Q = Some (x2, y2)" by auto
  have eq: "l = l'" if "invertible a" "l * a = b" "l' * a = b" for l l' a b :: fp
    using invertible_cancel [OF that(1), of l l'] that(2,3) by (simp add: mult.commute)
  have double: "l = l'" if "x1 = x2" "y1 = y2" "l * (2 * y1) = b" "l' * (2 * y1) = b" for l l' b
    by (rule eq [OF _ that(3,4)]) (use assms(1) pq that in simp)
  have chord: "l = l'" if "x1 \<noteq> x2" "l * (x2 - x1) = b" "l' * (x2 - x1) = b" for l l' b
    by (rule eq [OF _ that(2,3)]) (use assms(1) pq that in simp)
  show ?thesis
    using assms(2,3) unfolding pq
    by (elim ec_sum_SomeE) (simp_all, (use double in blast | use chord in blast)+)
qed

fun point_on_curve :: "point \<Rightarrow> bool" where
  "point_on_curve None = True"
| "point_on_curve (Some (x, y)) = on_curve x y"

text \<open>The third intersection of a line with the curve, with the slope given by Vieta's formulas.\<close>

lemma third_point:
  fixes x1 :: fp
  assumes c: "on_curve x1 y1" and y: "y3 = l * (x1 - x3) - y1"
    and v: "l ^ 2 * (x1 - x3) - 2 * y1 * l + x3 ^ 2 + x1 * x3 + x1 ^ 2 = 0"
  shows "on_curve x3 y3"
proof -
  have "y3 ^ 2 - x3 ^ 3 - 7 - (y1 ^ 2 - x1 ^ 3 - 7) =
      (x1 - x3) * (l ^ 2 * (x1 - x3) - 2 * y1 * l + x3 ^ 2 + x1 * x3 + x1 ^ 2)"
    by (simp add: y algebra_simps power2_eq_square power3_eq_cube)
  then show ?thesis using c unfolding v on_curve_def by (simp add: algebra_simps)
qed

lemma chord_vieta:
  fixes x1 :: fp
  assumes c: "on_curve x1 y1" "on_curve x2 y2" and d: "invertible (x2 - x1)" and l: "l * (x2 - x1) = y2 - y1" and x: "x3 = l ^ 2 - x1 - x2"
  shows "l ^ 2 * (x1 - x3) - 2 * y1 * l + x3 ^ 2 + x1 * x3 + x1 ^ 2 = 0" (is "?B = 0")
proof -
  have y2: "y2 = l * (x2 - x1) + y1" unfolding l by simp
  have "(x2 - x1) * ?B = (x2 ^ 3 - x1 ^ 3) - (y2 ^ 2 - y1 ^ 2)"
    by (simp add: x y2 algebra_simps power2_eq_square power3_eq_cube)
  also have "\<dots> = 0" using c by (simp add: on_curve_def)
  finally have "(x2 - x1) * ?B = (x2 - x1) * 0" by simp
  then show ?thesis using invertible_cancel [OF d] by blast
qed

lemma ec_sum_on_curve:
  assumes "ec_sum P Q R" "slope_exists P Q" "point_on_curve P" "point_on_curve Q"
  shows "point_on_curve R"
  using assms
proof cases
  case (tangent l y x x' y')
  have "l ^ 2 * (x - x') - 2 * y * l + x' ^ 2 + x * x' + x ^ 2 = 3 * x ^ 2 - l * (2 * y)"
    by (simp add: tangent(5) algebra_simps power2_eq_square)
  then show ?thesis using third_point [of x y y' l x'] tangent assms(3) by simp
next
  case (chord x1 x2 l y2 y1 x' y')
  then show ?thesis using third_point [of x1 y1 y' l x'] chord_vieta [of x1 y1 x2 y2 l x'] assms by simp
qed (use assms in simp_all)

section \<open>The additions\<close>

lemma gej_point_unique:
  assumes "gej_point a P" "gej_point a Q"
  shows "P = Q"
proof (cases "P = None \<or> Q = None")
  case True
  then show ?thesis using assms by (auto simp: gej_point_def split: option.splits)
next
  case False
  then obtain x y x' y' where pq: "P = Some (x, y)" "Q = Some (x', y')" by auto
  obtain z where z: "invertible z" "rep 8 (gej_z a) z" "rep 8 (gej_x a) (x * z ^ 2)" "rep 8 (gej_y a) (y * z ^ 3)"
    using gej_pointE [OF assms(1) [unfolded pq]] .
  obtain z' where z': "rep 8 (gej_z a) z'" "rep 8 (gej_x a) (x' * z' ^ 2)" "rep 8 (gej_y a) (y' * z' ^ 3)"
    using gej_pointE [OF assms(2) [unfolded pq]] .
  have "z' = z" "x * z ^ 2 = x' * z' ^ 2" "y * z ^ 3 = y' * z' ^ 3" using z(2-4) z' by (simp_all add: rep_def)
  then show ?thesis
    using invertible_cancel [OF invertible_power [OF z(1), of 2], of x x'] invertible_cancel [OF invertible_power [OF z(1), of 3], of y y']
    by (simp add: pq mult.commute)
qed

text \<open>Points made of small numbers, for the witnesses.\<close>

lemma set_int_point:
  "unat k \<le> 0x1FFFFFFFFFFFFE \<Longrightarrow> unat m \<le> 0x1FFFFFFFFFFFFE \<Longrightarrow>
    gej_point \<lparr>gej_x = secp256k1_fe_set_int k, gej_y = secp256k1_fe_set_int m, gej_z = secp256k1_fe_set_int 1, gej_infinity = False\<rparr>
      (Some (of_nat (unat k), of_nat (unat m)))"
  by (rule gej_pointI [where z = 1 and i = 1 and j = 1 and k = 1])
    (use rep_set_int [of 1] rep_set_int [of k] rep_set_int [of m] invertible_1 in simp_all)

text \<open>
  C32: (variable-time addition is the group law) for Jacobian points over any z coordinates,
  infinity included, \<open>secp256k1_gej_add_var\<close> computes the sum of the two points, which is
  unique: the chord, the tangent where the points are equal, infinity where they are opposite.
  What is needed of the field is that the slope exists.
\<close>

theorem gej_add_var_correct:
  assumes "gej_point a P" "gej_point b Q" "slope_exists P Q"
  shows "(ec_sum P Q R \<longleftrightarrow> gej_point (fst (secp256k1_gej_add_var r a b)) R)"
  using add_var_point [OF assms, of r] ec_sum_unique [OF assms(3)] gej_point_unique by metis

theorem gej_add_var_correct_witness:
  "gej_point (fst (secp256k1_gej_add_var (secp256k1_gej_set_ge secp256k1_ge_const_g)
      \<lparr>gej_x = secp256k1_fe_set_int 1, gej_y = secp256k1_fe_set_int 1, gej_z = secp256k1_fe_set_int 1, gej_infinity = False\<rparr>
      \<lparr>gej_x = secp256k1_fe_set_int 2, gej_y = secp256k1_fe_set_int 4, gej_z = secp256k1_fe_set_int 1, gej_infinity = False\<rparr>))
     (Some (6, - 16))"
proof -
  have "ec_sum (Some (1, 1)) (Some (2, 4)) (Some (6, - 16))"
    by (rule ec_sum.chord [of _ _ 3]) (use of_nat_fp_eq [of 1 2] in \<open>simp_all add: secp256k1_p_def\<close>)
  then show ?thesis
    using gej_add_var_correct [OF set_int_point [of 1 1] set_int_point [of 2 4]] invertible_1 by simp
qed


text \<open>Products of large numbers of the field, by the quotient.\<close>

lemma fp_product:
  assumes "(a :: nat) * b = q * secp256k1_p + c"
  shows "(of_nat a :: fp) * of_nat b = of_nat c"
proof -
  have "(of_nat (a * b) :: fp) = of_nat c" unfolding assms of_nat_fp_eq by simp
  then show ?thesis by simp
qed

text \<open>The generator is on the curve.\<close>

definition gen_x :: nat where
  "gen_x = 0x79be667ef9dcbbac55a06295ce870b07029bfcdb2dce28d959f2815b16f81798"

definition gen_y :: nat where
  "gen_y = 0x483ada7726a3c4655da4fbfc0e1108a8fd17b448a68554199c47d08ffb10d4b8"

lemma gen_rep: "ge_point secp256k1_ge_const_g (Some (of_nat gen_x, of_nat gen_y))"
proof -
  have "fval (ge_x secp256k1_ge_const_g) = gen_x" "fval (ge_y secp256k1_ge_const_g) = gen_y"
    "fe_mag 8 (ge_x secp256k1_ge_const_g)" "fe_mag 8 (ge_y secp256k1_ge_const_g)"
    by (simp_all add: gen_x_def gen_y_def secp256k1_ge_const_g_def secp256k1_fe_const_def fval_def fe_mag_def unsigned_or_eq)
  then show ?thesis by (simp add: ge_point_def rep_def fe_elem_def secp256k1_ge_const_g_def)
qed

lemma gen_x_square:
  "gen_x * gen_x = 0x39e58a8055b6fb264b75ec8c646509784204ac15a8c24e05babc9729e58090b9 * secp256k1_p + 0x8550e7d238fcf3086ba9adcf0fb52a9de3652194d06cb5bb38d50229b854fc49"
  by (simp add: gen_x_def secp256k1_p_def)

lemma gen_x_cube:
  "0x8550e7d238fcf3086ba9adcf0fb52a9de3652194d06cb5bb38d50229b854fc49 * gen_x = 0x3f6664fec7445b86bad8c9a43effc5dc7384557bb62eadd8e2177ae0a2039723 * secp256k1_p + 0x4866d6a5ab41ab2c6bcc57ccd3735da5f16f80a548e5e20a44e4e9b8118c26eb"
  by (simp add: gen_x_def secp256k1_p_def)

lemma gen_y_square:
  "gen_y * gen_y = 0x1461286abe28c5f1df2d7d4bca391b5070f6ec678fe75b56871bf154987e3e12 * secp256k1_p + 0x4866d6a5ab41ab2c6bcc57ccd3735da5f16f80a548e5e20a44e4e9b8118c26f2"
  by (simp add: gen_y_def secp256k1_p_def)

lemma gen_on_curve: "on_curve (of_nat gen_x) (of_nat gen_y)"
proof -
  have "(of_nat 0x4866d6a5ab41ab2c6bcc57ccd3735da5f16f80a548e5e20a44e4e9b8118c26f2 :: fp) = of_nat (0x4866d6a5ab41ab2c6bcc57ccd3735da5f16f80a548e5e20a44e4e9b8118c26eb + 7)"
    by (simp add: of_nat_fp_eq secp256k1_p_def)
  then show ?thesis
    unfolding on_curve_def power2_eq_square power3_eq_cube
      fp_product [OF gen_y_square] fp_product [OF gen_x_square] fp_product [OF gen_x_cube] by (simp only: of_nat_add) simp
qed

text \<open>A point with small coordinates in its equations, and its double, for the witnesses.\<close>

definition root8 :: nat where
  "root8 = 0x4218f20ae6c646b363db68605822fb14264ca8d2587fdd6fbc750d587e76a7ee"

definition sixteenth :: fp where
  "sixteenth = 0xfffffffffffffffffffffffffffffffffffffffffffffffffffffffefffffc3"

definition point_1 :: ge where
  "point_1 = \<lparr>ge_x = secp256k1_fe_set_int 1,
     ge_y = secp256k1_fe_const 0x4218f20a 0xe6c646b3 0x63db6860 0x5822fb14 0x264ca8d2 0x587fdd6f 0xbc750d58 0x7e76a7ee, ge_infinity = False\<rparr>"

lemma root8_square: "(of_nat root8 :: fp) * of_nat root8 = 8"
proof -
  have "root8 * root8 = 0x1110df3be5e21e6776516a5fa6702d71d937b2614804cce0315f9575458ff784 * secp256k1_p + 8"
    by (simp add: root8_def secp256k1_p_def)
  from fp_product [OF this] show ?thesis by simp
qed

lemma sixteenth: "16 * sixteenth = 1"
  using of_nat_fp_eq [of "16 * 0xfffffffffffffffffffffffffffffffffffffffffffffffffffffffefffffc3" 1] by (simp add: sixteenth_def secp256k1_p_def)

lemma point_1_rep: "ge_point point_1 (Some (1, of_nat root8))"
proof -
  have "fval (ge_y point_1) = root8" "fe_mag 8 (ge_y point_1)"
    by (simp_all add: point_1_def root8_def secp256k1_fe_const_def fval_def fe_mag_def unsigned_or_eq)
  then show ?thesis using rep_mono [OF rep_set_int [of 1], of 8] by (simp add: ge_point_def rep_def fe_elem_def point_1_def)
qed

lemma point_1_on_curve: "on_curve 1 (of_nat root8)"
  using root8_square by (simp add: on_curve_def power2_eq_square)

lemma point_1_invertible: "invertible (2 * of_nat root8)"
proof -
  have "2 * of_nat root8 * (of_nat root8 * sixteenth) = 2 * (of_nat root8 * of_nat root8) * sixteenth" by (simp add: ac_simps)
  also have "\<dots> = 1" unfolding root8_square using sixteenth by simp
  finally show ?thesis unfolding invertible_def by blast
qed

lemma point_1_sums: "sums_decided (Some (1, of_nat root8)) (Some (1, of_nat root8))"
proof -
  have "(3 :: fp) * 0xaaaaaaaaaaaaaaaaaaaaaaaaaaaaaaaaaaaaaaaaaaaaaaaaaaaaaaa9fffffd75 = 1"
    using of_nat_fp_eq [of "3 * 0xaaaaaaaaaaaaaaaaaaaaaaaaaaaaaaaaaaaaaaaaaaaaaaaaaaaaaaa9fffffd75" 1] by (simp add: secp256k1_p_def)
  then have "invertible 3" unfolding invertible_def by blast
  then show ?thesis using point_1_invertible by (simp flip: mult_2)
qed

definition point_2 :: point where
  "point_2 = (let l = 3 * sixteenth * of_nat root8; x = l ^ 2 - 2 in Some (x, l * (1 - x) - of_nat root8))"

lemma point_1_double: "ec_sum (Some (1, of_nat root8)) (Some (1, of_nat root8)) point_2"
proof -
  have "3 * sixteenth * of_nat root8 * (2 * of_nat root8) = 6 * sixteenth * (of_nat root8 * of_nat root8)" by (simp add: ac_simps)
  also have "\<dots> = 3 * (16 * sixteenth)" unfolding root8_square by simp
  finally show ?thesis unfolding point_2_def Let_def sixteenth by (intro ec_sum.tangent) simp_all
qed

text \<open>
  C33: (constant-time addition is the group law) \<open>secp256k1_gej_add_ge\<close>, which adds an affine
  point on the curve without a branch on the points, by one formula for chords and tangents and
  a second one where that degenerates, computes the same sums: all cases of doubling, opposite
  points, points with opposite y and the first point at infinity included.
\<close>

theorem gej_add_ge_correct:
  assumes "gej_point a P" "ge_point b (Some (x2, y2))" "point_on_curve P" "on_curve x2 y2"
    and "slope_exists P (Some (x2, y2))" "sums_decided P (Some (x2, y2))"
  shows "(ec_sum P (Some (x2, y2)) R \<longleftrightarrow> gej_point (secp256k1_gej_add_ge a b) R)"
proof -
  have c: "on_curve x y" if "P = Some (x, y)" for x y using assms(3) that by simp
  show ?thesis
    using add_ge_point [OF assms(1,2) c assms(4-6)] ec_sum_unique [OF assms(5)] gej_point_unique by metis
qed

theorem gej_add_ge_correct_witness:
  "gej_point (secp256k1_gej_add_ge (secp256k1_gej_set_ge point_1) point_1) point_2"
  using gej_add_ge_correct [OF set_ge_point [OF point_1_rep] point_1_rep _ point_1_on_curve _ point_1_sums]
    point_1_on_curve point_1_invertible point_1_double by simp

section \<open>Validity\<close>

lemma ge_is_valid_point:
  assumes "ge_point a (Some (x, y))"
  shows "secp256k1_ge_is_valid_var a = on_curve x y"
proof -
  have x: "rep 8 (ge_x a) x" and y: "rep 8 (ge_y a) y" and i: "\<not> ge_infinity a" using assms by (simp_all add: ge_point_def)
  note c = rep_normalize_weak [OF rep_add [OF rep_mul [OF rep_sqr [OF x] x] rep_set_int [of CURVE_B]], simplified]
  have "secp256k1_ge_is_valid_var a = (y * y = x * x * x + 7)"
    using equal_var_rep(2) [OF rep_sqr [OF y] c] i by (simp add: secp256k1_ge_is_valid_var_def Let_def)
  then show ?thesis by (simp add: on_curve_def power2_eq_square power3_eq_cube)
qed

lemma gej_is_valid_point:
  assumes "gej_point a (Some (x, y))"
  shows "secp256k1_gej_is_valid_var a = on_curve x y"
proof -
  obtain z where z: "\<not> gej_infinity a" "invertible z" "rep 8 (gej_z a) z" "rep 8 (gej_x a) (x * z ^ 2)" "rep 8 (gej_y a) (y * z ^ 3)"
    using gej_pointE [OF assms] .
  note z2 = rep_sqr [OF z(3), simplified]
  note z6 = rep_mul_int [OF rep_mul [OF rep_sqr [OF z2] z2], of CURVE_B, simplified]
  note c = rep_normalize_weak [OF rep_add [OF rep_mul [OF rep_sqr [OF z(4)] z(4)] z6], simplified]
  have "secp256k1_gej_is_valid_var a = ((y * z ^ 3) * (y * z ^ 3) = x * z ^ 2 * (x * z ^ 2) * (x * z ^ 2) + 7 * (z * z * (z * z) * (z * z)))"
    using equal_var_rep(2) [OF rep_sqr [OF z(5)] c] z(1) by (simp add: secp256k1_gej_is_valid_var_def Let_def)
  also have "\<dots> = (z ^ 6 * y ^ 2 = z ^ 6 * (x ^ 3 + 7))"
    by (simp add: algebra_simps power2_eq_square power3_eq_cube eval_nat_numeral)
  also have "\<dots> = (y ^ 2 = x ^ 3 + 7)" by (rule invertible_cancel [OF invertible_power [OF z(2)]])
  finally show ?thesis by (simp add: on_curve_def)
qed

lemma gej_infinity_invalid: "gej_infinity a \<Longrightarrow> \<not> secp256k1_gej_is_valid_var a"
  by (simp add: secp256k1_gej_is_valid_var_def)

lemma gej_point_infinity: "gej_point a P \<Longrightarrow> gej_infinity a = (P = None)"
  by (auto simp: gej_point_def split: option.splits)

text \<open>
  (addition keeps points on the curve) if both arguments pass the validity test, which is the
  equation of the curve on Jacobian coordinates, the result of \<open>secp256k1_gej_add_var\<close> passes it
  too, or is at infinity.
\<close>

theorem gej_add_var_valid:
  assumes "gej_point a P" "gej_point b Q" "slope_exists P Q" "secp256k1_gej_is_valid_var a" "secp256k1_gej_is_valid_var b"
  shows "(let s = fst (secp256k1_gej_add_var r a b) in secp256k1_gej_is_valid_var s \<noteq> gej_infinity s)"
proof -
  obtain R where R: "ec_sum P Q R" "gej_point (fst (secp256k1_gej_add_var r a b)) R"
    using add_var_point [OF assms(1-3)] by blast
  have curve: "point_on_curve T" if "gej_point c T" "secp256k1_gej_is_valid_var c" for c T
    using that gej_is_valid_point [of c] by (cases T rule: point_on_curve.cases) auto
  have "point_on_curve R" by (rule ec_sum_on_curve [OF R(1) assms(3)]) (use assms curve in blast)+
  then show ?thesis
    using R(2) gej_is_valid_point [of "fst (secp256k1_gej_add_var r a b)"] gej_infinity_invalid
    by (cases R rule: point_on_curve.cases) (auto simp: Let_def dest: gej_point_infinity)
qed

theorem gej_add_var_valid_witness:
  "(let a = secp256k1_gej_set_ge point_1; s = fst (secp256k1_gej_add_var a a a)
    in secp256k1_gej_is_valid_var s \<noteq> gej_infinity s)"
  using gej_add_var_valid [OF set_ge_point [OF point_1_rep] set_ge_point [OF point_1_rep]] point_1_invertible
    gej_is_valid_point [OF set_ge_point [OF point_1_rep]] point_1_on_curve by (simp add: Let_def)

section \<open>Conversions\<close>

lemma inverse_by_fermat:
  fixes z :: fp
  assumes "z ^ (secp256k1_p - 1) = 1"
  shows "z ^ (secp256k1_p - 2) * z = 1"
proof -
  have "Suc (secp256k1_p - 2) = secp256k1_p - 1" by (simp add: secp256k1_p_def)
  then show ?thesis using assms by (metis power_Suc2)
qed

text \<open>Both conversions to affine coordinates, which also rescale their argument to z = 1.\<close>

lemma affine_coords:
  assumes z: "invertible z" "rep 8 (gej_z a) z" "rep 8 (gej_x a) (x * z ^ 2)" "rep 8 (gej_y a) (y * z ^ 3)"
    and f: "z ^ (secp256k1_p - 1) = 1"
  defines "i \<equiv> secp256k1_fe_inv (gej_z a)"
  shows "rep 1 (secp256k1_fe_mul (gej_x a) (secp256k1_fe_sqr i)) x"
    "rep 1 (secp256k1_fe_mul (gej_y a) (secp256k1_fe_mul i (secp256k1_fe_sqr i))) y"
proof -
  define w where "w = z ^ (secp256k1_p - 2)"
  have w: "w * z = 1" unfolding w_def by (rule inverse_by_fermat [OF f])
  have i: "rep 1 i w" unfolding i_def w_def by (rule rep_inv [OF z(2)]) simp
  have "x * z ^ 2 * (w * w) = x * ((w * z) * (w * z))" "y * z ^ 3 * (w * (w * w)) = y * ((w * z) * (w * z) * (w * z))"
    by (simp_all add: ac_simps power2_eq_square power3_eq_cube)
  then have e: "x * z ^ 2 * (w * w) = x" "y * z ^ 3 * (w * (w * w)) = y" unfolding w by simp_all
  show "rep 1 (secp256k1_fe_mul (gej_x a) (secp256k1_fe_sqr i)) x"
    by (rule rep_cong [OF rep_mul [OF z(3) rep_sqr [OF i]] e(1)]) simp_all
  show "rep 1 (secp256k1_fe_mul (gej_y a) (secp256k1_fe_mul i (secp256k1_fe_sqr i))) y"
    by (rule rep_cong [OF rep_mul [OF z(4) rep_mul [OF i rep_sqr [OF i]]] e(2)]) simp_all
qed

text \<open>
  C34: (affine coordinates) \<open>secp256k1_ge_set_gej_var\<close> and its constant-time variant give affine
  coordinates of the same point, and leave their argument, rescaled to z = 1, standing for it
  too. The inverse is a power of z, so z is a number for which Fermat's theorem holds.
\<close>

theorem ge_set_gej_correct:
  assumes "gej_point a P" "gej_infinity a \<or> fe_elem (gej_z a) ^ (secp256k1_p - 1) = 1"
  shows "ge_point (fst (secp256k1_ge_set_gej_var r a)) P \<and> gej_point (snd (secp256k1_ge_set_gej_var r a)) P \<and>
    ge_point (fst (secp256k1_ge_set_gej a)) P \<and> gej_point (snd (secp256k1_ge_set_gej a)) P"
proof (cases P)
  case None
  then show ?thesis using assms(1)
    by (simp add: gej_point_def ge_point_def secp256k1_ge_set_gej_var_def secp256k1_ge_set_gej_def Let_def)
next
  case (Some p)
  obtain x y where p: "P = Some (x, y)" using Some by (cases p) auto
  obtain z where z: "\<not> gej_infinity a" "invertible z" "rep 8 (gej_z a) z" "rep 8 (gej_x a) (x * z ^ 2)" "rep 8 (gej_y a) (y * z ^ 3)"
    using gej_pointE [OF assms(1) [unfolded p]] .
  have f: "z ^ (secp256k1_p - 1) = 1" using assms(2) z(1,3) by (simp add: rep_def)
  note c = affine_coords [OF z(2-5) f]
  have "gej_point (a\<lparr>gej_x := u, gej_y := v, gej_z := secp256k1_fe_set_int 1\<rparr>) P" if "rep 1 u x" "rep 1 v y" for u v
    unfolding p by (rule gej_pointI [where z = 1 and i = 1 and j = 1 and k = 1])
      (use z(1) that invertible_1 rep_set_int [of 1] in simp_all)
  then show ?thesis
    using c z(1) p rep_mono [of 1 _ _ 8]
    by (simp add: secp256k1_ge_set_gej_var_def secp256k1_ge_set_gej_def secp256k1_fe_inv_var_def Let_def ge_point_def)
qed

theorem ge_set_gej_correct_witness:
  "ge_point (fst (secp256k1_ge_set_gej (secp256k1_gej_set_ge secp256k1_ge_const_g))) (Some (of_nat gen_x, of_nat gen_y))"
  using ge_set_gej_correct [OF set_ge_point [OF gen_rep]] rep_set_int [of 1] by (simp add: secp256k1_gej_set_ge_def rep_def)

text \<open>
  C35: (storage keeps the point) packing the coordinates of an affine point, of any magnitude up to
  8, into words and unpacking them gives the canonical coordinates of the same point.
\<close>

theorem ge_storage_roundtrip:
  assumes "ge_point a (Some (x, y))"
  shows "(let b = secp256k1_ge_from_storage (secp256k1_ge_to_storage a)
    in ge_point b (Some (x, y)) \<and> fe_norm (ge_x b) \<and> fe_norm (ge_y b))"
proof -
  have norm: "fe_norm (secp256k1_fe_normalize c) \<and> rep 8 (secp256k1_fe_normalize c) v" if "rep 8 c v" for c v
  proof -
    have l: "fe_loose c" using that by (auto simp: rep_def intro: fe_mag_loose)
    have "fe_elem (secp256k1_fe_normalize c) = fe_elem c" using normalize_val [OF l] by (simp add: fe_elem_def of_nat_fp_eq)
    then show ?thesis
      using that normalize_val [OF l] fe_mag_mono [OF fe_norm_mag, of _ 8] by (simp add: rep_def)
  qed
  show ?thesis
    using assms norm [of "ge_x a" x] norm [of "ge_y a" y]
      fe_storage_roundtrip [of "secp256k1_fe_normalize (ge_x a)"] fe_storage_roundtrip [of "secp256k1_fe_normalize (ge_y a)"]
    by (simp add: Let_def secp256k1_ge_from_storage_def secp256k1_ge_to_storage_def ge_point_def)
qed

theorem ge_storage_roundtrip_witness:
  "(let b = secp256k1_ge_from_storage (secp256k1_ge_to_storage secp256k1_ge_const_g)
    in ge_point b (Some (of_nat gen_x, of_nat gen_y)) \<and> fe_norm (ge_x b) \<and> fe_norm (ge_y b))"
  by (rule ge_storage_roundtrip [OF gen_rep])

section \<open>Points from their x coordinate\<close>

definition fp_odd :: "fp \<Rightarrow> bool" where
  "fp_odd v = odd (Rep_fp v)"

lemma of_nat_mod_fp: "(of_nat (n mod secp256k1_p) :: fp) = of_nat n"
  by (simp add: of_nat_fp_eq)

lemma normalized_odd:
  assumes "rep m a v" "m \<le> 500"
  shows "secp256k1_fe_is_odd (secp256k1_fe_normalize_var a) = fp_odd v" "rep 1 (secp256k1_fe_normalize_var a) v"
proof -
  have l: "fe_loose a" using assms by (auto simp: rep_def intro: fe_mag_loose)
  let ?b = "secp256k1_fe_normalize_var a"
  have b: "fe_norm ?b" "fval ?b = fval a mod secp256k1_p"
    unfolding fe_normalize_var_equiv [OF l] using normalize_val [OF l] by simp_all
  have "fe_elem ?b = v" using assms(1) b(2) by (simp add: rep_def fe_elem_def of_nat_mod_fp)
  then show "rep 1 ?b v" using fe_norm_mag [OF b(1)] by (simp add: rep_def)
  have "Rep_fp v = int (fval ?b)"
    using assms(1) of_nat_fp [of "fval a"] b(2) by (simp add: rep_def fe_elem_def prime_int_def of_nat_mod)
  then have "fp_odd v = odd (fval ?b)" by (simp add: fp_odd_def)
  also have "\<dots> = odd (unat (n0 ?b))" by (simp add: fval_def)
  also have "\<dots> = odd (n0 ?b)" using bit_unsigned_iff [where ?'a = nat, of "n0 ?b" 0] by (simp add: bit_0)
  also have "\<dots> = (n0 ?b AND 1 \<noteq> 0)" by (simp add: and_one_eq mod_2_eq_odd)
  finally show "secp256k1_fe_is_odd ?b = fp_odd v" by (simp add: secp256k1_fe_is_odd_def)
qed

lemma fp_odd_minus: "v \<noteq> 0 \<Longrightarrow> fp_odd (- v) = (\<not> fp_odd v)"
proof -
  assume v: "v \<noteq> 0"
  have r: "Rep_fp v \<in> {0..<prime_int}" by (rule Rep_fp)
  have "Rep_fp v \<noteq> 0" using v by (simp add: zero_fp.rep_eq flip: Rep_fp_inject)
  then have "(- Rep_fp v) mod prime_int = prime_int - Rep_fp v"
    using r by (simp add: zmod_zminus1_eq_if)
  moreover have "odd prime_int" by (simp add: prime_int_def secp256k1_p_def)
  ultimately show ?thesis using r by (simp add: fp_odd_def uminus_fp.rep_eq)
qed

lemma square_root:
  fixes y :: fp
  assumes "y ^ secp256k1_p = y"
  shows "(y * y) ^ ((secp256k1_p + 1) div 4) * (y * y) ^ ((secp256k1_p + 1) div 4) = y * y"
proof -
  define k where "k = (secp256k1_p + 1) div 4"
  have e: "k + k + (k + k) = Suc secp256k1_p" by (simp add: k_def secp256k1_p_def)
  have "(y * y) ^ k * (y * y) ^ k = y ^ (k + k + (k + k))" by (simp only: power_mult_distrib power_add)
  also have "\<dots> = y * y" unfolding e using assms by simp
  finally show ?thesis unfolding k_def .
qed

text \<open>
  C36: (decompression) from the x coordinate of a point and the parity of y,
  \<open>secp256k1_ge_set_xo_var\<close> finds a point on the curve with that x coordinate and that parity (if y
  is not 0, which has one parity only). It fails only if no y with \<open>y ^ p = y\<close>, as Fermat's
  theorem has for all, completes the point.
\<close>

theorem ge_set_xo_var_correct:
  assumes "rep m x X" "m \<le> 8"
  shows "(case secp256k1_ge_set_xo_var x odd_y of (r, ok) \<Rightarrow>
    if ok then (\<exists>Y. ge_point r (Some (X, Y)) \<and> on_curve X Y \<and> (Y = 0 \<or> fp_odd Y = odd_y))
    else \<not> (\<exists>Y. on_curve X Y \<and> Y ^ secp256k1_p = Y))"
proof -
  define c where "c = secp256k1_fe_add (secp256k1_fe_set_int CURVE_B) (secp256k1_fe_mul x (secp256k1_fe_sqr x))"
  define s where "s = (X ^ 3 + 7) ^ ((secp256k1_p + 1) div 4)"
  have c: "rep 2 c (X ^ 3 + 7)"
    using rep_add [OF rep_set_int [of CURVE_B] rep_mul [OF assms(1) rep_sqr [OF assms] assms(2)], simplified]
    by (simp add: c_def power3_eq_cube algebra_simps numeral_2_eq_2)
  obtain y ok where y: "secp256k1_fe_sqrt c = (y, ok)" by fastforce
  have root: "rep 1 (fst (secp256k1_fe_sqrt c)) s" unfolding s_def by (rule rep_sqrt [OF c]) simp
  then have ry: "rep 1 y s" by (simp add: y)
  have ok: "ok = (s * s = X ^ 3 + 7)" using sqrt_flag_rep [OF c _ root] by (simp add: y)
  have run: "secp256k1_ge_set_xquad x = (\<lparr>ge_x = x, ge_y = y, ge_infinity = False\<rparr>, ok)"
    by (simp add: secp256k1_ge_set_xquad_def Let_def y flip: c_def)
  show ?thesis
  proof (cases ok)
    case True
    let ?v = "secp256k1_fe_normalize_var y"
    note v = normalized_odd [OF ry]
    have s: "on_curve X s" "on_curve X (- s)" using True ok by (simp_all add: on_curve_def power2_eq_square)
    have n: "rep 8 (secp256k1_fe_negate ?v 1) (- s)" "rep 8 ?v s" using rep_negate [of 1 ?v s 1] v(2) rep_mono by auto
    show ?thesis
    proof (cases "fp_odd s = odd_y")
      case same: True
      then show ?thesis using True run v s n rep_mono [OF assms]
        by (auto simp: secp256k1_ge_set_xo_var_def ge_point_def intro!: exI [of _ s])
    next
      case other: False
      then show ?thesis using True run v s n rep_mono [OF assms] fp_odd_minus [of s]
        by (auto simp: secp256k1_ge_set_xo_var_def ge_point_def intro!: exI [of _ "- s"])
    qed
  next
    case False
    have "Y ^ secp256k1_p \<noteq> Y" if "on_curve X Y" for Y
    proof
      assume "Y ^ secp256k1_p = Y"
      moreover have "X ^ 3 + 7 = Y * Y" using that by (simp add: on_curve_def power2_eq_square)
      ultimately have "s * s = X ^ 3 + 7" using square_root [of Y] by (simp add: s_def)
      then show False using ok False by simp
    qed
    then show ?thesis using False run by (auto simp: secp256k1_ge_set_xo_var_def)
  qed
qed

theorem ge_set_xo_var_correct_witness:
  "(case secp256k1_ge_set_xo_var (secp256k1_fe_set_int 1) False of (r, ok) \<Rightarrow>
    if ok then (\<exists>Y. ge_point r (Some (1, Y)) \<and> on_curve 1 Y \<and> (Y = 0 \<or> fp_odd Y = False))
    else \<not> (\<exists>Y. on_curve 1 Y \<and> Y ^ secp256k1_p = Y))"
  by (rule ge_set_xo_var_correct [OF rep_1]) simp

end
