(* ===== verification/Ecmult.thy ===== *)
theory Ecmult
  imports Group Scalar_Inverse Sha256 "HOL-Library.Monad_Syntax"
begin

text \<open>
  Scalar multiplication (\<open>secp256k1/src/ecmult_impl.h\<close>, \<open>ecmult_gen_impl.h\<close>), without the
  endomorphism: signed digit forms of a scalar, tables of odd multiples, the interleaved
  double-and-add of \<open>secp256k1_ecmult_strauss_wnaf\<close>, the bucket method, and the blinded
  multiplication of the generator. \<open>int\<close> variables are integers: the digits are below \<open>2 ^ 17\<close>
  with the windows the code uses. \<open>None\<close> is a read of a scalar beyond its limbs or of a table
  that was not built. What arrays on the stack hold before they are written is an argument.
\<close>

lemma bind_total: "\<exists>x. m = Some x \<Longrightarrow> (\<And>x. m = Some x \<Longrightarrow> \<exists>y. f x = Some y) \<Longrightarrow> \<exists>y. m \<bind> f = Some y"
  by (cases m) auto

definition WINDOW_A :: nat where "WINDOW_A = 5"
definition WINDOW_G :: nat where "WINDOW_G = 16"

definition ECMULT_TABLE_SIZE :: "nat \<Rightarrow> nat" where
  "ECMULT_TABLE_SIZE w = 2 ^ (w - 2)"

definition WNAF_SIZE :: "nat \<Rightarrow> nat" where
  "WNAF_SIZE w = (256 + w - 1) div w"

section \<open>Signed digits\<close>

text \<open>
  \<open>lst\<close> is \<open>last_set_bit + 1\<close>, the result of the C function. The loop is not entered for windows
  outside of the range \<open>VERIFY_CHECK\<close> states, where it might not advance.
\<close>

function wnaf_loop :: "scalar \<Rightarrow> int \<Rightarrow> nat \<Rightarrow> nat \<Rightarrow> nat \<Rightarrow> nat \<Rightarrow> int \<Rightarrow> int list \<Rightarrow> (int list \<times> nat) option" where
  "wnaf_loop s sign w len lst bt carry wnaf =
     (if bt < len \<and> 2 \<le> w then
        secp256k1_scalar_get_bits s bt 1 \<bind> (\<lambda>b.
        if uint b = carry then wnaf_loop s sign w len lst (bt + 1) carry wnaf
        else
          let now = (if w > len - bt then len - bt else w) in
          secp256k1_scalar_get_bits_var s bt now \<bind> (\<lambda>v.
          let word = uint v + carry;
              carry = drop_bit (w - 1) word AND 1;
              word = word - push_bit w carry
          in wnaf_loop s sign w len (bt + 1) (bt + now) carry (wnaf[bt := sign * word])))
      else Some (wnaf, lst))"
  by pat_completeness auto
termination
  by (relation "measure (\<lambda>(s, sign, w, len, lst, bt, carry, wnaf). len - bt)") auto

declare wnaf_loop.simps [simp del]

definition secp256k1_ecmult_wnaf :: "nat \<Rightarrow> scalar \<Rightarrow> nat \<Rightarrow> (int list \<times> nat) option" where
  "secp256k1_ecmult_wnaf len a w =
     secp256k1_scalar_get_bits a 255 1 \<bind> (\<lambda>top.
     let (s, sign) = (if top \<noteq> 0 then (secp256k1_scalar_negate a, - 1) else (a, 1))
     in wnaf_loop s sign w len 0 0 0 (replicate len 0))"

text \<open>Digits at fixed positions: the digit read at \<open>pos\<close>, the highest one that is not zero, and the pass upwards.\<close>

definition fixed_digit :: "scalar \<Rightarrow> nat \<Rightarrow> nat \<Rightarrow> int option" where
  "fixed_digit s w pos =
     map_option uint (secp256k1_scalar_get_bits_var s (pos * w) (if pos = WNAF_SIZE w - 1 then 256 - (WNAF_SIZE w - 1) * w else w))"

fun fixed_top :: "scalar \<Rightarrow> nat \<Rightarrow> nat \<Rightarrow> int list \<Rightarrow> (nat \<times> int list) option" where
  "fixed_top s w 0 wnaf = Some (0, wnaf)"
| "fixed_top s w (Suc pos) wnaf =
     fixed_digit s w (Suc pos) \<bind> (\<lambda>val.
     if val \<noteq> 0 then Some (Suc pos, wnaf) else fixed_top s w pos (wnaf[Suc pos := 0]))"

definition fixed_even :: "nat \<Rightarrow> nat \<Rightarrow> int \<Rightarrow> int list \<Rightarrow> int list" where
  "fixed_even w pos val wnaf =
     (if val AND 1 = 0 then wnaf[pos - 1 := wnaf ! (pos - 1) - push_bit w 1, pos := val + 1] else wnaf[pos := val])"

definition fixed_absorb :: "nat \<Rightarrow> nat \<Rightarrow> int list \<Rightarrow> int list" where
  "fixed_absorb w pos wnaf =
     (if pos \<ge> 2 \<and> ((wnaf ! (pos - 1) = 1 \<and> wnaf ! (pos - 2) < 0) \<or> (wnaf ! (pos - 1) = - 1 \<and> wnaf ! (pos - 2) > 0)) then
        (if wnaf ! (pos - 1) = 1 then wnaf[pos - 2 := wnaf ! (pos - 2) + push_bit w 1]
         else wnaf[pos - 2 := wnaf ! (pos - 2) - push_bit w 1])[pos - 1 := 0]
      else wnaf)"

function fixed_up :: "scalar \<Rightarrow> nat \<Rightarrow> nat \<Rightarrow> nat \<Rightarrow> int list \<Rightarrow> int list option" where
  "fixed_up s w max_pos pos wnaf =
     (if pos \<le> max_pos then
        fixed_digit s w pos \<bind> (\<lambda>val. fixed_up s w max_pos (pos + 1) (fixed_absorb w pos (fixed_even w pos val wnaf)))
      else Some wnaf)"
  by pat_completeness auto
termination
  by (relation "measure (\<lambda>(s, w, max_pos, pos, wnaf). Suc max_pos - pos)") auto

declare fixed_up.simps [simp del]

definition secp256k1_wnaf_fixed :: "int list \<Rightarrow> scalar \<Rightarrow> nat \<Rightarrow> (int list \<times> int) option" where
  "secp256k1_wnaf_fixed wnaf s w =
     (if secp256k1_scalar_is_zero s then Some (replicate (WNAF_SIZE w) 0, 0)
      else
        let skew = (if secp256k1_scalar_is_even s then 1 else 0) in
        secp256k1_scalar_get_bits_var s 0 w \<bind> (\<lambda>v.
        fixed_top s w (WNAF_SIZE w - 1) (wnaf[0 := uint v + skew]) \<bind> (\<lambda>(max_pos, wnaf).
        fixed_up s w max_pos 1 wnaf \<bind> (\<lambda>wnaf. Some (wnaf, skew)))))"

section \<open>Tables of odd multiples\<close>

text \<open>A z ratio is written where the addition gives one.\<close>

fun odd_multiples_loop :: "ge \<Rightarrow> gej \<Rightarrow> gej list \<Rightarrow> fe list \<Rightarrow> gej list \<times> fe list" where
  "odd_multiples_loop d_ge p (r # prej) (z # zr) =
     (let (q, rzr) = secp256k1_gej_add_ge_var r p d_ge;
          (qs, zs) = odd_multiples_loop d_ge q prej zr
      in (q # qs, (case rzr of None \<Rightarrow> z | Some z' \<Rightarrow> z') # zs))"
| "odd_multiples_loop _ _ _ _ = ([], [])"

definition scale_last :: "gej list \<Rightarrow> fe \<Rightarrow> gej list" where
  "scale_last prej z = prej[length prej - 1 := (last prej)\<lparr>gej_z := secp256k1_fe_mul (gej_z (last prej)) z\<rparr>]"

definition secp256k1_ecmult_odd_multiples_table :: "gej \<Rightarrow> gej list \<Rightarrow> fe list \<Rightarrow> gej \<Rightarrow> gej list \<times> fe list" where
  "secp256k1_ecmult_odd_multiples_table d prej zr a =
     (let d = fst (secp256k1_gej_double_var d a);
          d_ge = \<lparr>ge_x = gej_x d, ge_y = gej_y d, ge_infinity = False\<rparr>;
          a_ge = secp256k1_ge_set_gej_zinv a (gej_z d);
          p = \<lparr>gej_x = ge_x a_ge, gej_y = ge_y a_ge, gej_z = gej_z a, gej_infinity = False\<rparr>;
          (ps, zs) = odd_multiples_loop d_ge p (tl prej) (tl zr)
      in (scale_last (p # ps) (gej_z d), gej_z d # zs))"

definition secp256k1_ecmult_odd_multiples_table_globalz_windowa :: "gej \<Rightarrow> gej list \<Rightarrow> fe list \<Rightarrow> gej \<Rightarrow> ge list \<times> fe option" where
  "secp256k1_ecmult_odd_multiples_table_globalz_windowa d prej zr a =
     (let (prej, zr) = secp256k1_ecmult_odd_multiples_table d prej zr a
      in secp256k1_ge_globalz_set_table_gej prej zr)"

definition secp256k1_ecmult_odd_multiples_table_storage_var :: "gej \<Rightarrow> gej list \<Rightarrow> fe list \<Rightarrow> gej \<Rightarrow> ge_storage list" where
  "secp256k1_ecmult_odd_multiples_table_storage_var d prej zr a =
     (let (prej, zr) = secp256k1_ecmult_odd_multiples_table d prej zr a
      in map secp256k1_ge_to_storage (secp256k1_ge_set_table_gej_var prej zr))"

definition ECMULT_TABLE_GET_GE :: "ge list \<Rightarrow> int \<Rightarrow> ge" where
  "ECMULT_TABLE_GET_GE pre n =
     (if n > 0 then pre ! nat ((n - 1) div 2) else secp256k1_ge_neg (pre ! nat ((- n - 1) div 2)))"

definition ECMULT_TABLE_GET_GE_STORAGE :: "ge_storage list \<Rightarrow> int \<Rightarrow> ge" where
  "ECMULT_TABLE_GET_GE_STORAGE pre n =
     (if n > 0 then secp256k1_ge_from_storage (pre ! nat ((n - 1) div 2))
      else secp256k1_ge_neg (secp256k1_ge_from_storage (pre ! nat ((- n - 1) div 2))))"

text \<open>The context holds the table of odd multiples of the generator, or a null pointer.\<close>

record ecmult_context =
  pre_g :: "ge_storage list option"

definition secp256k1_ecmult_context_init :: "ecmult_context \<Rightarrow> ecmult_context" where
  "secp256k1_ecmult_context_init ctx = ctx\<lparr>pre_g := None\<rparr>"

definition secp256k1_ecmult_context_is_built :: "ecmult_context \<Rightarrow> bool" where
  "secp256k1_ecmult_context_is_built ctx = (pre_g ctx \<noteq> None)"

definition secp256k1_ecmult_context_build :: "gej \<Rightarrow> gej list \<Rightarrow> fe list \<Rightarrow> ecmult_context \<Rightarrow> ecmult_context" where
  "secp256k1_ecmult_context_build d prej zr ctx =
     (if pre_g ctx \<noteq> None then ctx
      else ctx\<lparr>pre_g := Some (secp256k1_ecmult_odd_multiples_table_storage_var d prej zr (secp256k1_gej_set_ge secp256k1_ge_const_g))\<rparr>)"

definition secp256k1_ecmult_context_clone :: "ecmult_context \<Rightarrow> ecmult_context \<Rightarrow> ecmult_context" where
  "secp256k1_ecmult_context_clone dst src = dst\<lparr>pre_g := pre_g src\<rparr>"

definition secp256k1_ecmult_context_clear :: "ecmult_context \<Rightarrow> ecmult_context" where
  "secp256k1_ecmult_context_clear ctx = secp256k1_ecmult_context_init ctx"

section \<open>Sums of multiples\<close>

record strauss_point_state =
  wnaf_na :: "int list"
  bits_na :: nat
  strauss_input_pos :: nat

text \<open>The states of the points that count; \<open>np\<close> is the index of the first.\<close>

fun strauss_points :: "gej list \<Rightarrow> scalar list \<Rightarrow> nat \<Rightarrow> strauss_point_state list option" where
  "strauss_points (a # as) (na # nas) np =
     (if secp256k1_scalar_is_zero na \<or> secp256k1_gej_is_infinity a then strauss_points as nas (np + 1)
      else
        secp256k1_ecmult_wnaf 256 na WINDOW_A \<bind> (\<lambda>(ws, bits).
        strauss_points as nas (np + 1) \<bind> (\<lambda>ps.
        Some (\<lparr>wnaf_na = ws, bits_na = bits, strauss_input_pos = np\<rparr> # ps))))"
| "strauss_points _ _ np = Some []"

fun max_bits :: "nat \<Rightarrow> strauss_point_state list \<Rightarrow> nat" where
  "max_bits bits [] = bits"
| "max_bits bits (p # ps) = max_bits (if bits_na p > bits then bits_na p else bits) ps"

text \<open>The tables of the points after the first, each on the z coordinate the one before it ends with.\<close>

fun strauss_tables :: "gej \<Rightarrow> gej list \<Rightarrow> gej \<Rightarrow> strauss_point_state list \<Rightarrow> gej list \<Rightarrow> fe list \<Rightarrow> gej list \<times> fe list" where
  "strauss_tables d a end_p [] prej zr = ([], [])"
| "strauss_tables d a end_p (p # ps) prej zr =
     (let tmp = secp256k1_gej_rescale (a ! strauss_input_pos p) (gej_z end_p);
          n = ECMULT_TABLE_SIZE WINDOW_A;
          (pj, z) = secp256k1_ecmult_odd_multiples_table d (take n prej) (take n zr) tmp;
          z = z[0 := secp256k1_fe_mul (z ! 0) (gej_z (a ! strauss_input_pos p))];
          (pjs, zs) = strauss_tables d a (pj ! (n - 1)) ps (drop n prej) (drop n zr)
      in (pj @ pjs, z @ zs))"

fun strauss_adds :: "ge list \<Rightarrow> nat \<Rightarrow> strauss_point_state list \<Rightarrow> gej \<Rightarrow> gej" where
  "strauss_adds pre_a i [] r = r"
| "strauss_adds pre_a i (p # ps) r =
     (let n = wnaf_na p ! i;
          r = (if i < bits_na p \<and> n \<noteq> 0 then fst (secp256k1_gej_add_ge_var r r (ECMULT_TABLE_GET_GE pre_a n)) else r)
      in strauss_adds (drop (ECMULT_TABLE_SIZE WINDOW_A) pre_a) i ps r)"

fun strauss_loop ::
  "ecmult_context \<Rightarrow> ge list \<Rightarrow> strauss_point_state list \<Rightarrow> int list \<times> nat \<Rightarrow> fe \<Rightarrow> nat \<Rightarrow> gej \<Rightarrow> gej option" where
  "strauss_loop ctx pre_a ps ng Z 0 r = Some r"
| "strauss_loop ctx pre_a ps ng Z (Suc i) r =
     (let r = fst (secp256k1_gej_double_var r r);
          r = strauss_adds pre_a i ps r;
          n = fst ng ! i
      in if i < snd ng \<and> n \<noteq> 0 then
           pre_g ctx \<bind> (\<lambda>g. strauss_loop ctx pre_a ps ng Z i (secp256k1_gej_add_zinv_var r r (ECMULT_TABLE_GET_GE_STORAGE g n) Z))
         else strauss_loop ctx pre_a ps ng Z i r)"

definition secp256k1_ecmult_strauss_wnaf ::
  "ecmult_context \<Rightarrow> gej \<Rightarrow> gej list \<Rightarrow> fe list \<Rightarrow> gej \<Rightarrow> gej list \<Rightarrow> scalar list \<Rightarrow> scalar option \<Rightarrow> gej option" where
  "secp256k1_ecmult_strauss_wnaf ctx d prej zr r a na ng =
     strauss_points a na 0 \<bind> (\<lambda>ps.
     let n = ECMULT_TABLE_SIZE WINDOW_A;
         (pre_a, Z) =
           (case ps of [] \<Rightarrow> ([], Some (secp256k1_fe_set_int 1))
            | p # ps' \<Rightarrow>
                let (pj, z) = secp256k1_ecmult_odd_multiples_table d (take n prej) (take n zr) (a ! strauss_input_pos p);
                    (pjs, zs) = strauss_tables d a (pj ! (n - 1)) ps' (drop n prej) (drop n zr)
                in secp256k1_ge_globalz_set_table_gej (pj @ pjs) (z @ zs))
     in (case ng of None \<Rightarrow> Some ([], 0) | Some ng \<Rightarrow> secp256k1_ecmult_wnaf 256 ng WINDOW_G) \<bind> (\<lambda>(wnaf_ng, bits_ng).
     let bits = max_bits 0 ps; bits = (if bits_ng > bits then bits_ng else bits)
     in Z \<bind> (\<lambda>Z. strauss_loop ctx pre_a ps (wnaf_ng, bits_ng) Z bits (secp256k1_gej_set_infinity r) \<bind> (\<lambda>r.
        Some (if \<not> gej_infinity r then r\<lparr>gej_z := secp256k1_fe_mul (gej_z r) Z\<rparr> else r)))))"

definition secp256k1_ecmult ::
  "ecmult_context \<Rightarrow> gej \<Rightarrow> gej list \<Rightarrow> fe list \<Rightarrow> gej \<Rightarrow> gej \<Rightarrow> scalar \<Rightarrow> scalar option \<Rightarrow> gej option" where
  "secp256k1_ecmult ctx d prej zr r a na ng = secp256k1_ecmult_strauss_wnaf ctx d prej zr r [a] [na] ng"

section \<open>Buckets\<close>

record pippenger_point_state =
  skew_na :: int
  pippenger_input_pos :: nat

text \<open>The points that count, with the digits of their scalars; \<open>mem\<close> is the memory the digits are written to.\<close>

fun pippenger_points :: "nat \<Rightarrow> int list \<Rightarrow> scalar list \<Rightarrow> ge list \<Rightarrow> nat \<Rightarrow> (pippenger_point_state \<times> int list) list option" where
  "pippenger_points w mem (sc # scs) (pt # pts) np =
     (if secp256k1_scalar_is_zero sc \<or> secp256k1_ge_is_infinity pt then pippenger_points w mem scs pts (np + 1)
      else
        secp256k1_wnaf_fixed (take (WNAF_SIZE w) mem) sc w \<bind> (\<lambda>(wnaf, skew).
        pippenger_points w (drop (WNAF_SIZE w) mem) scs pts (np + 1) \<bind> (\<lambda>ps.
        Some ((\<lparr>skew_na = skew, pippenger_input_pos = np\<rparr>, wnaf) # ps))))"
| "pippenger_points w mem _ _ np = Some []"

definition bucket_add :: "nat \<Rightarrow> ge \<Rightarrow> gej list \<Rightarrow> gej list" where
  "bucket_add idx p buckets = buckets[idx := fst (secp256k1_gej_add_ge_var (buckets ! idx) (buckets ! idx) p)]"

text \<open>A point goes to the bucket of its digit \<open>n\<close>; at the lowest digit the skew is taken off first.\<close>

definition bucket_point :: "nat \<Rightarrow> ge list \<Rightarrow> pippenger_point_state \<times> int list \<Rightarrow> gej list \<Rightarrow> gej list" where
  "bucket_point i pt p buckets =
     (let n = snd p ! i;
          q = pt ! pippenger_input_pos (fst p);
          buckets = (if i = 0 \<and> skew_na (fst p) \<noteq> 0 then bucket_add 0 (secp256k1_ge_neg q) buckets else buckets)
      in if n > 0 then bucket_add (nat ((n - 1) div 2)) q buckets
         else if n < 0 then bucket_add (nat (- (n + 1) div 2)) (secp256k1_ge_neg q) buckets
         else buckets)"

text \<open>Running sums from the last bucket down to the second; the list is given reversed, without the first bucket.\<close>

fun bucket_sums :: "gej list \<Rightarrow> gej \<Rightarrow> gej \<Rightarrow> gej \<times> gej" where
  "bucket_sums [] running_sum r = (running_sum, r)"
| "bucket_sums (b # bs) running_sum r =
     (let running_sum = fst (secp256k1_gej_add_var running_sum running_sum b);
          r = fst (secp256k1_gej_add_var r r running_sum)
      in bucket_sums bs running_sum r)"

definition double_in_place :: "gej \<Rightarrow> gej" where
  "double_in_place r = fst (secp256k1_gej_double_var r r)"

fun pippenger_loop :: "nat \<Rightarrow> ge list \<Rightarrow> (pippenger_point_state \<times> int list) list \<Rightarrow> nat \<Rightarrow> gej list \<Rightarrow> gej \<Rightarrow> gej \<Rightarrow> gej" where
  "pippenger_loop bw pt ps 0 buckets running_sum r = r"
| "pippenger_loop bw pt ps (Suc i) buckets running_sum r =
     (let buckets = map secp256k1_gej_set_infinity buckets;
          buckets = fold (bucket_point i pt) ps buckets;
          r = (double_in_place ^^ bw) r;
          running_sum = secp256k1_gej_set_infinity running_sum;
          (running_sum, r) = bucket_sums (rev (tl buckets)) running_sum r;
          running_sum = fst (secp256k1_gej_add_var running_sum running_sum (buckets ! 0));
          r = double_in_place r;
          r = fst (secp256k1_gej_add_var r r running_sum)
      in pippenger_loop bw pt ps i buckets running_sum r)"

definition secp256k1_ecmult_pippenger_wnaf ::
  "gej list \<Rightarrow> nat \<Rightarrow> int list \<Rightarrow> gej \<Rightarrow> gej \<Rightarrow> scalar list \<Rightarrow> ge list \<Rightarrow> gej option" where
  "secp256k1_ecmult_pippenger_wnaf buckets bw mem running_sum r sc pt =
     pippenger_points (bw + 1) mem sc pt 0 \<bind> (\<lambda>ps.
     let r = secp256k1_gej_set_infinity r
     in if ps = [] then Some r
        else Some (pippenger_loop bw pt ps (WNAF_SIZE (bw + 1)) (take (ECMULT_TABLE_SIZE (bw + 2)) buckets) running_sum r))"

definition PIPPENGER_MAX_BUCKET_WINDOW :: nat where
  "PIPPENGER_MAX_BUCKET_WINDOW = 12"

definition secp256k1_pippenger_bucket_window :: "nat \<Rightarrow> nat" where
  "secp256k1_pippenger_bucket_window n =
     (if n \<le> 1 then 1 else if n \<le> 11 then 2 else if n \<le> 45 then 3 else if n \<le> 100 then 4 else if n \<le> 275 then 5
      else if n \<le> 625 then 6 else if n \<le> 1850 then 7 else if n \<le> 3400 then 8 else if n \<le> 9630 then 9
      else if n \<le> 17900 then 10 else if n \<le> 32800 then 11 else PIPPENGER_MAX_BUCKET_WINDOW)"

definition SIZE_MAX :: nat where
  "SIZE_MAX = 2 ^ 64 - 1"

definition secp256k1_pippenger_bucket_window_inv :: "nat \<Rightarrow> nat" where
  "secp256k1_pippenger_bucket_window_inv bucket_window =
     (if bucket_window = 1 then 1 else if bucket_window = 2 then 11 else if bucket_window = 3 then 45
      else if bucket_window = 4 then 100 else if bucket_window = 5 then 275 else if bucket_window = 6 then 625
      else if bucket_window = 7 then 1850 else if bucket_window = 8 then 3400 else if bucket_window = 9 then 9630
      else if bucket_window = 10 then 17900 else if bucket_window = 11 then 32800
      else if bucket_window = PIPPENGER_MAX_BUCKET_WINDOW then SIZE_MAX else 0)"

end
