(* ===== verification/Ecmult_Gen.thy ===== *)
theory Ecmult_Gen
  imports Ecmult
begin

text \<open>
  Multiplication of the generator (\<open>secp256k1/src/ecmult_gen_impl.h\<close>): a table of multiples with
  an unknown point added to each, read without secret indexes, and a blinding value that is
  drawn from the generator of RFC 6979. The build may replace the computed table by a generated
  one. The two loops that draw until a number is in range end on no known input but need not
  end; they are partial functions, and \<open>None\<close> is also a run that does not end.
\<close>

record ecmult_gen_context =
  prec :: "ge_storage list list option"
  blind :: scalar
  initial :: gej

definition secp256k1_ecmult_gen_context_init :: "ecmult_gen_context \<Rightarrow> ecmult_gen_context" where
  "secp256k1_ecmult_gen_context_init ctx = ctx\<lparr>prec := None\<rparr>"

definition secp256k1_ecmult_gen_context_is_built :: "ecmult_gen_context \<Rightarrow> bool" where
  "secp256k1_ecmult_gen_context_is_built ctx = (prec ctx \<noteq> None)"

definition secp256k1_ecmult_gen_context_clone :: "ecmult_gen_context \<Rightarrow> ecmult_gen_context \<Rightarrow> ecmult_gen_context" where
  "secp256k1_ecmult_gen_context_clone dst src =
     (if prec src = None then dst\<lparr>prec := None\<rparr>
      else dst\<lparr>prec := prec src, initial := initial src, blind := blind src\<rparr>)"

definition secp256k1_ecmult_gen_context_clear :: "ecmult_gen_context \<Rightarrow> ecmult_gen_context" where
  "secp256k1_ecmult_gen_context_clear ctx =
     ctx\<lparr>blind := secp256k1_scalar_clear (blind ctx), initial := secp256k1_gej_clear (initial ctx), prec := None\<rparr>"

section \<open>Multiplication\<close>

text \<open>Every entry of the row is read; the one whose index is \<open>bits\<close> is kept.\<close>

fun gen_select :: "u32 \<Rightarrow> nat \<Rightarrow> ge_storage list \<Rightarrow> ge_storage \<Rightarrow> ge_storage" where
  "gen_select bits i [] adds = adds"
| "gen_select bits i (p # ps) adds =
     gen_select bits (i + 1) ps (secp256k1_ge_storage_cmov adds p (of_bool (word_of_nat i = bits)))"

fun gen_loop :: "scalar \<Rightarrow> nat \<Rightarrow> ge_storage list list \<Rightarrow> ge_storage \<Rightarrow> gej \<Rightarrow> gej option" where
  "gen_loop gnb j [] adds r = Some r"
| "gen_loop gnb j (row # rows) adds r =
     secp256k1_scalar_get_bits gnb (j * 4) 4 \<bind> (\<lambda>bits.
     let adds = gen_select bits 0 row adds
     in gen_loop gnb (j + 1) rows adds (secp256k1_gej_add_ge r (secp256k1_ge_from_storage adds)))"

definition zero_storage :: ge_storage where
  "zero_storage = \<lparr>gs_x = \<lparr>s0 = 0, s1 = 0, s2 = 0, s3 = 0\<rparr>, gs_y = \<lparr>s0 = 0, s1 = 0, s2 = 0, s3 = 0\<rparr>\<rparr>"

definition secp256k1_ecmult_gen :: "ecmult_gen_context \<Rightarrow> scalar \<Rightarrow> gej option" where
  "secp256k1_ecmult_gen ctx gn =
     prec ctx \<bind> (\<lambda>rows.
     gen_loop (fst (secp256k1_scalar_add gn (blind ctx))) 0 (take 64 rows) zero_storage (initial ctx))"

section \<open>Blinding\<close>

partial_function (option) draw_fe :: "sha256 \<Rightarrow> hmac_sha256 \<Rightarrow> rfc6979 \<Rightarrow> (fe \<times> rfc6979) option" where
  "draw_fe m hmac rng =
     (let (rng, nonce32) = secp256k1_rfc6979_hmac_sha256_generate m hmac rng 32;
          (s, ok) = secp256k1_fe_set_b32 nonce32
      in if \<not> ok \<or> secp256k1_fe_is_zero s then draw_fe m hmac rng else Some (s, rng))"

partial_function (option) draw_scalar :: "sha256 \<Rightarrow> hmac_sha256 \<Rightarrow> rfc6979 \<Rightarrow> (scalar \<times> rfc6979) option" where
  "draw_scalar m hmac rng =
     (let (rng, nonce32) = secp256k1_rfc6979_hmac_sha256_generate m hmac rng 32;
          (b, overflow) = secp256k1_scalar_set_b32 nonce32
      in if overflow \<or> secp256k1_scalar_is_zero b then draw_scalar m hmac rng else Some (b, rng))"

definition secp256k1_ecmult_gen_blind ::
  "sha256 \<Rightarrow> hmac_sha256 \<Rightarrow> ecmult_gen_context \<Rightarrow> bytes option \<Rightarrow> ecmult_gen_context option" where
  "secp256k1_ecmult_gen_blind m hmac ctx seed32 =
     (let ctx = (if seed32 = None then
                   ctx\<lparr>initial := secp256k1_gej_neg (secp256k1_gej_set_ge secp256k1_ge_const_g), blind := secp256k1_scalar_set_int 1\<rparr>
                 else ctx);
          keydata = secp256k1_scalar_get_b32 (blind ctx) @ (case seed32 of None \<Rightarrow> [] | Some seed \<Rightarrow> take 32 seed);
          rng = secp256k1_rfc6979_hmac_sha256_initialize m hmac keydata
      in draw_fe m hmac rng \<bind> (\<lambda>(s, rng).
      let ctx = ctx\<lparr>initial := secp256k1_gej_rescale (initial ctx) s\<rparr>
      in draw_scalar m hmac rng \<bind> (\<lambda>(b, rng).
      secp256k1_ecmult_gen ctx b \<bind> (\<lambda>gb.
      Some (ctx\<lparr>blind := secp256k1_scalar_negate b, initial := gb\<rparr>)))))"

section \<open>The table\<close>

definition nums_b32 :: bytes where
  "nums_b32 = [84, 104, 101, 32, 115, 99, 97, 108, 97, 114, 32, 102, 111, 114, 32, 116,
               104, 105, 115, 32, 120, 32, 105, 115, 32, 117, 110, 107, 110, 111, 119, 110]"

definition nums_point :: gej where
  "nums_point =
     (let (nums_x, r) = secp256k1_fe_set_b32 nums_b32;
          (nums_ge, r) = secp256k1_ge_set_xo_var nums_x False;
          nums_gej = secp256k1_gej_set_ge nums_ge
      in fst (secp256k1_gej_add_ge_var nums_gej nums_gej secp256k1_ge_const_g))"

text \<open>A row: \<open>numsbase\<close> and its sums with multiples of \<open>gbase\<close>; \<open>mem\<close> is the memory of the entries.\<close>

fun gen_row :: "gej \<Rightarrow> gej \<Rightarrow> gej list \<Rightarrow> gej list" where
  "gen_row gbase p [] = []"
| "gen_row gbase p (r # mem) = (let q = fst (secp256k1_gej_add_var r p gbase) in q # gen_row gbase q mem)"

fun gen_rows :: "gej \<Rightarrow> nat \<Rightarrow> gej \<Rightarrow> gej \<Rightarrow> gej list list \<Rightarrow> gej list" where
  "gen_rows nums j gbase numsbase [] = []"
| "gen_rows nums j gbase numsbase (mem # mems) =
     (let row = numsbase # gen_row gbase numsbase (tl mem);
          gbase = (double_in_place ^^ 4) gbase;
          numsbase = double_in_place numsbase;
          numsbase = (if j = 62 then let q = secp256k1_gej_neg numsbase in fst (secp256k1_gej_add_var q q nums) else numsbase)
      in row @ gen_rows nums (j + 1) gbase numsbase mems)"

fun rows_of :: "nat \<Rightarrow> 'a list \<Rightarrow> 'a list list" where
  "rows_of 0 xs = []"
| "rows_of (Suc n) xs = take 16 xs # rows_of n (drop 16 xs)"

text \<open>\<open>precj\<close>, \<open>azi\<close> and \<open>pre\<close> are the memory of the arrays that are filled.\<close>

definition gen_table :: "gej list \<Rightarrow> fe list \<Rightarrow> ge list \<Rightarrow> ge_storage list list" where
  "gen_table precj azi pre =
     rows_of 64 (map secp256k1_ge_to_storage (secp256k1_ge_set_all_gej_var azi pre
       (gen_rows nums_point 0 (secp256k1_gej_set_ge secp256k1_ge_const_g) nums_point (rows_of 64 precj))))"

text \<open>\<open>table\<close> is \<open>gen_table\<close> or, with \<open>USE_ECMULT_STATIC_PRECOMPUTATION\<close>, \<open>secp256k1_ecmult_static_context\<close>.\<close>

definition secp256k1_ecmult_gen_context_build ::
  "sha256 \<Rightarrow> hmac_sha256 \<Rightarrow> ge_storage list list \<Rightarrow> ecmult_gen_context \<Rightarrow> ecmult_gen_context option" where
  "secp256k1_ecmult_gen_context_build m hmac table ctx =
     (if prec ctx \<noteq> None then Some ctx
      else secp256k1_ecmult_gen_blind m hmac (ctx\<lparr>prec := Some table\<rparr>) None)"

end
