(* ===== verification/Ecdsa.thy ===== *)
theory Ecdsa
  imports Ecmult_Gen
begin

text \<open>
  Keys and signatures of ECDSA (\<open>secp256k1/src/eckey_impl.h\<close>, \<open>ecdsa_impl.h\<close>): public keys as bytes,
  tweaks, signatures in DER, verification and signing. A pointer into a signature is the
  list of the bytes from it to the end; \<open>None\<close> is a read beyond the end.
\<close>

section \<open>Signatures in DER\<close>

text \<open>The result \<open>- 1\<close> is an error. \<open>der_len_loop\<close> is the long form: its inner \<open>None\<close> is the error.\<close>

fun der_len_loop :: "nat \<Rightarrow> u64 \<Rightarrow> bytes \<Rightarrow> (u64 option \<times> bytes) option" where
  "der_len_loop 0 ret sig = Some (Some ret, sig)"
| "der_len_loop (Suc lenleft) ret sig =
     (case sig of [] \<Rightarrow> None
      | c # rest \<Rightarrow>
          let ret = push_bit 8 ret OR ucast c in
          if ret + word_of_nat (Suc lenleft) > word_of_nat (length sig) then Some (None, sig)
          else der_len_loop lenleft ret rest)"

definition secp256k1_der_read_len :: "bytes \<Rightarrow> (int \<times> bytes) option" where
  "secp256k1_der_read_len sig =
     (case sig of [] \<Rightarrow> Some (- 1, sig)
      | b1 # sig \<Rightarrow>
          if b1 = 0xFF then Some (- 1, sig)
          else if b1 AND 0x80 = 0 then Some (uint b1, sig)
          else if b1 = 0x80 then Some (- 1, sig)
          else
            let lenleft = unat (b1 AND 0x7F) in
            if lenleft > length sig then Some (- 1, sig)
            else (case sig of [] \<Rightarrow> None
              | c # _ \<Rightarrow>
                  if c = 0 then Some (- 1, sig)
                  else if lenleft > 8 then Some (- 1, sig)
                  else (case der_len_loop lenleft 0 sig of None \<Rightarrow> None
                    | Some (None, sig) \<Rightarrow> Some (- 1, sig)
                    | Some (Some ret, sig) \<Rightarrow> if ret < 128 then Some (- 1, sig) else Some (sint (ucast ret :: 32 word), sig))))"

definition rd :: "bytes \<Rightarrow> nat \<Rightarrow> u8 option" where
  "rd sig i = (if i < length sig then Some (sig ! i) else None)"

fun der_skip_zeros :: "nat \<Rightarrow> bytes \<Rightarrow> (nat \<times> bytes) option" where
  "der_skip_zeros 0 sig = Some (0, sig)"
| "der_skip_zeros (Suc rlen) sig =
     (case sig of [] \<Rightarrow> None | c # rest \<Rightarrow> if c = 0 then der_skip_zeros rlen rest else Some (Suc rlen, sig))"

text \<open>The check for padding with the byte \<open>pad\<close>: the next byte has the same top bit.\<close>

definition der_padded :: "u8 \<Rightarrow> u8 \<Rightarrow> int \<Rightarrow> bytes \<Rightarrow> bool option" where
  "der_padded pad sign rlen sig =
     rd sig 0 \<bind> (\<lambda>c. if c = pad \<and> rlen > 1 then rd sig 1 \<bind> (\<lambda>d. Some (d AND 0x80 = sign)) else Some False)"

definition secp256k1_der_parse_integer :: "bytes \<Rightarrow> (scalar \<times> bytes) option option" where
  "secp256k1_der_parse_integer sig =
     (case sig of [] \<Rightarrow> Some None
      | c # sig \<Rightarrow>
          if c \<noteq> 0x02 then Some None
          else secp256k1_der_read_len sig \<bind> (\<lambda>(rlen, sig).
            if rlen \<le> 0 \<or> rlen > int (length sig) then Some None
            else der_padded 0x00 0x00 rlen sig \<bind> (\<lambda>pad.
            if pad then Some None
            else der_padded 0xFF 0x80 rlen sig \<bind> (\<lambda>pad.
            if pad then Some None
            else rd sig 0 \<bind> (\<lambda>c.
            let overflow = (c AND 0x80 = 0x80) in
            der_skip_zeros (nat rlen) sig \<bind> (\<lambda>(rlen, sig).
            let overflow = (overflow \<or> rlen > 32) in
            if rlen > length sig then None
            else
              let (r, overflow) = (if overflow then (secp256k1_scalar_set_int 0, True)
                                   else secp256k1_scalar_set_b32 (replicate (32 - rlen) 0 @ take rlen sig));
                  r = (if overflow then secp256k1_scalar_set_int 0 else r)
              in Some (Some (r, drop rlen sig))))))))"

definition secp256k1_ecdsa_sig_parse :: "bytes \<Rightarrow> (scalar \<times> scalar) option option" where
  "secp256k1_ecdsa_sig_parse sig =
     (case sig of [] \<Rightarrow> Some None
      | c # sig \<Rightarrow>
          if c \<noteq> 0x30 then Some None
          else secp256k1_der_read_len sig \<bind> (\<lambda>(rlen, sig).
            if rlen < 0 \<or> rlen > int (length sig) then Some None
            else if rlen \<noteq> int (length sig) then Some None
            else secp256k1_der_parse_integer sig \<bind> (\<lambda>res.
            case res of None \<Rightarrow> Some None
            | Some (rr, sig) \<Rightarrow>
                secp256k1_der_parse_integer sig \<bind> (\<lambda>res.
                case res of None \<Rightarrow> Some None
                | Some (rs, sig) \<Rightarrow> if sig \<noteq> [] then Some None else Some (Some (rr, rs))))))"

fun der_strip :: "bytes \<Rightarrow> bytes" where
  "der_strip (a # b # xs) = (if a = 0 \<and> b < 0x80 then der_strip (b # xs) else a # b # xs)"
| "der_strip xs = xs"

text \<open>The needed size is stored in any case; nothing is written if the buffer is smaller.\<close>

definition secp256k1_ecdsa_sig_serialize :: "nat \<Rightarrow> scalar \<Rightarrow> scalar \<Rightarrow> bytes option \<times> nat" where
  "secp256k1_ecdsa_sig_serialize sz ar as =
     (let rp = der_strip (0 # secp256k1_scalar_get_b32 ar);
          sp = der_strip (0 # secp256k1_scalar_get_b32 as);
          need = 6 + length sp + length rp
      in if sz < need then (None, need)
         else (Some ([0x30, word_of_nat (4 + length sp + length rp), 0x02, word_of_nat (length rp)] @ rp @
                     [0x02, word_of_nat (length sp)] @ sp), need))"

section \<open>Keys\<close>

text \<open>The memory of the arrays and points on the stack of \<open>secp256k1_ecmult\<close>.\<close>

record ecmult_mem =
  m_d :: gej
  m_prej :: "gej list"
  m_zr :: "fe list"
  m_r :: gej

definition ecmult_on :: "ecmult_context \<Rightarrow> ecmult_mem \<Rightarrow> gej \<Rightarrow> scalar \<Rightarrow> scalar option \<Rightarrow> gej option" where
  "ecmult_on ctx m a na ng = secp256k1_ecmult ctx (m_d m) (m_prej m) (m_zr m) (m_r m) a na ng"

definition secp256k1_eckey_pubkey_parse :: "bytes \<Rightarrow> ge option" where
  "secp256k1_eckey_pubkey_parse pub =
     (if length pub = 33 \<and> (pub ! 0 = 0x02 \<or> pub ! 0 = 0x03) then
        let (x, ok) = secp256k1_fe_set_b32 (take 32 (drop 1 pub)) in
        if \<not> ok then None
        else let (elem, ok) = secp256k1_ge_set_xo_var x (pub ! 0 = 0x03) in if ok then Some elem else None
      else if length pub = 65 \<and> (pub ! 0 = 0x04 \<or> pub ! 0 = 0x06 \<or> pub ! 0 = 0x07) then
        let (x, okx) = secp256k1_fe_set_b32 (take 32 (drop 1 pub));
            (y, oky) = secp256k1_fe_set_b32 (take 32 (drop 33 pub)) in
        if \<not> okx \<or> \<not> oky then None
        else
          let elem = secp256k1_ge_set_xy x y in
          if (pub ! 0 = 0x06 \<or> pub ! 0 = 0x07) \<and> secp256k1_fe_is_odd y \<noteq> (pub ! 0 = 0x07) then None
          else if secp256k1_ge_is_valid_var elem then Some elem else None
      else None)"

text \<open>Serializing normalizes the point in place.\<close>

definition secp256k1_eckey_pubkey_serialize :: "ge \<Rightarrow> bool \<Rightarrow> (ge \<times> bytes) option" where
  "secp256k1_eckey_pubkey_serialize elem compressed =
     (if secp256k1_ge_is_infinity elem then None
      else
        let elem = elem\<lparr>ge_x := secp256k1_fe_normalize_var (ge_x elem), ge_y := secp256k1_fe_normalize_var (ge_y elem)\<rparr>
        in Some (elem,
             if compressed then (if secp256k1_fe_is_odd (ge_y elem) then 0x03 else 0x02) # secp256k1_fe_get_b32 (ge_x elem)
             else 0x04 # secp256k1_fe_get_b32 (ge_x elem) @ secp256k1_fe_get_b32 (ge_y elem)))"

definition secp256k1_eckey_privkey_tweak_add :: "scalar \<Rightarrow> scalar \<Rightarrow> scalar \<times> bool" where
  "secp256k1_eckey_privkey_tweak_add key tweak =
     (let key = fst (secp256k1_scalar_add key tweak) in (key, \<not> secp256k1_scalar_is_zero key))"

definition secp256k1_eckey_pubkey_tweak_add :: "ecmult_context \<Rightarrow> ecmult_mem \<Rightarrow> ge \<Rightarrow> scalar \<Rightarrow> ge option option" where
  "secp256k1_eckey_pubkey_tweak_add ctx m key tweak =
     ecmult_on ctx m (secp256k1_gej_set_ge key) (secp256k1_scalar_set_int 1) (Some tweak) \<bind> (\<lambda>pt.
     Some (if secp256k1_gej_is_infinity pt then None else Some (fst (secp256k1_ge_set_gej pt))))"

definition secp256k1_eckey_privkey_tweak_mul :: "scalar \<Rightarrow> scalar \<Rightarrow> scalar \<times> bool" where
  "secp256k1_eckey_privkey_tweak_mul key tweak =
     (if secp256k1_scalar_is_zero tweak then (key, False) else (secp256k1_scalar_mul key tweak, True))"

definition secp256k1_eckey_pubkey_tweak_mul :: "ecmult_context \<Rightarrow> ecmult_mem \<Rightarrow> ge \<Rightarrow> scalar \<Rightarrow> ge option option" where
  "secp256k1_eckey_pubkey_tweak_mul ctx m key tweak =
     (if secp256k1_scalar_is_zero tweak then Some None
      else
        ecmult_on ctx m (secp256k1_gej_set_ge key) tweak (Some (secp256k1_scalar_set_int 0)) \<bind> (\<lambda>pt.
        Some (Some (fst (secp256k1_ge_set_gej pt)))))"

section \<open>Verification and signing\<close>

definition secp256k1_ecdsa_const_order_as_fe :: fe where
  "secp256k1_ecdsa_const_order_as_fe =
     secp256k1_fe_const 0xFFFFFFFF 0xFFFFFFFF 0xFFFFFFFF 0xFFFFFFFE 0xBAAEDCE6 0xAF48A03B 0xBFD25E8C 0xD0364141"

definition secp256k1_ecdsa_const_p_minus_order :: fe where
  "secp256k1_ecdsa_const_p_minus_order =
     secp256k1_fe_const 0 0 0 1 0x45512319 0x50B75FC4 0x402DA172 0x2FC9BAEE"

definition secp256k1_ecdsa_sig_verify :: "ecmult_context \<Rightarrow> ecmult_mem \<Rightarrow> scalar \<Rightarrow> scalar \<Rightarrow> ge \<Rightarrow> scalar \<Rightarrow> bool option" where
  "secp256k1_ecdsa_sig_verify ctx m sigr sigs pubkey message =
     (if secp256k1_scalar_is_zero sigr \<or> secp256k1_scalar_is_zero sigs then Some False
      else
        let sn = secp256k1_scalar_inverse_var sigs;
            u1 = secp256k1_scalar_mul sn message;
            u2 = secp256k1_scalar_mul sn sigr;
            pubkeyj = secp256k1_gej_set_ge pubkey
        in ecmult_on ctx m pubkeyj u2 (Some u1) \<bind> (\<lambda>pr.
        if secp256k1_gej_is_infinity pr then Some False
        else
          let xr = fst (secp256k1_fe_set_b32 (secp256k1_scalar_get_b32 sigr)) in
          if secp256k1_gej_eq_x_var xr pr then Some True
          else if secp256k1_fe_cmp_var xr secp256k1_ecdsa_const_p_minus_order \<ge> 0 then Some False
          else
            let xr = secp256k1_fe_add xr secp256k1_ecdsa_const_order_as_fe
            in Some (secp256k1_gej_eq_x_var xr pr)))"

record ecdsa_signed =
  sg_ok :: bool
  sg_r :: scalar
  sg_s :: scalar
  sg_recid :: int

definition secp256k1_ecdsa_sig_sign :: "ecmult_gen_context \<Rightarrow> scalar \<Rightarrow> scalar \<Rightarrow> scalar \<Rightarrow> ecdsa_signed option" where
  "secp256k1_ecdsa_sig_sign ctx seckey message nonce =
     secp256k1_ecmult_gen ctx nonce \<bind> (\<lambda>rp.
     let r = fst (secp256k1_ge_set_gej rp);
         r = r\<lparr>ge_x := secp256k1_fe_normalize (ge_x r), ge_y := secp256k1_fe_normalize (ge_y r)\<rparr>;
         b = secp256k1_fe_get_b32 (ge_x r);
         (sigr, overflow) = secp256k1_scalar_set_b32 b;
         recid = (if overflow then 2 else 0) OR (if secp256k1_fe_is_odd (ge_y r) then 1 else 0);
         n = secp256k1_scalar_mul sigr seckey;
         n = fst (secp256k1_scalar_add n message);
         sigs = secp256k1_scalar_inverse nonce;
         sigs = secp256k1_scalar_mul sigs n
     in if secp256k1_scalar_is_zero sigs then Some \<lparr>sg_ok = False, sg_r = sigr, sg_s = sigs, sg_recid = recid\<rparr>
        else if secp256k1_scalar_is_high sigs then
          Some \<lparr>sg_ok = True, sg_r = sigr, sg_s = secp256k1_scalar_negate sigs, sg_recid = recid XOR 1\<rparr>
        else Some \<lparr>sg_ok = True, sg_r = sigr, sg_s = sigs, sg_recid = recid\<rparr>)"

end
