(* ===== verification/Secp256k1.thy ===== *)
theory Secp256k1
  imports Ecdsa Certs
begin

text \<open>
  The interface of the library (\<open>secp256k1/src/secp256k1.c\<close>, \<open>modules/recovery/main_impl.h\<close>)
  and the keys and signatures that the program makes of it (\<open>include/hotstuff/crypto.h\<close>). A pointer is what
  it points to, so the checks that an argument is not null cannot fail; every other \<open>ARG_CHECK\<close>
  is in the model. Its failure calls the illegal argument callback, whose default aborts: it is
  the error \<open>IllegalArgument\<close>. \<open>NoResult\<close> stands for a run that does not end and for \<open>None\<close>
  of the functions below. A result with a flag is what the function leaves and what it returns.
\<close>

datatype api_error = IllegalArgument | NoResult

type_synonym 'a api = "api_error + 'a"

definition ARG_CHECK :: "bool \<Rightarrow> 'a api \<Rightarrow> 'a api" where
  "ARG_CHECK c k = (if \<not> c then Inl IllegalArgument else k)"

definition result :: "'a option \<Rightarrow> 'a api" where
  "result x = (case x of None \<Rightarrow> Inl NoResult | Some v \<Rightarrow> Inr v)"

text \<open>What the stack holds: the states of the hash functions and of \<open>secp256k1_ecmult\<close>.\<close>

record api_mem =
  am_sha :: sha256
  am_hmac :: hmac_sha256
  am_ec :: ecmult_mem

section \<open>Contexts\<close>

record secp256k1_context =
  ecmult_ctx :: ecmult_context
  ecmult_gen_ctx :: ecmult_gen_context

definition SECP256K1_FLAGS_TYPE_MASK :: u32 where "SECP256K1_FLAGS_TYPE_MASK = push_bit 8 1 - 1"
definition SECP256K1_FLAGS_TYPE_CONTEXT :: u32 where "SECP256K1_FLAGS_TYPE_CONTEXT = push_bit 0 1"
definition SECP256K1_FLAGS_TYPE_COMPRESSION :: u32 where "SECP256K1_FLAGS_TYPE_COMPRESSION = push_bit 1 1"
definition SECP256K1_FLAGS_BIT_CONTEXT_VERIFY :: u32 where "SECP256K1_FLAGS_BIT_CONTEXT_VERIFY = push_bit 8 1"
definition SECP256K1_FLAGS_BIT_CONTEXT_SIGN :: u32 where "SECP256K1_FLAGS_BIT_CONTEXT_SIGN = push_bit 9 1"
definition SECP256K1_FLAGS_BIT_COMPRESSION :: u32 where "SECP256K1_FLAGS_BIT_COMPRESSION = push_bit 8 1"
definition SECP256K1_CONTEXT_VERIFY :: u32 where
  "SECP256K1_CONTEXT_VERIFY = SECP256K1_FLAGS_TYPE_CONTEXT OR SECP256K1_FLAGS_BIT_CONTEXT_VERIFY"
definition SECP256K1_CONTEXT_SIGN :: u32 where
  "SECP256K1_CONTEXT_SIGN = SECP256K1_FLAGS_TYPE_CONTEXT OR SECP256K1_FLAGS_BIT_CONTEXT_SIGN"
definition SECP256K1_EC_COMPRESSED :: u32 where
  "SECP256K1_EC_COMPRESSED = SECP256K1_FLAGS_TYPE_COMPRESSION OR SECP256K1_FLAGS_BIT_COMPRESSION"
definition SECP256K1_EC_UNCOMPRESSED :: u32 where
  "SECP256K1_EC_UNCOMPRESSED = SECP256K1_FLAGS_TYPE_COMPRESSION"

lemmas flag_defs = SECP256K1_FLAGS_TYPE_MASK_def SECP256K1_FLAGS_TYPE_CONTEXT_def
  SECP256K1_FLAGS_TYPE_COMPRESSION_def SECP256K1_FLAGS_BIT_CONTEXT_VERIFY_def
  SECP256K1_FLAGS_BIT_CONTEXT_SIGN_def SECP256K1_FLAGS_BIT_COMPRESSION_def SECP256K1_CONTEXT_VERIFY_def
  SECP256K1_CONTEXT_SIGN_def SECP256K1_EC_COMPRESSED_def SECP256K1_EC_UNCOMPRESSED_def

text \<open>\<open>ret\<close> is the memory that is allocated, \<open>table\<close> the table for the generator.\<close>

definition secp256k1_context_create ::
  "api_mem \<Rightarrow> ge_storage list list \<Rightarrow> secp256k1_context \<Rightarrow> u32 \<Rightarrow> secp256k1_context api" where
  "secp256k1_context_create m table ret flags =
     (if flags AND SECP256K1_FLAGS_TYPE_MASK \<noteq> SECP256K1_FLAGS_TYPE_CONTEXT then Inl IllegalArgument
      else
        let ret = ret\<lparr>ecmult_ctx := secp256k1_ecmult_context_init (ecmult_ctx ret),
                      ecmult_gen_ctx := secp256k1_ecmult_gen_context_init (ecmult_gen_ctx ret)\<rparr>
        in sbind (if flags AND SECP256K1_FLAGS_BIT_CONTEXT_SIGN \<noteq> 0 then
                    result (secp256k1_ecmult_gen_context_build (am_sha m) (am_hmac m) table (ecmult_gen_ctx ret))
                  else Inr (ecmult_gen_ctx ret)) (\<lambda>gen.
           let ret = ret\<lparr>ecmult_gen_ctx := gen\<rparr>
           in Inr (if flags AND SECP256K1_FLAGS_BIT_CONTEXT_VERIFY \<noteq> 0 then
                     ret\<lparr>ecmult_ctx := secp256k1_ecmult_context_build (m_d (am_ec m)) (m_prej (am_ec m)) (m_zr (am_ec m)) (ecmult_ctx ret)\<rparr>
                   else ret)))"

definition secp256k1_context_clone :: "secp256k1_context \<Rightarrow> secp256k1_context \<Rightarrow> secp256k1_context" where
  "secp256k1_context_clone ret ctx =
     ret\<lparr>ecmult_ctx := secp256k1_ecmult_context_clone (ecmult_ctx ret) (ecmult_ctx ctx),
         ecmult_gen_ctx := secp256k1_ecmult_gen_context_clone (ecmult_gen_ctx ret) (ecmult_gen_ctx ctx)\<rparr>"

text \<open>What the memory of the context holds when it is freed.\<close>

definition secp256k1_context_destroy :: "secp256k1_context \<Rightarrow> secp256k1_context" where
  "secp256k1_context_destroy ctx =
     ctx\<lparr>ecmult_ctx := secp256k1_ecmult_context_clear (ecmult_ctx ctx),
         ecmult_gen_ctx := secp256k1_ecmult_gen_context_clear (ecmult_gen_ctx ctx)\<rparr>"

definition secp256k1_context_randomize :: "api_mem \<Rightarrow> secp256k1_context \<Rightarrow> bytes option \<Rightarrow> secp256k1_context api" where
  "secp256k1_context_randomize m ctx seed32 =
     ARG_CHECK (secp256k1_ecmult_gen_context_is_built (ecmult_gen_ctx ctx)) (
     sbind (result (secp256k1_ecmult_gen_blind (am_sha m) (am_hmac m) (ecmult_gen_ctx ctx) seed32)) (\<lambda>gen.
     Inr (ctx\<lparr>ecmult_gen_ctx := gen\<rparr>)))"

section \<open>Public keys\<close>

text \<open>The 64 bytes of \<open>secp256k1_pubkey\<close> are those of a stored point.\<close>

definition secp256k1_pubkey_load :: "ge_storage \<Rightarrow> ge api" where
  "secp256k1_pubkey_load pk =
     (let ge = secp256k1_ge_from_storage pk in ARG_CHECK (\<not> secp256k1_fe_is_zero (ge_x ge)) (Inr ge))"

definition secp256k1_pubkey_save :: "ge \<Rightarrow> ge_storage" where
  "secp256k1_pubkey_save ge = secp256k1_ge_to_storage ge"

definition secp256k1_ec_pubkey_parse :: "bytes \<Rightarrow> ge_storage \<times> bool" where
  "secp256k1_ec_pubkey_parse inp =
     (let pk = zero_storage
      in case secp256k1_eckey_pubkey_parse inp of None \<Rightarrow> (pk, False)
         | Some Q \<Rightarrow> (secp256k1_pubkey_save Q, True))"

text \<open>The output, of which as many bytes count as the second result says.\<close>

definition secp256k1_ec_pubkey_serialize :: "nat \<Rightarrow> ge_storage \<Rightarrow> u32 \<Rightarrow> (bytes \<times> nat \<times> bool) api" where
  "secp256k1_ec_pubkey_serialize outputlen pk flags =
     ARG_CHECK (outputlen \<ge> (if flags AND SECP256K1_FLAGS_BIT_COMPRESSION \<noteq> 0 then 33 else 65)) (
     let len = outputlen; output = replicate len 0
     in ARG_CHECK (flags AND SECP256K1_FLAGS_TYPE_MASK = SECP256K1_FLAGS_TYPE_COMPRESSION) (
        sbind (secp256k1_pubkey_load pk) (\<lambda>Q.
        Inr (case secp256k1_eckey_pubkey_serialize Q (flags AND SECP256K1_FLAGS_BIT_COMPRESSION \<noteq> 0) of
               None \<Rightarrow> (output, 0, False)
             | Some (Q, b) \<Rightarrow> (memcpy output 0 b, length b, True)))))"

definition secp256k1_ec_pubkey_create :: "secp256k1_context \<Rightarrow> bytes \<Rightarrow> (ge_storage \<times> bool) api" where
  "secp256k1_ec_pubkey_create ctx seckey =
     (let pk = zero_storage
      in ARG_CHECK (secp256k1_ecmult_gen_context_is_built (ecmult_gen_ctx ctx)) (
         let (sec, overflow) = secp256k1_scalar_set_b32 seckey;
             ret = (\<not> overflow \<and> \<not> secp256k1_scalar_is_zero sec)
         in if ret then
              sbind (result (secp256k1_ecmult_gen (ecmult_gen_ctx ctx) sec)) (\<lambda>pj.
              let p = fst (secp256k1_ge_set_gej pj) in Inr (secp256k1_pubkey_save p, ret))
            else Inr (pk, ret)))"

definition secp256k1_ec_pubkey_negate :: "ge_storage \<Rightarrow> (ge_storage \<times> bool) api" where
  "secp256k1_ec_pubkey_negate pk =
     sbind (secp256k1_pubkey_load pk) (\<lambda>p. let p = secp256k1_ge_neg p in Inr (secp256k1_pubkey_save p, True))"

text \<open>The two tweaks of a public key: the point is loaded only if the tweak is in range.\<close>

definition pubkey_tweak ::
  "(ge \<Rightarrow> scalar \<Rightarrow> ge option option) \<Rightarrow> secp256k1_context \<Rightarrow> ge_storage \<Rightarrow> bytes \<Rightarrow> (ge_storage \<times> bool) api" where
  "pubkey_tweak f ctx pk tweak =
     ARG_CHECK (secp256k1_ecmult_context_is_built (ecmult_ctx ctx)) (
     let (term, overflow) = secp256k1_scalar_set_b32 tweak
     in if overflow then Inr (zero_storage, False)
        else sbind (secp256k1_pubkey_load pk) (\<lambda>p.
             sbind (result (f p term)) (\<lambda>res.
             Inr (case res of Some p \<Rightarrow> (secp256k1_pubkey_save p, True) | None \<Rightarrow> (zero_storage, False)))))"

definition secp256k1_ec_pubkey_tweak_add :: "api_mem \<Rightarrow> secp256k1_context \<Rightarrow> ge_storage \<Rightarrow> bytes \<Rightarrow> (ge_storage \<times> bool) api" where
  "secp256k1_ec_pubkey_tweak_add m ctx = pubkey_tweak (secp256k1_eckey_pubkey_tweak_add (ecmult_ctx ctx) (am_ec m)) ctx"

definition secp256k1_ec_pubkey_tweak_mul :: "api_mem \<Rightarrow> secp256k1_context \<Rightarrow> ge_storage \<Rightarrow> bytes \<Rightarrow> (ge_storage \<times> bool) api" where
  "secp256k1_ec_pubkey_tweak_mul m ctx = pubkey_tweak (secp256k1_eckey_pubkey_tweak_mul (ecmult_ctx ctx) (am_ec m)) ctx"

fun combine_loop :: "gej \<Rightarrow> ge_storage list \<Rightarrow> gej api" where
  "combine_loop Qj [] = Inr Qj"
| "combine_loop Qj (pk # pks) = sbind (secp256k1_pubkey_load pk) (\<lambda>Q. combine_loop (secp256k1_gej_add_ge Qj Q) pks)"

definition secp256k1_ec_pubkey_combine :: "gej \<Rightarrow> ge_storage list \<Rightarrow> (ge_storage \<times> bool) api" where
  "secp256k1_ec_pubkey_combine Qj pubnonces =
     (let pubnonce = zero_storage
      in ARG_CHECK (length pubnonces \<ge> 1) (
         sbind (combine_loop (secp256k1_gej_set_infinity Qj) pubnonces) (\<lambda>Qj.
         Inr (if secp256k1_gej_is_infinity Qj then (pubnonce, False)
              else let Q = fst (secp256k1_ge_set_gej Qj) in (secp256k1_pubkey_save Q, True)))))"

section \<open>Private keys\<close>

definition secp256k1_ec_seckey_verify :: "bytes \<Rightarrow> bool" where
  "secp256k1_ec_seckey_verify seckey =
     (let (sec, overflow) = secp256k1_scalar_set_b32 seckey in \<not> overflow \<and> \<not> secp256k1_scalar_is_zero sec)"

definition secp256k1_ec_privkey_negate :: "bytes \<Rightarrow> bytes" where
  "secp256k1_ec_privkey_negate seckey =
     (let sec = fst (secp256k1_scalar_set_b32 seckey); sec = secp256k1_scalar_negate sec in secp256k1_scalar_get_b32 sec)"

definition secp256k1_ec_privkey_tweak_add :: "bytes \<Rightarrow> bytes \<Rightarrow> bytes \<times> bool" where
  "secp256k1_ec_privkey_tweak_add seckey tweak =
     (let (term, overflow) = secp256k1_scalar_set_b32 tweak;
          sec = fst (secp256k1_scalar_set_b32 seckey);
          (sec, ret) = (if overflow then (sec, False) else secp256k1_eckey_privkey_tweak_add sec term)
      in (if ret then secp256k1_scalar_get_b32 sec else replicate 32 0, ret))"

definition secp256k1_ec_privkey_tweak_mul :: "bytes \<Rightarrow> bytes \<Rightarrow> bytes \<times> bool" where
  "secp256k1_ec_privkey_tweak_mul seckey tweak =
     (let (factor, overflow) = secp256k1_scalar_set_b32 tweak;
          sec = fst (secp256k1_scalar_set_b32 seckey);
          (sec, ret) = (if overflow then (sec, False) else secp256k1_eckey_privkey_tweak_mul sec factor)
      in (if ret then secp256k1_scalar_get_b32 sec else replicate 32 0, ret))"

section \<open>Signatures\<close>

text \<open>The 64 bytes of \<open>secp256k1_ecdsa_signature\<close> are those of the two scalars, the record \<open>signature\<close>.\<close>

definition zero_scalar :: scalar where
  "zero_scalar = \<lparr>d0 = 0, d1 = 0, d2 = 0, d3 = 0\<rparr>"

definition zero_signature :: signature where
  "zero_signature = \<lparr>sig_r = zero_scalar, sig_s = zero_scalar\<rparr>"

definition secp256k1_ecdsa_signature_load :: "signature \<Rightarrow> scalar \<times> scalar" where
  "secp256k1_ecdsa_signature_load g = (sig_r g, sig_s g)"

definition secp256k1_ecdsa_signature_save :: "scalar \<Rightarrow> scalar \<Rightarrow> signature" where
  "secp256k1_ecdsa_signature_save r s = \<lparr>sig_r = r, sig_s = s\<rparr>"

definition secp256k1_ecdsa_signature_parse_der :: "bytes \<Rightarrow> (signature \<times> bool) api" where
  "secp256k1_ecdsa_signature_parse_der inp =
     sbind (result (secp256k1_ecdsa_sig_parse inp)) (\<lambda>res.
     Inr (case res of Some (r, s) \<Rightarrow> (secp256k1_ecdsa_signature_save r s, True) | None \<Rightarrow> (zero_signature, False)))"

definition secp256k1_ecdsa_signature_serialize_der :: "nat \<Rightarrow> signature \<Rightarrow> bytes option \<times> nat" where
  "secp256k1_ecdsa_signature_serialize_der outputlen g =
     (let (r, s) = secp256k1_ecdsa_signature_load g in secp256k1_ecdsa_sig_serialize outputlen r s)"

definition secp256k1_ecdsa_signature_normalize :: "signature \<Rightarrow> signature \<times> bool" where
  "secp256k1_ecdsa_signature_normalize sigin =
     (let (r, s) = secp256k1_ecdsa_signature_load sigin;
          ret = secp256k1_scalar_is_high s;
          s = (if ret then secp256k1_scalar_negate s else s)
      in (secp256k1_ecdsa_signature_save r s, ret))"

definition secp256k1_ecdsa_verify :: "api_mem \<Rightarrow> secp256k1_context \<Rightarrow> signature \<Rightarrow> bytes \<Rightarrow> ge_storage \<Rightarrow> bool api" where
  "secp256k1_ecdsa_verify mem ctx g msg32 pk =
     ARG_CHECK (secp256k1_ecmult_context_is_built (ecmult_ctx ctx)) (
     let m = fst (secp256k1_scalar_set_b32 msg32);
         (r, s) = secp256k1_ecdsa_signature_load g
     in if secp256k1_scalar_is_high s then Inr False
        else sbind (secp256k1_pubkey_load pk) (\<lambda>q.
             result (secp256k1_ecdsa_sig_verify (ecmult_ctx ctx) (am_ec mem) r s q m)))"

subsection \<open>Nonces\<close>

text \<open>\<open>i <= counter\<close> holds for every 32-bit \<open>i\<close> if the counter is the largest one.\<close>

partial_function (option) nonce_loop :: "sha256 \<Rightarrow> hmac_sha256 \<Rightarrow> u32 \<Rightarrow> u32 \<Rightarrow> rfc6979 \<Rightarrow> bytes \<Rightarrow> bytes option" where
  "nonce_loop m hmac counter i rng nonce32 =
     (if i \<le> counter then
        let (rng, nonce32) = secp256k1_rfc6979_hmac_sha256_generate m hmac rng 32
        in nonce_loop m hmac counter (i + 1) rng nonce32
      else Some nonce32)"

type_synonym nonce_function = "bytes \<Rightarrow> bytes \<Rightarrow> bytes option \<Rightarrow> bytes option \<Rightarrow> u32 \<Rightarrow> (bytes \<times> bool) option"

definition nonce_function_rfc6979 :: "api_mem \<Rightarrow> bytes \<Rightarrow> nonce_function" where
  "nonce_function_rfc6979 m nonce32 msg32 key32 algo16 data counter =
     (let keydata = take 32 key32 @ take 32 msg32;
          keydata = keydata @ (case data of None \<Rightarrow> [] | Some d \<Rightarrow> take 32 d);
          keydata = keydata @ (case algo16 of None \<Rightarrow> [] | Some a \<Rightarrow> take 16 a);
          rng = secp256k1_rfc6979_hmac_sha256_initialize (am_sha m) (am_hmac m) keydata
      in map_option (\<lambda>n. (n, True)) (nonce_loop (am_sha m) (am_hmac m) counter 0 rng nonce32))"

subsection \<open>Signing\<close>

text \<open>\<open>None\<close> within the result: the nonce function gave up.\<close>

partial_function (option) sign_loop ::
  "(u32 \<Rightarrow> (bytes \<times> bool) option) \<Rightarrow> ecmult_gen_context \<Rightarrow> scalar \<Rightarrow> scalar \<Rightarrow> u32 \<Rightarrow> ecdsa_signed option option" where
  "sign_loop noncefp ctx sec msg count =
     noncefp count \<bind> (\<lambda>(nonce32, ret).
     if \<not> ret then Some None
     else
       let (non, overflow) = secp256k1_scalar_set_b32 nonce32
       in if \<not> overflow \<and> \<not> secp256k1_scalar_is_zero non then
            secp256k1_ecdsa_sig_sign ctx sec msg non \<bind> (\<lambda>sg.
            if sg_ok sg then Some (Some sg) else sign_loop noncefp ctx sec msg (count + 1))
          else sign_loop noncefp ctx sec msg (count + 1))"

text \<open>What \<open>secp256k1_ecdsa_sign\<close> and \<open>secp256k1_ecdsa_sign_recoverable\<close> have in common; \<open>nonce32\<close> is
  the memory of the nonce.\<close>

definition sign_with ::
  "api_mem \<Rightarrow> bytes \<Rightarrow> secp256k1_context \<Rightarrow> bytes \<Rightarrow> bytes \<Rightarrow> nonce_function option \<Rightarrow> bytes option \<Rightarrow> ecdsa_signed option api" where
  "sign_with m nonce32 ctx msg32 seckey noncefp noncedata =
     ARG_CHECK (secp256k1_ecmult_gen_context_is_built (ecmult_gen_ctx ctx)) (
     let noncefp = (case noncefp of None \<Rightarrow> nonce_function_rfc6979 m nonce32 | Some f \<Rightarrow> f);
         (sec, overflow) = secp256k1_scalar_set_b32 seckey
     in if \<not> overflow \<and> \<not> secp256k1_scalar_is_zero sec then
          let msg = fst (secp256k1_scalar_set_b32 msg32)
          in result (sign_loop (noncefp msg32 seckey None noncedata) (ecmult_gen_ctx ctx) sec msg 0)
        else Inr None)"

definition secp256k1_ecdsa_sign ::
  "api_mem \<Rightarrow> bytes \<Rightarrow> secp256k1_context \<Rightarrow> bytes \<Rightarrow> bytes \<Rightarrow> nonce_function option \<Rightarrow> bytes option \<Rightarrow> (signature \<times> bool) api" where
  "secp256k1_ecdsa_sign m nonce32 ctx msg32 seckey noncefp noncedata =
     sbind (sign_with m nonce32 ctx msg32 seckey noncefp noncedata) (\<lambda>res.
     Inr (case res of Some sg \<Rightarrow> (secp256k1_ecdsa_signature_save (sg_r sg) (sg_s sg), True)
          | None \<Rightarrow> (zero_signature, False)))"

section \<open>Recoverable signatures\<close>

record recoverable_signature =
  rs_r :: scalar
  rs_s :: scalar
  rs_recid :: u8

definition zero_recoverable :: recoverable_signature where
  "zero_recoverable = \<lparr>rs_r = zero_scalar, rs_s = zero_scalar, rs_recid = 0\<rparr>"

definition secp256k1_ecdsa_recoverable_signature_load :: "recoverable_signature \<Rightarrow> scalar \<times> scalar \<times> int" where
  "secp256k1_ecdsa_recoverable_signature_load g = (rs_r g, rs_s g, uint (rs_recid g))"

definition secp256k1_ecdsa_recoverable_signature_save :: "scalar \<Rightarrow> scalar \<Rightarrow> int \<Rightarrow> recoverable_signature" where
  "secp256k1_ecdsa_recoverable_signature_save r s recid = \<lparr>rs_r = r, rs_s = s, rs_recid = word_of_int recid\<rparr>"

definition secp256k1_ecdsa_recoverable_signature_parse_compact :: "bytes \<Rightarrow> int \<Rightarrow> (recoverable_signature \<times> bool) api" where
  "secp256k1_ecdsa_recoverable_signature_parse_compact input64 recid =
     ARG_CHECK (recid \<ge> 0 \<and> recid \<le> 3) (
     let (r, overflow) = secp256k1_scalar_set_b32 (take 32 input64);
         ret = (\<not> overflow);
         (s, overflow) = secp256k1_scalar_set_b32 (take 32 (drop 32 input64));
         ret = (ret \<and> \<not> overflow)
     in Inr (if ret then secp256k1_ecdsa_recoverable_signature_save r s recid else zero_recoverable, ret))"

definition secp256k1_ecdsa_recoverable_signature_serialize_compact :: "recoverable_signature \<Rightarrow> bytes \<times> int" where
  "secp256k1_ecdsa_recoverable_signature_serialize_compact g =
     (let (r, s, recid) = secp256k1_ecdsa_recoverable_signature_load g
      in (secp256k1_scalar_get_b32 r @ secp256k1_scalar_get_b32 s, recid))"

definition secp256k1_ecdsa_recoverable_signature_convert :: "recoverable_signature \<Rightarrow> signature" where
  "secp256k1_ecdsa_recoverable_signature_convert sigin =
     (let (r, s, recid) = secp256k1_ecdsa_recoverable_signature_load sigin in secp256k1_ecdsa_signature_save r s)"

text \<open>\<open>q\<close> is the memory of the point that is recovered.\<close>

definition secp256k1_ecdsa_sig_recover ::
  "ecmult_context \<Rightarrow> ecmult_mem \<Rightarrow> ge \<Rightarrow> scalar \<Rightarrow> scalar \<Rightarrow> scalar \<Rightarrow> int \<Rightarrow> ge option option" where
  "secp256k1_ecdsa_sig_recover ctx m q sigr ss message recid =
     (if secp256k1_scalar_is_zero sigr \<or> secp256k1_scalar_is_zero ss then Some None
      else
        let fx = fst (secp256k1_fe_set_b32 (secp256k1_scalar_get_b32 sigr))
        in if recid AND 2 \<noteq> 0 \<and> secp256k1_fe_cmp_var fx secp256k1_ecdsa_const_p_minus_order \<ge> 0 then Some None
           else
             let fx = (if recid AND 2 \<noteq> 0 then secp256k1_fe_add fx secp256k1_ecdsa_const_order_as_fe else fx);
                 (x, ok) = secp256k1_ge_set_xo_var fx (recid AND 1 \<noteq> 0)
             in if \<not> ok then Some None
                else
                  let xj = secp256k1_gej_set_ge x;
                      rn = secp256k1_scalar_inverse_var sigr;
                      u1 = secp256k1_scalar_mul rn message;
                      u1 = secp256k1_scalar_negate u1;
                      u2 = secp256k1_scalar_mul rn ss
                  in ecmult_on ctx m xj u2 (Some u1) \<bind> (\<lambda>qj.
                  let pk = fst (secp256k1_ge_set_gej_var q qj)
                  in Some (if \<not> secp256k1_gej_is_infinity qj then Some pk else None)))"

definition secp256k1_ecdsa_sign_recoverable ::
  "api_mem \<Rightarrow> bytes \<Rightarrow> secp256k1_context \<Rightarrow> bytes \<Rightarrow> bytes \<Rightarrow> nonce_function option \<Rightarrow> bytes option \<Rightarrow>
   (recoverable_signature \<times> bool) api" where
  "secp256k1_ecdsa_sign_recoverable m nonce32 ctx msg32 seckey noncefp noncedata =
     sbind (sign_with m nonce32 ctx msg32 seckey noncefp noncedata) (\<lambda>res.
     Inr (case res of
            Some sg \<Rightarrow> (secp256k1_ecdsa_recoverable_signature_save (sg_r sg) (sg_s sg) (sg_recid sg), True)
          | None \<Rightarrow> (zero_recoverable, False)))"

definition secp256k1_ecdsa_recover ::
  "api_mem \<Rightarrow> ge \<Rightarrow> secp256k1_context \<Rightarrow> recoverable_signature \<Rightarrow> bytes \<Rightarrow> (ge_storage \<times> bool) api" where
  "secp256k1_ecdsa_recover mem q ctx g msg32 =
     ARG_CHECK (secp256k1_ecmult_context_is_built (ecmult_ctx ctx)) (
     let (r, s, recid) = secp256k1_ecdsa_recoverable_signature_load g;
         m = fst (secp256k1_scalar_set_b32 msg32)
     in sbind (result (secp256k1_ecdsa_sig_recover (ecmult_ctx ctx) (am_ec mem) q r s m recid)) (\<lambda>res.
        Inr (case res of Some q \<Rightarrow> (secp256k1_pubkey_save q, True) | None \<Rightarrow> (zero_storage, False))))"

section \<open>Keys and signatures of the program\<close>

text \<open>
  \<open>PubKeySecp256k1\<close>, \<open>PrivKeySecp256k1\<close> and \<open>SigSecp256k1\<close>. Private keys are their 32 bytes.
\<close>

datatype key_error =
    IllFormedKey            \<comment> \<open>\<open>std::invalid_argument\<close> of the two \<open>unserialize\<close>\<close>
  | InvalidPrivateKey       \<comment> \<open>\<open>"invalid secp256k1 private key"\<close>\<close>
  | MessageLength           \<comment> \<open>\<open>"the message should be 32-bytes"\<close>\<close>
  | SigningFailed           \<comment> \<open>\<open>"failed to create secp256k1 signature"\<close>\<close>
  | LibraryError api_error

definition Secp256k1Context ::
  "api_mem \<Rightarrow> ge_storage list list \<Rightarrow> secp256k1_context \<Rightarrow> bool \<Rightarrow> secp256k1_context api" where
  "Secp256k1Context m table ret sign =
     secp256k1_context_create m table ret (if sign then SECP256K1_CONTEXT_SIGN else SECP256K1_CONTEXT_VERIFY)"

definition pubkey_serialize :: "ge_storage \<Rightarrow> datastream \<Rightarrow> key_error + datastream" where
  "pubkey_serialize key s =
     sbind (map_err LibraryError (secp256k1_ec_pubkey_serialize 33 key SECP256K1_EC_COMPRESSED)) (\<lambda>(output, len, ok).
     Inr (ds_put_data output s))"

definition pubkey_unserialize :: "datastream \<Rightarrow> key_error + (ge_storage \<times> datastream)" where
  "pubkey_unserialize s =
     (case ds_get_data_inplace 33 s of
        (Inl _, _) \<Rightarrow> Inl IllFormedKey
      | (Inr bs, s') \<Rightarrow>
          (let (key, ok) = secp256k1_ec_pubkey_parse bs in if \<not> ok then Inl IllFormedKey else Inr (key, s')))"

definition privkey_serialize :: "bytes \<Rightarrow> datastream \<Rightarrow> datastream" where
  "privkey_serialize key s = ds_put_data key s"

definition privkey_unserialize :: "datastream \<Rightarrow> key_error + (bytes \<times> datastream)" where
  "privkey_unserialize s =
     (case ds_get_data_inplace 32 s of (Inl _, _) \<Rightarrow> Inl IllFormedKey | (Inr bs, s') \<Rightarrow> Inr (bs, s'))"

definition PubKeySecp256k1 :: "secp256k1_context \<Rightarrow> bytes \<Rightarrow> key_error + ge_storage" where
  "PubKeySecp256k1 ctx priv_key =
     sbind (map_err LibraryError (secp256k1_ec_pubkey_create ctx priv_key)) (\<lambda>(key, ok).
     if \<not> ok then Inl InvalidPrivateKey else Inr key)"

definition check_msg_length :: "bytes \<Rightarrow> key_error + 'a \<Rightarrow> key_error + 'a" where
  "check_msg_length msg k = (if length msg \<noteq> 32 then Inl MessageLength else k)"

definition sig_sign :: "api_mem \<Rightarrow> bytes \<Rightarrow> secp256k1_context \<Rightarrow> bytes \<Rightarrow> bytes \<Rightarrow> key_error + signature" where
  "sig_sign m nonce32 ctx msg priv_key =
     check_msg_length msg (
     sbind (map_err LibraryError (secp256k1_ecdsa_sign m nonce32 ctx msg priv_key None None)) (\<lambda>(g, ok).
     if \<not> ok then Inl SigningFailed else Inr g))"

definition sig_verify :: "api_mem \<Rightarrow> secp256k1_context \<Rightarrow> signature \<Rightarrow> bytes \<Rightarrow> ge_storage \<Rightarrow> key_error + bool" where
  "sig_verify m ctx g msg pub_key =
     check_msg_length msg (map_err LibraryError (secp256k1_ecdsa_verify m ctx g msg pub_key))"

text \<open>The verifier that certificates are checked with: the verifying context, on the bytes of the hash. A run that is
  cut off by an error of the library counts as a rejection.\<close>

definition hash_verify :: "api_mem \<Rightarrow> secp256k1_context \<Rightarrow> ge_storage \<Rightarrow> hash \<Rightarrow> signature \<Rightarrow> bool" where
  "hash_verify m ctx pk h g = (sig_verify m ctx g (int_enc h) pk = Inr True)"

end
