(* ===== verification/Der_Correct.thy ===== *)
theory Der_Correct
  imports Ecdsa
begin

text \<open>
  Signatures in DER: the parser of \<open>ecdsa_impl.h\<close> never reads beyond its input, it gives back what the
  serializer wrote, and it accepts a signature with two scalars that are not zero in one form only.
\<close>

section \<open>No read beyond the end\<close>

lemma der_len_loop_total: "n \<le> length sig \<Longrightarrow> der_len_loop n ret sig \<noteq> None"
  by (induction n arbitrary: ret sig) (auto simp: Let_def split: list.splits)

lemma and_top_bit: "(b :: u8) AND 0x80 = (if bit b 7 then 0x80 else 0)"
proof -
  have "b AND 2 ^ k = (if bit b k then 2 ^ k else 0)" for k
    by (rule bit_word_eqI) (auto simp: bit_and_iff bit_exp_iff)
  from this [of 7] show ?thesis by simp
qed

lemma top_bit_iff: "(b :: u8) AND 0x80 = 0x80 \<longleftrightarrow> 128 \<le> unat b" "b AND 0x80 = 0 \<longleftrightarrow> unat b < 128"
proof -
  have "bit (unat b) 7 = bit b 7" by (simp add: bit_unsigned_iff)
  then have "bit b 7 = odd (unat b div 128)" by (simp add: bit_iff_odd)
  moreover have "unat b div 128 < 2" using unat_byte [of b] by (simp add: less_mult_imp_div_less)
  ultimately have "bit b 7 = (128 \<le> unat b)" by (cases "unat b div 128 = 0") (auto simp: div_eq_0_iff)
  then show "b AND 0x80 = 0x80 \<longleftrightarrow> 128 \<le> unat b" "b AND 0x80 = 0 \<longleftrightarrow> unat b < 128"
    by (auto simp: and_top_bit)
qed

lemma read_len_total: "secp256k1_der_read_len sig \<noteq> None"
proof (cases sig)
  case (Cons b1 rest)
  have "0 < unat (b1 AND 0x7F)" if "b1 AND 0x80 \<noteq> 0" "b1 \<noteq> 0x80"
  proof (rule ccontr)
    assume "\<not> 0 < unat (b1 AND 0x7F)"
    then have "b1 AND 0x7F = 0" by (simp add: unat_eq_0)
    moreover have "b1 = (b1 AND 0x80) OR (b1 AND 0x7F)"
    proof -
      have "(0xFF :: u8) = - 1" by simp
      then have "b1 AND 0xFF = b1" by (simp only: and.right_neutral)
      then show ?thesis by (simp flip: bit.conj_disj_distrib)
    qed
    moreover have "b1 AND 0x80 = 0x80" using that(1) by (simp add: and_top_bit split: if_splits)
    ultimately show False using that(2) by simp
  qed
  then show ?thesis
    using der_len_loop_total [of "unat (b1 AND 0x7F)" rest 0] Cons
    by (auto simp: secp256k1_der_read_len_def Let_def split: list.splits option.splits)
qed (simp add: secp256k1_der_read_len_def)

lemma rd_total: "i < length sig \<Longrightarrow> rd sig i = Some (sig ! i)"
  by (simp add: rd_def)

lemma der_padded_total: "rlen \<le> int (length sig) \<Longrightarrow> 0 < rlen \<Longrightarrow>
    der_padded pad sg rlen sig = Some (sig ! 0 = pad \<and> rlen > 1 \<and> sig ! 1 AND 0x80 = sg)"
  by (auto simp: der_padded_def rd_def)

text \<open>Leading zeros: what is skipped, and what the rest encodes.\<close>

lemma der_skip_zeros_spec:
  "n \<le> length sig \<Longrightarrow> \<exists>k\<le>n. der_skip_zeros n sig = Some (n - k, drop k sig) \<and> take k sig = replicate k 0 \<and>
     (k < n \<longrightarrow> sig ! k \<noteq> 0)"
proof (induction n arbitrary: sig)
  case (Suc n)
  then obtain c rest where sig: "sig = c # rest" by (cases sig) auto
  show ?case
  proof (cases "c = 0")
    case True
    from Suc.IH [of rest] Suc.prems sig obtain k where
      "k \<le> n" "der_skip_zeros n rest = Some (n - k, drop k rest)" "take k rest = replicate k 0" "k < n \<longrightarrow> rest ! k \<noteq> 0" by auto
    then show ?thesis using True by (intro exI [of _ "Suc k"]) (auto simp: sig)
  next
    case False
    then show ?thesis by (intro exI [of _ 0]) (auto simp: sig)
  qed
qed simp

lemma of_be_replicate_0: "of_be (replicate k 0 @ xs) = of_be xs"
proof -
  have "of_be (replicate k 0 :: bytes) = 0"
  proof (induction k)
    case (Suc k)
    have "replicate (Suc k) (0 :: u8) = replicate k 0 @ [0]" by (simp add: replicate_append_same)
    then show ?case using Suc by (simp only: of_be_snoc) simp
  qed simp
  then show ?thesis by (simp add: of_be_append)
qed

section \<open>Minimal forms\<close>

text \<open>A shortest form of a number that is not negative: no top bit in front, no zero byte that could be dropped.\<close>

definition minimal :: "bytes \<Rightarrow> bool" where
  "minimal bs = (bs \<noteq> [] \<and> unat (bs ! 0) < 128 \<and> (1 < length bs \<and> bs ! 0 = 0 \<longrightarrow> 128 \<le> unat (bs ! 1)))"

lemma of_be_Cons: "of_be (b # bs) = unat b * 256 ^ length bs + of_be bs"
  using of_be_append [of "[b]" bs] of_be_snoc [of "[]" b] by simp

lemma minimal_bounds:
  assumes "minimal bs"
  shows "of_be bs < 128 * 256 ^ (length bs - 1)" and "1 < length bs \<Longrightarrow> 128 * 256 ^ (length bs - 2) \<le> of_be bs"
proof -
  obtain b rest where bs: "bs = b # rest" using assms by (cases bs) (auto simp: minimal_def)
  have b: "unat b < 128" using assms by (simp add: minimal_def bs)
  have rest: "of_be rest < 256 ^ length rest" by (rule of_be_bound)
  have "unat b * 256 ^ length rest + of_be rest < (unat b + 1) * 256 ^ length rest" using rest by simp
  also have "\<dots> \<le> 128 * 256 ^ length rest" using b by (intro mult_right_mono) auto
  finally show "of_be bs < 128 * 256 ^ (length bs - 1)" by (simp add: bs of_be_Cons)
  assume "1 < length bs"
  then obtain c rest' where rest': "rest = c # rest'" by (cases rest) (auto simp: bs)
  show "128 * 256 ^ (length bs - 2) \<le> of_be bs"
  proof (cases "b = 0")
    case True
    then have "128 \<le> unat c" using assms by (simp add: minimal_def bs rest')
    then have "128 * 256 ^ length rest' \<le> unat c * 256 ^ length rest'" by (rule mult_right_mono) simp
    then show ?thesis by (simp add: bs rest' of_be_Cons trans_le_add1 trans_le_add2)
  next
    case False
    then have "1 \<le> unat b" by (simp add: Suc_le_eq unat_gt_0)
    then have "1 * 256 ^ length rest \<le> unat b * 256 ^ length rest" by (rule mult_right_mono) simp
    moreover have "128 * 256 ^ length rest' \<le> (1 :: nat) * 256 ^ length rest" by (simp add: rest')
    ultimately have "128 * 256 ^ length rest' \<le> of_be bs" unfolding bs of_be_Cons by linarith
    then show ?thesis by (simp add: bs rest')
  qed
qed

lemma minimal_length_mono:
  assumes "minimal as" "minimal bs" "of_be as \<le> of_be bs" shows "length as \<le> length bs"
proof (rule ccontr)
  assume gt: "\<not> length as \<le> length bs"
  moreover have "bs \<noteq> []" using assms by (simp add: minimal_def)
  ultimately have "128 * 256 ^ (length bs - 1) \<le> (128 * 256 ^ (length as - 2) :: nat)" "1 < length as"
    by (auto intro!: power_increasing simp: neq_Nil_conv)
  then show False using minimal_bounds(2) [OF assms(1)] minimal_bounds(1) [OF assms(2)] assms(3) by linarith
qed

lemma minimal_unique:
  assumes "minimal as" "minimal bs" "of_be as = of_be bs" shows "as = bs"
proof -
  have "length as = length bs"
    using minimal_length_mono [OF assms(1,2)] minimal_length_mono [OF assms(2,1)] assms(3) by simp
  then show ?thesis using assms(3) by (metis to_be_of_be)
qed

lemma minimal_short: "minimal bs \<Longrightarrow> of_be bs < 2 ^ 256 \<Longrightarrow> length bs \<le> 33"
proof (rule ccontr)
  assume "minimal bs" "of_be bs < 2 ^ 256" "\<not> length bs \<le> 33"
  moreover from this have "(256 :: nat) ^ 32 \<le> 256 ^ (length bs - 2)" by (intro power_increasing) auto
  ultimately show False using minimal_bounds(2) [of bs] by simp
qed

lemma der_strip_minimal:
  "bs \<noteq> [] \<Longrightarrow> unat (bs ! 0) < 128 \<Longrightarrow> minimal (der_strip bs) \<and> of_be (der_strip bs) = of_be bs"
proof (induction bs rule: der_strip.induct)
  case (1 a b xs)
  then show ?case
    by (cases "a = 0 \<and> b < 0x80") (auto simp: of_be_Cons [of 0] minimal_def word_less_nat_alt word_le_nat_alt not_less)
qed (auto simp: minimal_def)

text \<open>What the serializer writes for one scalar.\<close>

definition der_integer :: "scalar \<Rightarrow> bytes" where
  "der_integer a = der_strip (0 # secp256k1_scalar_get_b32 a)"

lemma der_integer_minimal: "minimal (der_integer a)" "of_be (der_integer a) = sval a"
  using der_strip_minimal [of "0 # secp256k1_scalar_get_b32 a"] by (simp_all add: der_integer_def of_be_Cons get_b32_val)

lemma der_integer_length: "length (der_integer a) \<le> 33" "0 < length (der_integer a)"
  using minimal_short [OF der_integer_minimal(1) [of a]] der_integer_minimal(1) [of a] sval_lt [of a]
  by (simp_all add: der_integer_minimal(2) minimal_def)

section \<open>One integer\<close>

lemma sval_set_int_0: "sval (secp256k1_scalar_set_int 0) = 0"
  by (simp add: secp256k1_scalar_set_int_def sval_def)

text \<open>What the parser makes of the bytes of an integer: zero if it is negative or not below the order.\<close>

definition der_value :: "bytes \<Rightarrow> nat" where
  "der_value bs = (if unat (bs ! 0) < 128 \<and> of_be bs < secp256k1_n then of_be bs else 0)"

lemma of_be_ge: "bs \<noteq> [] \<Longrightarrow> bs ! 0 \<noteq> 0 \<Longrightarrow> 256 ^ (length bs - 1) \<le> of_be bs"
proof (cases bs)
  case (Cons b rest)
  moreover assume "bs ! 0 \<noteq> 0"
  ultimately have "1 \<le> unat b" by (simp add: Suc_le_eq unat_gt_0)
  then have "1 * 256 ^ length rest \<le> unat b * 256 ^ length rest" by (rule mult_right_mono) simp
  then have "256 ^ length rest \<le> of_be bs" unfolding Cons of_be_Cons by linarith
  then show ?thesis by (simp add: Cons)
qed simp

text \<open>The last steps of the parser, from the sign to the scalar.\<close>

lemma parse_value:
  assumes n: "0 < n" "n \<le> length sig" and bs: "bs = take n sig" and over: "over = (128 \<le> unat (bs ! 0))"
    and skip: "der_skip_zeros n sig = Some (m, sig')"
  shows "m \<le> length sig' \<and> drop m sig' = drop n sig \<and>
    (let over = (over \<or> m > 32);
         (r, over) = (if over then (secp256k1_scalar_set_int 0, True)
                      else secp256k1_scalar_set_b32 (replicate (32 - m) 0 @ take m sig'))
     in sval (if over then secp256k1_scalar_set_int 0 else r) = der_value bs \<and>
        scalar_ok (if over then secp256k1_scalar_set_int 0 else r))"
proof -
  obtain k where k: "k \<le> n" "m = n - k" "sig' = drop k sig" "take k sig = replicate k 0" "k < n \<Longrightarrow> sig ! k \<noteq> 0"
    using der_skip_zeros_spec [OF n(2)] skip by auto
  have bs': "bs = replicate k 0 @ take m sig'"
    using k n by (metis bs take_add le_add_diff_inverse)
  then have val: "of_be bs = of_be (take m sig')" by (simp add: of_be_replicate_0)
  have len: "m \<le> length sig'" using k n by simp
  have big: "secp256k1_n \<le> of_be bs" if "32 < m"
  proof -
    have lt: "k < n" "k < length sig" using that k n by simp_all
    have "(256 :: nat) ^ 32 \<le> 256 ^ (m - 1)" using that by (intro power_increasing) auto
    also have "\<dots> \<le> of_be (take m sig')"
      using of_be_ge [of "take m sig'"] k(5) [OF lt(1)] len lt k n by (simp add: min_absorb2)
    finally show ?thesis using n_bounds(1) by (simp add: val)
  qed
  have zero: "scalar_ok (secp256k1_scalar_set_int 0)" by (simp add: scalar_ok_def sval_set_int_0 secp256k1_n_def)
  have "of_be (replicate (32 - m) 0 @ take m sig') = of_be bs" by (simp add: of_be_replicate_0 val)
  moreover have "m \<le> 32 \<Longrightarrow> length (replicate (32 - m) 0 @ take m sig') = 32" using len by simp
  ultimately have set: "m \<le> 32 \<Longrightarrow> sval (fst (secp256k1_scalar_set_b32 (replicate (32 - m) 0 @ take m sig'))) = of_be bs mod secp256k1_n \<and>
     scalar_ok (fst (secp256k1_scalar_set_b32 (replicate (32 - m) 0 @ take m sig'))) \<and>
     snd (secp256k1_scalar_set_b32 (replicate (32 - m) 0 @ take m sig')) = (secp256k1_n \<le> of_be bs)"
    using set_b32_val by metis
  show ?thesis
    using set big zero len k n over
    by (cases "secp256k1_scalar_set_b32 (replicate (32 - m) 0 @ take m sig')")
      (auto simp: Let_def der_value_def sval_set_int_0 not_less not_le)
qed

definition der_unpadded :: "bytes \<Rightarrow> bool" where
  "der_unpadded bs = (\<not> (1 < length bs \<and> (bs ! 0 = 0 \<and> unat (bs ! 1) < 128 \<or> bs ! 0 = 0xFF \<and> 128 \<le> unat (bs ! 1))))"

lemma parse_integer_eval:
  assumes len: "secp256k1_der_read_len sig = Some (int n, rest)" and n: "0 < n" "n \<le> length rest"
  shows "\<exists>v. secp256k1_der_parse_integer (0x02 # sig) =
       Some (if der_unpadded (take n rest) then Some (v, drop n rest) else None) \<and>
     sval v = der_value (take n rest) \<and> scalar_ok v"
proof -
  obtain m sig' where skip: "der_skip_zeros n rest = Some (m, sig')" using der_skip_zeros_spec [OF n(2)] by blast
  note v = parse_value [OF n refl refl skip]
  have idx: "take n rest ! 0 = rest ! 0" "1 < n \<Longrightarrow> take n rest ! 1 = rest ! 1" using n by simp_all
  have pad: "der_padded 0 0 (int n) rest = Some (rest ! 0 = 0 \<and> 1 < n \<and> unat (rest ! 1) < 128)"
    "der_padded 0xFF 0x80 (int n) rest = Some (rest ! 0 = 0xFF \<and> 1 < n \<and> 128 \<le> unat (rest ! 1))"
    using n by (simp_all add: der_padded_total top_bit_iff)
  show ?thesis
  proof (cases "der_unpadded (take n rest)")
    case True
    then have "\<not> (rest ! 0 = 0 \<and> 1 < n \<and> unat (rest ! 1) < 128)" "\<not> (rest ! 0 = 0xFF \<and> 1 < n \<and> 128 \<le> unat (rest ! 1))"
      using n idx by (auto simp: der_unpadded_def)
    then have pad: "der_padded 0 0 (int n) rest = Some False" "der_padded 0xFF 0x80 (int n) rest = Some False"
      using pad by simp_all
    have rd0: "rd rest 0 = Some (rest ! 0)" using n by (cases rest) (simp_all add: rd_def)
    show ?thesis
      using v n True by (auto simp: secp256k1_der_parse_integer_def len pad rd0 skip Let_def top_bit_iff idx split: prod.splits)
  next
    case False
    have "\<exists>v. sval v = der_value (take n rest) \<and> scalar_ok v" using v by (auto simp: Let_def split: prod.splits)
    moreover have "secp256k1_der_parse_integer (0x02 # sig) = Some None"
      using False n idx by (auto simp: secp256k1_der_parse_integer_def len pad der_unpadded_def)
    ultimately show ?thesis using False by auto
  qed
qed

lemma parse_integer_total: "secp256k1_der_parse_integer sig \<noteq> None"
proof (cases sig)
  case (Cons c rest)
  obtain rlen rest' where len: "secp256k1_der_read_len rest = Some (rlen, rest')" using read_len_total [of rest] by auto
  show ?thesis
  proof (cases "c = 0x02 \<and> 0 < rlen \<and> rlen \<le> int (length rest')")
    case True
    then have "secp256k1_der_read_len rest = Some (int (nat rlen), rest')" "0 < nat rlen" "nat rlen \<le> length rest'"
      using len by auto
    from parse_integer_eval [OF this] show ?thesis using True by (auto simp: Cons)
  next
    case False
    then show ?thesis using len by (auto simp: secp256k1_der_parse_integer_def Cons)
  qed
qed (simp add: secp256k1_der_parse_integer_def)

text \<open>
  C9: the parser of DER signatures is total and stays within its input: whatever the bytes are, it ends,
  reads none beyond the last one, and says whether there is a signature.
\<close>

theorem ecdsa_sig_parse_in_bounds: "\<exists>res. secp256k1_ecdsa_sig_parse sig = Some res"
proof -
  note total = read_len_total [unfolded not_None_eq] parse_integer_total [unfolded not_None_eq]
  show ?thesis
    by (cases sig) (auto simp: secp256k1_ecdsa_sig_parse_def intro!: bind_total total split: option.splits)
qed

section \<open>Lengths\<close>

lemma read_len_short: "unat b < 128 \<Longrightarrow> secp256k1_der_read_len (b # rest) = Some (int (unat b), rest)"
proof -
  assume b: "unat b < 128"
  then have "b \<noteq> 0xFF" "b AND 0x80 = 0" by (auto simp: top_bit_iff)
  then show ?thesis by (simp add: secp256k1_der_read_len_def)
qed

lemma read_len_of_nat: "n < 128 \<Longrightarrow> secp256k1_der_read_len (word_of_nat n # rest) = Some (int n, rest)"
  using read_len_short [of "word_of_nat n" rest] by (simp add: unat_of_nat)

lemma unat_shift_in:
  assumes "unat (ret :: u64) < 2 ^ 31"
  shows "unat (push_bit 8 ret OR ucast (c :: u8)) = unat ret * 256 + unat c"
proof -
  have "unat (push_bit 8 ret OR ucast c) = unat (ucast c :: u64) + unat ret * 2 ^ 8"
    using assms unat_byte [of c] by (subst or.commute) (simp add: unat_byte_u64 word_nat)
  then show ?thesis by (simp add: unat_byte_u64)
qed

lemma der_len_loop_bound:
  assumes "der_len_loop n ret sig = Some (Some r, rest)" "n \<le> 8" "unat ret < 2 ^ 31" "length sig < 2 ^ 31"
  shows "unat r < 2 ^ 31"
  using assms
proof (induction n ret sig rule: der_len_loop.induct)
  case (2 lenleft ret sig)
  then obtain c sig' where sig: "sig = c # sig'" by (cases sig) auto
  let ?ret = "push_bit 8 ret OR ucast c"
  have val: "unat ?ret = unat ret * 256 + unat c" using "2.prems"(3) by (rule unat_shift_in)
  have step: "\<not> ?ret + word_of_nat (Suc lenleft) > word_of_nat (length sig)" "der_len_loop lenleft ?ret sig' = Some (Some r, rest)"
    using "2.prems"(1) by (auto simp: sig Let_def split: if_splits)
  have lenleft: "unat (word_of_nat (Suc lenleft) :: u64) = Suc lenleft" using "2.prems"(2) by (simp only: unat_of_nat) simp
  have size: "unat (word_of_nat (length sig) :: u64) = length sig" using "2.prems"(4) by (simp only: unat_of_nat) simp
  have "unat (?ret + word_of_nat (Suc lenleft)) = unat ?ret + Suc lenleft"
    using val lenleft unat_byte [of c] "2.prems"(2,3) by (subst unat_add_no_overflow) simp_all
  then have "unat ?ret + Suc lenleft \<le> length sig"
    using step(1) size by (simp only: not_less word_le_nat_alt)
  then have "unat ?ret < 2 ^ 31" using "2.prems"(4) by simp
  from "2.IH" [OF sig refl _ step(2) _ this] show ?case using step(1) "2.prems"(2,4) sig by simp
qed simp

text \<open>A length below 128 was read in its short form, unless the input is of two gigabytes or more.\<close>

lemma read_len_small:
  assumes "secp256k1_der_read_len sig = Some (rlen, rest)" "0 \<le> rlen" "rlen < 128" "length sig < 2 ^ 31"
  shows "sig = word_of_int rlen # rest"
proof (cases sig)
  case (Cons b1 s)
  show ?thesis
  proof (cases "b1 AND 0x80 = 0 \<or> b1 = 0xFF \<or> b1 = 0x80")
    case True
    then show ?thesis using assms by (auto simp: secp256k1_der_read_len_def Cons split: if_splits)
  next
    case False
    then obtain ret where loop: "der_len_loop (unat (b1 AND 0x7F)) 0 s = Some (Some ret, rest)" "unat (b1 AND 0x7F) \<le> 8"
      and ret: "128 \<le> ret" "rlen = sint (ucast ret :: 32 word)"
      using assms by (auto simp: secp256k1_der_read_len_def Cons Let_def not_less split: if_splits list.splits option.splits)
    have small: "unat ret < 2 ^ 31"
      by (rule der_len_loop_bound [OF loop]) (use assms(4) Cons in simp_all)
    have "unat (ucast ret :: 32 word) = unat ret" using small by (simp add: unsigned_ucast_eq take_bit_nat_eq_self)
    then have "sint (ucast ret :: 32 word) = int (unat ret)"
      using small by (simp add: sint_uint uint_nat signed_take_bit_int_eq_self del: of_nat_unat)
    then have "rlen = int (unat ret)" by (simp only: ret(2))
    moreover have "128 \<le> unat ret" using ret(1) by (simp add: word_le_nat_alt)
    ultimately show ?thesis using assms(3) by linarith
  qed
qed (use assms in \<open>simp add: secp256k1_der_read_len_def\<close>)

lemma der_len_loop_suffix: "der_len_loop n ret sig = Some (res, rest) \<Longrightarrow> \<exists>pre. sig = pre @ rest"
proof (induction n ret sig rule: der_len_loop.induct)
  case (2 lenleft ret sig)
  then show ?case by (cases sig) (auto simp: Let_def split: if_splits, metis append_Cons)
qed simp

lemma read_len_suffix: "secp256k1_der_read_len sig = Some (n, rest) \<Longrightarrow> \<exists>pre. sig = pre @ rest"
  by (auto simp: secp256k1_der_read_len_def Let_def dest!: der_len_loop_suffix intro: exI [of _ "_ # _"]
      split: list.splits if_splits option.splits)

section \<open>Round trip and uniqueness\<close>

lemma minimal_unpadded: "minimal bs = (bs \<noteq> [] \<and> der_unpadded bs \<and> unat (bs ! 0) < 128)"
  by (auto simp: minimal_def der_unpadded_def)

text \<open>One written integer, with what follows it.\<close>

definition der_field :: "scalar \<Rightarrow> bytes" where
  "der_field a = 0x02 # word_of_nat (length (der_integer a)) # der_integer a"

lemma parse_der_field:
  assumes "scalar_ok a"
  shows "secp256k1_der_parse_integer (der_field a @ rest) = Some (Some (a, rest))"
proof -
  let ?b = "der_integer a"
  have len: "secp256k1_der_read_len (word_of_nat (length ?b) # ?b @ rest) = Some (int (length ?b), ?b @ rest)"
    using der_integer_length [of a] by (intro read_len_of_nat) simp
  obtain v where v: "secp256k1_der_parse_integer (der_field a @ rest) = Some (Some (v, rest))"
      "sval v = der_value ?b"
    using parse_integer_eval [OF len] der_integer_length [of a] der_integer_minimal(1) [of a]
    by (auto simp: der_field_def minimal_unpadded)
  have "sval v = sval a"
    using v(2) assms der_integer_minimal [of a] by (simp add: der_value_def minimal_def scalar_ok_def)
  then show ?thesis using v(1) by (simp add: sval_inject)
qed

text \<open>What an accepted integer looks like, if its value is not zero.\<close>

lemma parse_integer_strict:
  assumes "secp256k1_der_parse_integer sig = Some (Some (r, rest))" "sval r \<noteq> 0" "length sig < 2 ^ 31"
  shows "sig = der_field r @ rest \<and> scalar_ok r"
proof -
  obtain sig' where sig: "sig = 0x02 # sig'"
    using assms(1) by (cases sig) (auto simp: secp256k1_der_parse_integer_def split: if_splits)
  obtain rlen rest' where len: "secp256k1_der_read_len sig' = Some (rlen, rest')" using read_len_total [of sig'] by auto
  have rlen: "0 < rlen" "rlen \<le> int (length rest')"
    using assms(1) len by (auto simp: secp256k1_der_parse_integer_def sig split: if_splits)
  define n where "n = nat rlen"
  have n: "secp256k1_der_read_len sig' = Some (int n, rest')" "0 < n" "n \<le> length rest'" using len rlen by (auto simp: n_def)
  let ?b = "take n rest'"
  have b: "der_unpadded ?b" "sval r = der_value ?b" "scalar_ok r" "rest = drop n rest'"
    using parse_integer_eval [OF n] assms(1) by (auto simp: sig split: if_splits)
  then have val: "unat (?b ! 0) < 128" "sval r = of_be ?b" using assms(2) by (auto simp: der_value_def split: if_splits)
  have min: "minimal ?b" using b(1) val(1) n by (auto simp: minimal_unpadded)
  then have eq: "?b = der_integer r"
    using der_integer_minimal [of r] val(2) by (auto intro: minimal_unique)
  then have "n = length (der_integer r)" using n by (metis length_take min.absorb2)
  then have "int n < 128" using der_integer_length [of r] by simp
  then have "sig' = word_of_int (int n) # rest'"
    using read_len_small [OF n(1)] assms(3) by (simp add: sig)
  then show ?thesis
    using eq b(3,4) \<open>n = length (der_integer r)\<close> by (simp add: sig der_field_def) (metis append_take_drop_id)
qed

lemma serialize_fields:
  assumes "72 \<le> sz"
  shows "secp256k1_ecdsa_sig_serialize sz r s =
    (let body = der_field r @ der_field s in (Some (0x30 # word_of_nat (length body) # body), 2 + length body))"
  using der_integer_length(1) [of r] der_integer_length(1) [of s] assms
  by (simp add: secp256k1_ecdsa_sig_serialize_def der_field_def Let_def add.commute add.left_commute flip: der_integer_def)

lemma field_lengths: "length (der_field r @ der_field s) \<le> 70"
  using der_integer_length(1) [of r] der_integer_length(1) [of s] by (simp add: der_field_def)

lemma sig_parse_parts:
  assumes "secp256k1_ecdsa_sig_parse sig = Some (Some (r, s))"
  obtains sig' body rest where "sig = 0x30 # sig'" "secp256k1_der_read_len sig' = Some (int (length body), body)"
    "secp256k1_der_parse_integer body = Some (Some (r, rest))" "secp256k1_der_parse_integer rest = Some (Some (s, []))"
proof -
  obtain sig' where sig: "sig = 0x30 # sig'"
    using assms by (cases sig) (auto simp: secp256k1_ecdsa_sig_parse_def split: if_splits)
  obtain body where len: "secp256k1_der_read_len sig' = Some (int (length body), body)"
    and parse: "secp256k1_der_parse_integer body \<bind> (\<lambda>res. case res of None \<Rightarrow> Some None | Some (rr, sig) \<Rightarrow>
      secp256k1_der_parse_integer sig \<bind> (\<lambda>res. case res of None \<Rightarrow> Some None
        | Some (rs, sig) \<Rightarrow> if sig \<noteq> [] then Some None else Some (Some (rr, rs)))) = Some (Some (r, s))"
    using assms by (auto simp: secp256k1_ecdsa_sig_parse_def sig bind_eq_Some_conv split: if_splits)
  then obtain rest where rest: "secp256k1_der_parse_integer body = Some (Some (r, rest))"
      "secp256k1_der_parse_integer rest = Some (Some (s, []))"
    by (auto simp: bind_eq_Some_conv split: option.splits if_splits)
  show ?thesis by (rule that [OF sig len rest])
qed

text \<open>
  C10: what the serializer writes for two scalars below the order, into a buffer of 72 bytes or more, the
  DER parser reads back as the same two scalars.
\<close>

theorem der_roundtrip:
  assumes "scalar_ok r" "scalar_ok s" "72 \<le> sz"
  shows "\<exists>sig. secp256k1_ecdsa_sig_serialize sz r s = (Some sig, length sig) \<and> length sig \<le> 72 \<and>
    secp256k1_ecdsa_sig_parse sig = Some (Some (r, s))"
proof -
  let ?body = "der_field r @ der_field s"
  have "secp256k1_der_read_len (word_of_nat (length ?body) # ?body) = Some (int (length ?body), ?body)"
    using field_lengths [of r s] by (intro read_len_of_nat) simp
  moreover have "secp256k1_der_parse_integer ?body = Some (Some (r, der_field s))"
    by (rule parse_der_field [OF assms(1)])
  moreover have "secp256k1_der_parse_integer (der_field s) = Some (Some (s, []))"
    using parse_der_field [OF assms(2), of "[]"] by simp
  ultimately show ?thesis
    using serialize_fields [OF assms(3), of r s] field_lengths [of r s]
    by (simp add: secp256k1_ecdsa_sig_parse_def Let_def del: length_append)
qed

theorem der_roundtrip_witness:
  "\<exists>sig. secp256k1_ecdsa_sig_serialize 72 \<lparr>d0 = 5, d1 = 0, d2 = 0, d3 = 255\<rparr> \<lparr>d0 = 0, d1 = 0, d2 = 0, d3 = 0\<rparr> = (Some sig, length sig) \<and>
     length sig \<le> 72 \<and>
     secp256k1_ecdsa_sig_parse sig = Some (Some (\<lparr>d0 = 5, d1 = 0, d2 = 0, d3 = 255\<rparr>, \<lparr>d0 = 0, d1 = 0, d2 = 0, d3 = 0\<rparr>))"
  by (rule der_roundtrip) (simp_all add: scalar_ok_def sval_def secp256k1_n_def)

text \<open>
  C8: DER is strict: an accepted input of less than two gigabytes whose two scalars are not zero is, byte for byte,
  what the serializer writes for them, so a signature has one encoding. A scalar that is negative or not below
  the order is accepted as zero, in any form.
\<close>

theorem der_parse_strict:
  assumes "secp256k1_ecdsa_sig_parse sig = Some (Some (r, s))" "sval r \<noteq> 0" "sval s \<noteq> 0" "length sig < 2 ^ 31"
  shows "secp256k1_ecdsa_sig_serialize 72 r s = (Some sig, length sig) \<and> scalar_ok r \<and> scalar_ok s"
proof -
  obtain sig' body rest where sig: "sig = 0x30 # sig'" and len: "secp256k1_der_read_len sig' = Some (int (length body), body)"
    and rest: "secp256k1_der_parse_integer body = Some (Some (r, rest))" "secp256k1_der_parse_integer rest = Some (Some (s, []))"
    using sig_parse_parts [OF assms(1)] .
  have "length body \<le> length sig'"
    using read_len_suffix [OF len] by (auto dest: arg_cong [of _ _ length])
  then have body: "length body < 2 ^ 31" using assms(4) sig by simp
  have r: "body = der_field r @ rest" "scalar_ok r" using parse_integer_strict [OF rest(1) assms(2) body] by simp_all
  have s: "rest = der_field s" "scalar_ok s" using parse_integer_strict [OF rest(2) assms(3)] r(1) body by simp_all
  have "sig' = word_of_int (int (length body)) # body"
    by (rule read_len_small [OF len]) (use field_lengths [of r s] r s assms(4) sig in simp_all)
  then show ?thesis
    using serialize_fields [of 72 r s] r s by (simp add: sig Let_def)
qed

theorem der_parse_strict_witness:
  "secp256k1_ecdsa_sig_serialize 72 \<lparr>d0 = 5, d1 = 0, d2 = 0, d3 = 0\<rparr> \<lparr>d0 = 200, d1 = 0, d2 = 0, d3 = 0\<rparr> =
     (Some [0x30, 0x07, 0x02, 0x01, 0x05, 0x02, 0x02, 0x00, 0xC8], 9)"
proof -
  have "secp256k1_ecdsa_sig_parse [0x30, 0x07, 0x02, 0x01, 0x05, 0x02, 0x02, 0x00, 0xC8] =
      Some (Some (\<lparr>d0 = 5, d1 = 0, d2 = 0, d3 = 0\<rparr>, \<lparr>d0 = 200, d1 = 0, d2 = 0, d3 = 0\<rparr>))"
    by code_simp
  from der_parse_strict [OF this] show ?thesis by (simp add: sval_def)
qed

end
