(* ===== verification/Ecmult_Correct.thy ===== *)
theory Ecmult_Correct
  imports Ecmult Scalar_4x64_Correct
begin

text \<open>
  The signed digit forms represent their scalar: reading bits of a scalar, the value and shape of
  \<open>secp256k1_ecmult_wnaf\<close>, and the value of \<open>secp256k1_wnaf_fixed\<close>.
\<close>

unbundle bit_operations_syntax

section \<open>Bits of a scalar\<close>

lemma limb_digit: "i < 4 \<Longrightarrow> unat ([d0 a, d1 a, d2 a, d3 a] ! i) = take_bit 64 (drop_bit (64 * i) (sval a))"
proof -
  assume i: "i < 4"
  have s: "sval a = unat (d0 a) + B64 * (unat (d1 a) + B64 * (unat (d2 a) + B64 * unat (d3 a)))"
    by (simp add: sval_nest algebra_simps)
  have step: "(x + B64 * y) div B64 = y" "(x + B64 * y) mod B64 = x" if "x < B64" for x y :: nat
    using that by simp_all
  note lt = unat64_lt [of "d0 a"] unat64_lt [of "d1 a"] unat64_lt [of "d2 a"] unat64_lt [of "d3 a"]
  have p: "sval a div 2 ^ (64 * Suc k) = sval a div 2 ^ (64 * k) div B64" for k
    by (simp add: div_mult2_eq power_add mult.commute)
  have 0: "sval a div 2 ^ (64 * 0) = unat (d0 a) + B64 * (unat (d1 a) + B64 * (unat (d2 a) + B64 * unat (d3 a)))" by (simp add: s)
  have 1: "sval a div 2 ^ (64 * Suc 0) = unat (d1 a) + B64 * (unat (d2 a) + B64 * unat (d3 a))" unfolding p 0 by (rule step) (rule lt)
  have 2: "sval a div 2 ^ (64 * Suc (Suc 0)) = unat (d2 a) + B64 * unat (d3 a)" unfolding p [of "Suc 0"] 1 by (rule step) (rule lt)
  have 3: "sval a div 2 ^ (64 * Suc (Suc (Suc 0))) = unat (d3 a)" unfolding p [of "Suc (Suc 0)"] 2 by (rule step) (rule lt)
  consider "i = 0" | "i = Suc 0" | "i = Suc (Suc 0)" | "i = Suc (Suc (Suc 0))" using i by linarith
  then show ?thesis
    by cases (simp_all only: take_bit_eq_mod drop_bit_eq_div 0 1 2 3 step(2) lt mod_less nth_Cons_0 nth_Cons_Suc)
qed

lemma limb_bit: "i < 4 \<Longrightarrow> bit ([d0 a, d1 a, d2 a, d3 a] ! i) k = (k < 64 \<and> bit (sval a) (64 * i + k))"
proof -
  assume i: "i < 4"
  have "bit ([d0 a, d1 a, d2 a, d3 a] ! i) k = bit (unat ([d0 a, d1 a, d2 a, d3 a] ! i)) k"
    by (simp add: bit_unsigned_iff)
  also have "\<dots> = (k < 64 \<and> bit (sval a) (64 * i + k))"
    unfolding limb_digit [OF i] by (simp add: bit_take_bit_iff bit_drop_bit_eq)
  finally show ?thesis .
qed

lemma bits_mask: "(push_bit count 1 :: u64) - 1 = mask count"
  by (simp add: mask_eq_exp_minus_1 push_bit_eq_mult)

lemma bits_value:
  assumes "count \<le> 32" "\<And>k. k < count \<Longrightarrow> bit (w :: u64) k = bit (s :: nat) (off + k)"
  shows "unat (ucast (w AND (push_bit count 1 - 1)) :: u32) = s div 2 ^ off mod 2 ^ count"
proof -
  have "bit (unat (ucast (w AND mask count) :: u32)) k = bit (take_bit count (drop_bit off s)) k" for k
    using assms by (auto simp: bit_unsigned_iff bit_and_iff bit_mask_iff bit_take_bit_iff bit_drop_bit_eq)
  then have "unat (ucast (w AND mask count) :: u32) = take_bit count (drop_bit off s)"
    by (rule bit_eqI)
  then show ?thesis unfolding bits_mask by (simp add: take_bit_eq_mod drop_bit_eq_div)
qed

lemma get_bits_var_val:
  assumes "off + count \<le> 256" "0 < count" "count \<le> 32"
  shows "\<exists>v. secp256k1_scalar_get_bits_var a off count = Some v \<and> unat v = sval a div 2 ^ off mod 2 ^ count"
proof -
  define i r where "i = off div 64" and "r = off mod 64"
  have off: "off = 64 * i + r" "r < 64" by (simp_all add: i_def r_def)
  have i: "i < 4" using assms(1,2) off by linarith
  show ?thesis
  proof (cases "(off + count - 1) div 64 = i")
    case True
    then have "r + count \<le> 64" using off assms(2) by linarith
    then have b: "bit (drop_bit r ([d0 a, d1 a, d2 a, d3 a] ! i)) k = bit (sval a) (off + k)" if "k < count" for k
      using that by (simp add: bit_drop_bit_eq limb_bit [OF i] off(1) add.assoc add.left_commute)
    show ?thesis
      using True i bits_value [OF assms(3) b]
      by (simp add: secp256k1_scalar_get_bits_var_def secp256k1_scalar_get_bits_def scalar_limb_def flip: i_def r_def)
  next
    case False
    have "(off + count - 1) div 64 \<le> 3" using assms(1) by linarith
    moreover have "i \<le> (off + count - 1) div 64" using assms(2) by (simp add: i_def div_le_mono)
    ultimately have i': "i + 1 < 4" using False by linarith
    have r: "0 < r" using False off assms(2,3) by (cases "r = 0") simp_all
    let ?w = "drop_bit r ([d0 a, d1 a, d2 a, d3 a] ! i) OR push_bit (64 - r) ([d0 a, d1 a, d2 a, d3 a] ! (i + 1))"
    have b: "bit ?w k = bit (sval a) (off + k)" if "k < count" for k
    proof (cases "k + r < 64")
      case True
      then have "\<not> 64 - r \<le> k" using off(2) by linarith
      then show ?thesis
        using that True assms(3) by (simp add: bit_or_iff bit_drop_bit_eq bit_push_bit_iff limb_bit [OF i] off(1) ac_simps)
    next
      case False
      then have e: "64 * (i + 1) + (k - (64 - r)) = off + k" unfolding off(1) using off(2) by simp
      have "64 - r \<le> k" "k - (64 - r) < 64" using False off(2) that assms(3) by linarith+
      then show ?thesis
        using that assms(3) off(2) e
        by (simp only: bit_or_iff bit_drop_bit_eq bit_push_bit_iff limb_bit [OF i] limb_bit [OF i'] comp_def)
          (auto simp: add.assoc [symmetric])
    qed
    show ?thesis
      using False i i' bits_value [OF assms(3) b]
      by (simp add: secp256k1_scalar_get_bits_var_def scalar_limb_def flip: i_def r_def)
  qed
qed

lemma get_bits_1:
  assumes "off < 256"
  shows "\<exists>v. secp256k1_scalar_get_bits a off 1 = Some v \<and> unat v = sval a div 2 ^ off mod 2"
proof -
  have "secp256k1_scalar_get_bits_var a off 1 = secp256k1_scalar_get_bits a off 1"
    by (simp add: secp256k1_scalar_get_bits_var_def)
  then show ?thesis using get_bits_var_val [of off 1 a] assms by simp
qed

section \<open>The sliding form\<close>

definition digit_sum :: "nat \<Rightarrow> int list \<Rightarrow> int" where
  "digit_sum n ws = (\<Sum>i<n. ws ! i * 2 ^ i)"

definition digit_ok :: "nat \<Rightarrow> int \<Rightarrow> bool" where
  "digit_ok w d = (odd d \<and> \<bar>d\<bar> < 2 ^ (w - 1))"

text \<open>The digits below \<open>bt\<close> are set, with the carry they stand for the bits of the scalar below \<open>bt\<close>.\<close>

definition wnaf_inv :: "nat \<Rightarrow> int \<Rightarrow> nat \<Rightarrow> nat \<Rightarrow> nat \<Rightarrow> nat \<Rightarrow> int \<Rightarrow> int list \<Rightarrow> bool" where
  "wnaf_inv S sign w len lst bt carry ws =
     (bt \<le> len \<and> length ws = len \<and> lst \<le> bt \<and> carry \<in> {0, 1} \<and> (\<forall>i<len. lst \<le> i \<longrightarrow> ws ! i = 0) \<and>
      sign * digit_sum bt ws + carry * 2 ^ bt = int (S mod 2 ^ bt) \<and> - (2 ^ bt) \<le> 2 * (sign * digit_sum bt ws) \<and>
      (\<forall>i<len. ws ! i \<noteq> 0 \<longrightarrow> digit_ok w (ws ! i) \<and> (i + w \<le> bt \<or> bt = len)) \<and>
      (\<forall>i j. i < j \<and> j < len \<and> ws ! i \<noteq> 0 \<and> ws ! j \<noteq> 0 \<longrightarrow> i + w \<le> j))"

lemma digit_sum_Suc: "digit_sum (Suc n) ws = digit_sum n ws + ws ! n * 2 ^ n"
  by (simp add: digit_sum_def)

lemma digit_sum_above: "n \<le> m \<Longrightarrow> (\<And>i. n \<le> i \<Longrightarrow> i < m \<Longrightarrow> ws ! i = 0) \<Longrightarrow> digit_sum m ws = digit_sum n ws"
  by (induction m rule: dec_induct) (simp_all add: digit_sum_Suc)

lemma digit_sum_update: "n \<le> k \<Longrightarrow> digit_sum n (ws[k := d]) = digit_sum n ws"
  unfolding digit_sum_def by (intro sum.cong) auto

lemma low_bits: "(S :: nat) mod 2 ^ (bt + k) = S mod 2 ^ bt + S div 2 ^ bt mod 2 ^ k * 2 ^ bt"
  by (simp add: power_add mod_mult2_eq mult.commute)

lemma wnaf_skip:
  assumes inv: "wnaf_inv S sign w len lst bt carry ws" and bt: "bt < len" and b: "int (S div 2 ^ bt mod 2) = carry"
  shows "wnaf_inv S sign w len lst (bt + 1) carry ws"
proof -
  have z: "ws ! bt = 0" using inv bt by (auto simp: wnaf_inv_def)
  have "int (S mod 2 ^ (bt + 1)) = int (S mod 2 ^ bt) + carry * 2 ^ bt" using low_bits [of S bt 1] b by simp
  then have "sign * digit_sum (bt + 1) ws + carry * 2 ^ (bt + 1) = int (S mod 2 ^ (bt + 1))"
    using inv z by (simp add: wnaf_inv_def digit_sum_Suc)
  moreover have "- (2 ^ (bt + 1)) \<le> 2 * (sign * digit_sum (bt + 1) ws)"
  proof -
    have "- (2 ^ bt) \<le> 2 * (sign * digit_sum (bt + 1) ws)" using inv z by (simp add: wnaf_inv_def digit_sum_Suc)
    moreover have "(0 :: int) \<le> 2 ^ bt" by simp
    ultimately show ?thesis unfolding power_add power_one_right by linarith
  qed
  ultimately show ?thesis using inv bt unfolding wnaf_inv_def by auto
qed

text \<open>A digit: \<open>v\<close> are the bits read, \<open>n\<close> of them.\<close>

lemma digit_word:
  fixes v carry :: int
  assumes w: "2 \<le> w" and n: "n \<le> w" and v: "0 \<le> v" "v < 2 ^ n" and c: "carry \<in> {0, 1}" "v mod 2 \<noteq> carry"
  defines "word \<equiv> v + carry"
  defines "carry' \<equiv> drop_bit (w - 1) word AND 1"
  defines "d \<equiv> word - push_bit w carry'"
  shows "carry' \<in> {0, 1}" "digit_ok w d" "d = v + carry - carry' * 2 ^ w" "n < w \<Longrightarrow> carry' = 0"
    "carry' = 0 \<Longrightarrow> 0 < d" "- (2 ^ (w - 1)) < d"
proof -
  have odd: "odd word" using c by (auto simp: word_def)
  obtain u where u: "w = Suc (Suc u)" using w by (metis Suc_le_D numeral_2_eq_2 add_2_eq_Suc le_Suc_ex)
  have pn: "(2 :: int) ^ n \<le> 2 ^ w" using n by (simp add: power_increasing)
  have le: "1 \<le> word" "word < 2 ^ w"
  proof -
    have "0 \<le> word" using v(1) c(1) by (auto simp: word_def)
    moreover have "word \<noteq> 0" using odd by auto
    ultimately show "1 \<le> word" by linarith
    have "word \<le> v + 1" using c(1) by (auto simp: word_def)
    then have "word \<le> 2 ^ w" using v(2) pn by linarith
    moreover have "word \<noteq> 2 ^ w" using odd by (auto simp: u)
    ultimately show "word < 2 ^ w" by simp
  qed
  have half: "(2 :: int) ^ w = 2 * 2 ^ (w - 1)" by (simp add: u)
  have c': "carry' = (if 2 ^ (w - 1) \<le> word then 1 else 0)"
  proof (cases "2 ^ (w - 1) \<le> word")
    case True
    then have "word div 2 ^ (w - 1) = 1" using le(2) half by (intro int_div_pos_eq [where r = "word - 2 ^ (w - 1)"]) simp_all
    then show ?thesis using True by (simp add: carry'_def drop_bit_eq_div and_one_eq)
  next
    case False
    then show ?thesis using le(1) by (simp add: carry'_def drop_bit_eq_div and_one_eq)
  qed
  show "carry' \<in> {0, 1}" unfolding c' by simp
  have d: "d = word - carry' * 2 ^ w" by (simp add: d_def push_bit_eq_mult)
  then show "d = v + carry - carry' * 2 ^ w" by (simp add: word_def)
  have oddd: "odd d" unfolding d using odd by (simp add: u)
  have ne: "word \<noteq> 2 ^ (w - 1)" using odd by (auto simp: u)
  have lo: "- (2 ^ (w - 1)) < d" using c' ne le half by (auto simp: d)
  then show "- (2 ^ (w - 1)) < d" .
  have "d < 2 ^ (w - 1)" using c' le(2) half by (auto simp: d)
  then show "digit_ok w d" using oddd lo by (simp add: digit_ok_def)
  show "0 < d" if "carry' = 0" using that le(1) by (simp add: d)
  show "carry' = 0" if "n < w"
  proof -
    have "(2 :: int) ^ n \<le> 2 ^ (w - 1)" using that by (simp add: power_increasing)
    moreover have "word \<le> v + 1" using c(1) by (auto simp: word_def)
    ultimately have "word \<le> 2 ^ (w - 1)" using v(2) by linarith
    then show ?thesis using c' ne by auto
  qed
qed

lemma wnaf_digit:
  assumes inv: "wnaf_inv S sign w len lst bt carry ws" and bt: "bt < len" and w: "2 \<le> w" and sign: "sign \<in> {1, - 1}"
    and b: "int (S div 2 ^ bt mod 2) \<noteq> carry"
  defines "n \<equiv> min w (len - bt)" and "word \<equiv> int (S div 2 ^ bt mod 2 ^ min w (len - bt)) + carry"
  defines "carry' \<equiv> drop_bit (w - 1) word AND 1"
  shows "wnaf_inv S sign w len (bt + 1) (bt + n) carry' (ws[bt := sign * (word - push_bit w carry')])"
proof -
  let ?v = "int (S div 2 ^ bt mod 2 ^ n)"
  define d where "d = word - push_bit w carry'"
  let ?ws = "ws[bt := sign * d]"
  have n: "0 < n" "n \<le> w" "bt + n \<le> len" using bt w by (simp_all add: n_def)
  have c: "carry \<in> {0, 1}" using inv by (simp add: wnaf_inv_def)
  have "?v < 2 ^ n" by (simp flip: of_nat_power)
  moreover have "?v mod 2 = int (S div 2 ^ bt mod 2)"
  proof -
    have "S div 2 ^ bt mod 2 ^ n mod 2 = S div 2 ^ bt mod 2" using n(1) by (intro mod_mod_cancel) simp
    then show ?thesis by (metis of_nat_mod of_nat_numeral)
  qed
  moreover have word: "?v + carry = word" by (simp add: word_def n_def)
  ultimately have dw: "carry' \<in> {0, 1}" "digit_ok w d" "d = word - carry' * 2 ^ w" "n < w \<Longrightarrow> carry' = 0"
    "carry' = 0 \<Longrightarrow> 0 < d" "- (2 ^ (w - 1)) < d"
    using digit_word [OF w n(2) of_nat_0_le_iff, of "S div 2 ^ bt mod 2 ^ n" carry, OF _ c, unfolded word, folded carry'_def, folded d_def] b
    by metis+
  have len: "length ws = len" using inv by (simp add: wnaf_inv_def)
  have above: "ws ! i = 0" if "bt \<le> i" "i < len" for i using inv that by (simp add: wnaf_inv_def)
  have "digit_sum (bt + n) ?ws = digit_sum (Suc bt) ?ws"
    using n above len by (intro digit_sum_above) auto
  then have sum: "digit_sum (bt + n) ?ws = digit_sum bt ws + sign * d * 2 ^ bt"
    using bt len by (simp add: digit_sum_Suc digit_sum_update)
  have ss: "sign * (sign * x) = x" for x :: int using sign by auto
  have sum': "sign * digit_sum (bt + n) ?ws = sign * digit_sum bt ws + d * 2 ^ bt"
    unfolding sum by (simp add: algebra_simps ss)
  have scale: "carry' * 2 ^ (bt + n) = carry' * 2 ^ w * 2 ^ bt"
    using dw(4) n(2) by (cases "n = w") (simp_all add: power_add mult.commute mult.left_commute)
  have val: "sign * digit_sum (bt + n) ?ws + carry' * 2 ^ (bt + n) = int (S mod 2 ^ (bt + n))"
  proof -
    have "sign * digit_sum (bt + n) ?ws + carry' * 2 ^ (bt + n) = sign * digit_sum bt ws + (?v + carry) * 2 ^ bt"
      unfolding sum' scale unfolding dw(3) word by (simp add: algebra_simps)
    also have "\<dots> = int (S mod 2 ^ bt) + ?v * 2 ^ bt" using inv by (simp add: wnaf_inv_def algebra_simps)
    also have "\<dots> = int (S mod 2 ^ (bt + n))" unfolding low_bits by simp
    finally show ?thesis .
  qed
  have low: "- (2 ^ bt) \<le> 2 * (sign * digit_sum bt ws)" using inv by (simp add: wnaf_inv_def)
  have "- (2 ^ (bt + n)) \<le> 2 * (sign * digit_sum (bt + n) ?ws)"
  proof (cases "carry' = 0")
    case True
    then have "2 ^ bt \<le> d * 2 ^ bt" using dw(5) by simp
    moreover have "(0 :: int) \<le> 2 ^ (bt + n)" "(0 :: int) \<le> 2 ^ bt" by simp_all
    ultimately show ?thesis unfolding sum' distrib_left using low by linarith
  next
    case False
    then have "n = w" using dw(4) n(2) by linarith
    have "(1 - 2 ^ (w - 1)) * 2 ^ bt \<le> d * 2 ^ bt" using dw(6) by (intro mult_right_mono) simp_all
    moreover have "(2 :: int) ^ (bt + n) = 2 * (2 ^ (w - 1) * 2 ^ bt)"
      using w by (simp add: \<open>n = w\<close> power_add power_eq_if [of _ w] mult.commute)
    moreover have "(0 :: int) \<le> 2 ^ bt" by simp
    ultimately show ?thesis unfolding sum' distrib_left left_diff_distrib mult_1_left using low by linarith
  qed
  moreover have "\<forall>i<len. ?ws ! i \<noteq> 0 \<longrightarrow> digit_ok w (?ws ! i) \<and> (i + w \<le> bt + n \<or> bt + n = len)"
  proof (intro allI impI)
    fix i assume i: "i < len" "?ws ! i \<noteq> 0"
    show "digit_ok w (?ws ! i) \<and> (i + w \<le> bt + n \<or> bt + n = len)"
    proof (cases "i = bt")
      case True
      have "digit_ok w (sign * d)" using dw(2) sign by (auto simp: digit_ok_def)
      then show ?thesis using True bt len by (auto simp: n_def)
    next
      case False
      then show ?thesis using inv i bt by (auto simp: wnaf_inv_def)
    qed
  qed
  moreover have "\<forall>i j. i < j \<and> j < len \<and> ?ws ! i \<noteq> 0 \<and> ?ws ! j \<noteq> 0 \<longrightarrow> i + w \<le> j"
  proof (intro allI impI)
    fix i j assume ij: "i < j \<and> j < len \<and> ?ws ! i \<noteq> 0 \<and> ?ws ! j \<noteq> 0"
    then have "j \<le> bt" using above by (metis le_neq_implies_less nat_le_linear nth_list_update_neq)
    then show "i + w \<le> j" using inv ij bt len by (cases "j = bt") (auto simp: wnaf_inv_def)
  qed
  ultimately show ?thesis
    using val n above len dw(1) bt unfolding wnaf_inv_def d_def [symmetric] by auto
qed

lemma wnaf_loop_val:
  assumes "wnaf_inv (sval s) sign w len lst bt carry ws" "2 \<le> w" "w \<le> 31" "sign \<in> {1, - 1}" "len \<le> 256"
  shows "\<exists>ws' lst' c'. wnaf_loop s sign w len lst bt carry ws = Some (ws', lst') \<and> wnaf_inv (sval s) sign w len lst' len c' ws'"
  using assms
proof (induction s sign w len lst bt carry ws rule: wnaf_loop.induct)
  case (1 s sign w len lst bt carry ws)
  show ?case
  proof (cases "bt < len")
    case False
    then have "bt = len" using "1.prems"(1) by (simp add: wnaf_inv_def)
    moreover have "wnaf_loop s sign w len lst bt carry ws = Some (ws, lst)" using False by (subst wnaf_loop.simps) simp
    ultimately show ?thesis using "1.prems"(1) by auto
  next
    case True
    have "bt < 256" using True "1.prems"(5) by simp
    then obtain b where b: "secp256k1_scalar_get_bits s bt 1 = Some b" "unat b = sval s div 2 ^ bt mod 2"
      using get_bits_1 [of bt s] by blast
    have ub: "uint b = int (sval s div 2 ^ bt mod 2)" using b(2) by (simp only: uint_nat)
    show ?thesis
    proof (cases "uint b = carry")
      case same: True
      have "wnaf_inv (sval s) sign w len lst (bt + 1) carry ws"
        by (rule wnaf_skip [OF "1.prems"(1) True]) (use ub same in simp)
      from "1.IH"(1) [OF _ b(1) same this "1.prems"(2-5)] show ?thesis
        using True "1.prems"(2) b(1) same by (subst wnaf_loop.simps) simp
    next
      case False
      let ?n = "if w > len - bt then len - bt else w"
      have n: "?n = min w (len - bt)" by auto
      have "bt + ?n \<le> 256" "0 < ?n" "?n \<le> 32" using True "1.prems"(2,3,5) by auto
      then obtain v where v: "secp256k1_scalar_get_bits_var s bt ?n = Some v" "unat v = sval s div 2 ^ bt mod 2 ^ ?n"
        using get_bits_var_val [of bt ?n s] by blast
      have uv: "uint v = int (sval s div 2 ^ bt mod 2 ^ min w (len - bt))" using v(2) unfolding n by (simp only: uint_nat)
      define word where "word = uint v + carry"
      define c' where "c' = drop_bit (w - 1) word AND 1"
      have inv: "wnaf_inv (sval s) sign w len (bt + 1) (bt + ?n) c' (ws[bt := sign * (word - push_bit w c')])"
        unfolding n c'_def word_def uv
        by (rule wnaf_digit [OF "1.prems"(1) True "1.prems"(2,4)]) (use ub False in simp)
      have run: "wnaf_loop s sign w len lst bt carry ws = wnaf_loop s sign w len (bt + 1) (bt + ?n) c' (ws[bt := sign * (word - push_bit w c')])"
        using True "1.prems"(2) b(1) False v(1) by (subst wnaf_loop.simps) (simp add: Let_def c'_def word_def)
      from "1.IH"(2) [OF _ b(1) False refl v(1) word_def c'_def refl inv "1.prems"(2-5)] show ?thesis
        unfolding run using True "1.prems"(2) by simp
    qed
  qed
qed

lemma wnaf_complete:
  assumes "wnaf_inv S sign w 256 lst 256 c ws" "S < 2 ^ 255"
  shows "sign * digit_sum 256 ws = int S"
proof -
  have inv: "sign * digit_sum 256 ws + c * 2 ^ 256 = int S" "- (2 ^ 256) \<le> 2 * (sign * digit_sum 256 ws)" "c = 0 \<or> c = 1"
    using assms by (auto simp: wnaf_inv_def)
  have "int S < 2 ^ 255" using assms(2) by simp
  then have "c \<noteq> 1" using inv(1,2) by auto
  then show ?thesis using inv by simp
qed

lemma ecmult_wnaf_val:
  assumes "scalar_ok a" "2 \<le> w" "w \<le> 31"
  shows "\<exists>ws bits. secp256k1_ecmult_wnaf 256 a w = Some (ws, bits) \<and> length ws = 256 \<and> bits \<le> 256 \<and>
    digit_sum 256 ws = (if sval a < 2 ^ 255 then int (sval a) else int (sval a) - int secp256k1_n) \<and>
    (\<forall>i<256. ws ! i \<noteq> 0 \<longrightarrow> digit_ok w (ws ! i) \<and> i < bits) \<and>
    (\<forall>i j. i < j \<and> j < 256 \<and> ws ! i \<noteq> 0 \<and> ws ! j \<noteq> 0 \<longrightarrow> i + w \<le> j)"
proof -
  obtain top where top: "secp256k1_scalar_get_bits a 255 1 = Some top" "unat top = sval a div 2 ^ 255 mod 2"
    using get_bits_1 [of 255 a] by auto
  have high: "(top \<noteq> 0) = (2 ^ 255 \<le> sval a)"
  proof -
    have "sval a div 2 ^ 255 < 2" using sval_lt [of a] by (simp add: less_mult_imp_div_less)
    then have "(top \<noteq> 0) = (0 < sval a div 2 ^ 255)" using top(2) by (simp flip: unat_gt_0)
    then show ?thesis by (simp add: div_greater_zero_iff)
  qed
  define s sign where "s = (if top \<noteq> 0 then secp256k1_scalar_negate a else a)" and "sign = (if top \<noteq> 0 then - 1 else 1 :: int)"
  have lt: "sval a < secp256k1_n" using assms(1) by (simp add: scalar_ok_def)
  have neg: "sval (secp256k1_scalar_negate a) = secp256k1_n - sval a" if "2 ^ 255 \<le> sval a"
    using scalar_negate_correct [OF assms(1)] lt that by auto
  have s: "sval s < 2 ^ 255" "sign * int (sval s) = (if sval a < 2 ^ 255 then int (sval a) else int (sval a) - int secp256k1_n)"
    using high neg lt n_bounds by (auto simp: s_def sign_def)
  have init: "wnaf_inv (sval s) sign w 256 0 0 0 (replicate 256 0)"
    by (auto simp: wnaf_inv_def digit_sum_def)
  obtain ws bits c where run: "wnaf_loop s sign w 256 0 0 0 (replicate 256 0) = Some (ws, bits)" and inv: "wnaf_inv (sval s) sign w 256 bits 256 c ws"
  proof -
    have "sign \<in> {1, - 1}" by (simp add: sign_def)
    then show ?thesis using that wnaf_loop_val [OF init assms(2,3)] by blast
  qed
  have "sign * digit_sum 256 ws = int (sval s)" by (rule wnaf_complete [OF inv s(1)])
  then have "digit_sum 256 ws = sign * int (sval s)" by (auto simp: sign_def split: if_splits)
  moreover have "secp256k1_ecmult_wnaf 256 a w = Some (ws, bits)"
    using run top(1) by (cases "top \<noteq> 0") (simp_all add: secp256k1_ecmult_wnaf_def s_def sign_def)
  ultimately show ?thesis using inv s(2) unfolding wnaf_inv_def by (metis linorder_not_le)
qed

text \<open>
  C11: the sliding signed-digit form: for every reduced scalar and every window the function always
  returns, its 256 digits sum up to the scalar, or to the scalar minus the group order where
  that is shorter; each digit is 0 or odd and below half the window, two digits that are not 0
  are a window apart, and all digits from the returned number on are 0.
\<close>

theorem ecmult_wnaf_correct:
  assumes "scalar_ok a" "2 \<le> w" "w \<le> 31"
  shows "\<exists>ws bits. secp256k1_ecmult_wnaf 256 a w = Some (ws, bits) \<and> length ws = 256 \<and> bits \<le> 256 \<and>
    digit_sum 256 ws = (if sval a < 2 ^ 255 then int (sval a) else int (sval a) - int secp256k1_n) \<and>
    (\<forall>i<256. ws ! i \<noteq> 0 \<longrightarrow> digit_ok w (ws ! i) \<and> i < bits) \<and>
    (\<forall>i j. i < j \<and> j < 256 \<and> ws ! i \<noteq> 0 \<and> ws ! j \<noteq> 0 \<longrightarrow> i + w \<le> j)"
  using assms by (rule ecmult_wnaf_val)

theorem ecmult_wnaf_correct_witness:
  "\<exists>ws bits. secp256k1_ecmult_wnaf 256 (secp256k1_scalar_set_int 27) WINDOW_A = Some (ws, bits) \<and> digit_sum 256 ws = 27"
  using ecmult_wnaf_correct [of "secp256k1_scalar_set_int 27" WINDOW_A]
  by (auto simp: WINDOW_A_def scalar_ok_def sval_def secp256k1_scalar_set_int_def secp256k1_n_def)

section \<open>The fixed form\<close>

lemma scalar_is_even_iff: "secp256k1_scalar_is_even s = even (sval s)"
proof -
  have "(d0 s AND 1 = 0) = even (unat (d0 s))"
    using bit_unsigned_iff [where ?'a = nat, of "d0 s" 0] by (simp add: and_one_eq mod_2_eq_odd bit_0)
  then show ?thesis by (simp add: secp256k1_scalar_is_even_def sval_def)
qed

definition fixed_sum :: "nat \<Rightarrow> nat \<Rightarrow> int list \<Rightarrow> int" where
  "fixed_sum w n ws = (\<Sum>i<n. ws ! i * 2 ^ (w * i))"

lemma fixed_sum_Suc: "fixed_sum w (Suc n) ws = fixed_sum w n ws + ws ! n * 2 ^ (w * n)"
  by (simp add: fixed_sum_def)

lemma fixed_sum_update:
  "k < length ws \<Longrightarrow> fixed_sum w n (ws[k := d]) = fixed_sum w n ws + (if k < n then (d - ws ! k) * 2 ^ (w * k) else 0)"
  by (induction n) (auto simp: fixed_sum_Suc fixed_sum_def less_Suc_eq algebra_simps nth_list_update)

lemma fixed_sum_above: "n \<le> m \<Longrightarrow> (\<And>i. n \<le> i \<Longrightarrow> i < m \<Longrightarrow> ws ! i = 0) \<Longrightarrow> fixed_sum w m ws = fixed_sum w n ws"
  by (induction m rule: dec_induct) (simp_all add: fixed_sum_Suc)

definition fixed_ok :: "nat \<Rightarrow> int \<Rightarrow> bool" where
  "fixed_ok w d = (d = 0 \<or> odd d \<and> \<bar>d\<bar> < 2 ^ w)"

text \<open>The digits below \<open>pos\<close> are set; the last of them is odd and positive.\<close>

definition fixed_inv :: "nat \<Rightarrow> int \<Rightarrow> nat \<Rightarrow> nat \<Rightarrow> int list \<Rightarrow> bool" where
  "fixed_inv S skew w pos ws =
     (0 < pos \<and> pos \<le> length ws \<and> fixed_sum w pos ws = int (S mod 2 ^ (w * pos)) + skew \<and>
      (\<forall>i<pos. fixed_ok w (ws ! i)) \<and> odd (ws ! (pos - 1)) \<and> 0 < ws ! (pos - 1))"

lemma fixed_inv_1:
  "fixed_inv S skew w 1 ws =
     (1 \<le> length ws \<and> ws ! 0 = int (S mod 2 ^ w) + skew \<and> fixed_ok w (ws ! 0) \<and> odd (ws ! 0) \<and> 0 < ws ! 0)"
  by (auto simp: fixed_inv_def fixed_sum_def)

lemma fixed_even_inv:
  assumes inv: "fixed_inv S skew w pos ws" and pos: "pos < length ws" and w: "0 < w"
  defines "val \<equiv> int (S div 2 ^ (w * pos) mod 2 ^ w)"
  shows "fixed_inv S skew w (pos + 1) (fixed_even w pos val ws)" "odd (fixed_even w pos val ws ! (pos - 1))"
    "length (fixed_even w pos val ws) = length ws" "pos < i \<Longrightarrow> fixed_even w pos val ws ! i = ws ! i"
proof -
  have v: "0 \<le> val" "val < 2 ^ w" by (simp_all add: val_def flip: of_nat_power)
  obtain q where q: "pos = Suc q" using inv by (auto simp: fixed_inv_def gr0_conv_Suc)
  have i: "fixed_sum w pos ws = int (S mod 2 ^ (w * pos)) + skew" "\<forall>i<pos. fixed_ok w (ws ! i)" "odd (ws ! q)" "0 < ws ! q"
    using inv by (simp_all add: fixed_inv_def q)
  have top: "ws ! q < 2 ^ w" using i(2-4) by (auto simp: fixed_ok_def q)
  have S: "int (S mod 2 ^ (w * (pos + 1))) = int (S mod 2 ^ (w * pos)) + val * 2 ^ (w * pos)"
    unfolding val_def distrib_left mult_1_right low_bits by simp
  have ev: "even (2 ^ w :: int)" using w by simp
  show "length (fixed_even w pos val ws) = length ws" "pos < i \<Longrightarrow> fixed_even w pos val ws ! i = ws ! i"
    by (simp_all add: fixed_even_def)
  have parity: "(val AND 1 = 0) = even val" by (simp add: and_one_eq mod_2_eq_odd)
  show "odd (fixed_even w pos val ws ! (pos - 1))" using i(3) pos ev by (simp add: fixed_even_def q push_bit_eq_mult)
  show "fixed_inv S skew w (pos + 1) (fixed_even w pos val ws)"
  proof (cases "even val")
    case True
    then have "val \<noteq> 2 ^ w - 1" using ev by auto
    then have v': "val + 1 < 2 ^ w" using v(2) by linarith
    have p: "(2 :: int) ^ (w * pos) = 2 ^ w * 2 ^ (w * q)" by (simp add: q power_add)
    have "fixed_sum w (pos + 1) (ws[q := ws ! q - 2 ^ w, pos := val + 1]) = int (S mod 2 ^ (w * (pos + 1))) + skew"
      using pos i(1) unfolding S by (simp add: fixed_sum_Suc fixed_sum_update q) (simp add: power_add algebra_simps)
    then show ?thesis
      using True v v' i(2-4) top pos parity w
      by (auto simp: fixed_inv_def fixed_even_def q fixed_ok_def less_Suc_eq nth_list_update push_bit_eq_mult)
  next
    case False
    have "fixed_sum w (pos + 1) (ws[pos := val]) = int (S mod 2 ^ (w * (pos + 1))) + skew"
      using pos i(1) unfolding S by (simp add: fixed_sum_Suc fixed_sum_update)
    moreover have "0 < val" using False v(1) by (cases "val = 0") simp_all
    ultimately show ?thesis
      using False v i(2) pos parity
      by (auto simp: fixed_inv_def fixed_even_def fixed_ok_def less_Suc_eq)
  qed
qed

lemma fixed_absorb_inv:
  assumes inv: "fixed_inv S skew w (pos + 1) ws" and odd: "odd (ws ! (pos - 1))" and w: "0 < w"
  shows "fixed_inv S skew w (pos + 1) (fixed_absorb w pos ws)" "length (fixed_absorb w pos ws) = length ws"
    "pos < i \<Longrightarrow> fixed_absorb w pos ws ! i = ws ! i"
proof -
  show "length (fixed_absorb w pos ws) = length ws" "pos < i \<Longrightarrow> fixed_absorb w pos ws ! i = ws ! i"
    by (auto simp: fixed_absorb_def)
  show "fixed_inv S skew w (pos + 1) (fixed_absorb w pos ws)"
  proof (cases "pos \<ge> 2 \<and> ((ws ! (pos - 1) = 1 \<and> ws ! (pos - 2) < 0) \<or> (ws ! (pos - 1) = - 1 \<and> ws ! (pos - 2) > 0))")
    case False
    then show ?thesis using inv by (simp only: fixed_absorb_def if_False)
  next
    case True
    then obtain q where q: "pos = Suc (Suc q)" by (metis add_2_eq_Suc le_Suc_ex)
    have i: "fixed_sum w (pos + 1) ws = int (S mod 2 ^ (w * (pos + 1))) + skew" "\<forall>i<pos + 1. fixed_ok w (ws ! i)"
      "Suc (Suc q) < length ws" "odd (ws ! pos)" "0 < ws ! pos"
      using inv by (simp_all add: fixed_inv_def q)
    define c where "c = ws ! Suc q"
    have c: "c = 1 \<and> ws ! q < 0 \<or> c = - 1 \<and> ws ! q > 0" using True by (simp add: q c_def)
    have res: "fixed_absorb w pos ws = ws[q := ws ! q + c * 2 ^ w, Suc q := 0]"
      using True c by (auto simp: fixed_absorb_def q c_def push_bit_eq_mult)
    have "fixed_sum w (pos + 1) (ws[q := ws ! q + c * 2 ^ w, Suc q := 0]) =
        fixed_sum w (pos + 1) ws + (c * 2 ^ w * 2 ^ (w * q) - c * 2 ^ (w * Suc q))"
      using i(3) by (simp add: fixed_sum_update q c_def)
    also have "\<dots> = fixed_sum w (pos + 1) ws" by (simp add: power_add)
    finally have sum: "fixed_sum w (pos + 1) (fixed_absorb w pos ws) = int (S mod 2 ^ (w * (pos + 1))) + skew"
      using i(1) by (simp add: res)
    have "fixed_ok w (ws ! q)" using i(2) by (simp add: q)
    then have "fixed_ok w (ws ! q + c * 2 ^ w)" using c w by (auto simp: fixed_ok_def)
    moreover have "fixed_ok w 0" by (simp add: fixed_ok_def)
    ultimately have "\<forall>i<pos + 1. fixed_ok w (fixed_absorb w pos ws ! i)"
      using i(2,3) unfolding res by (auto simp: q nth_list_update)
    then show ?thesis using sum i(3-5) unfolding fixed_inv_def res by (simp add: q)
  qed
qed

lemma wnaf_size:
  assumes "0 < w"
  shows "(WNAF_SIZE w - 1) * w < 256" "256 \<le> WNAF_SIZE w * w"
proof -
  have "WNAF_SIZE w * w + (256 + w - 1) mod w = 256 + w - 1" unfolding WNAF_SIZE_def by (rule div_mult_mod_eq)
  moreover have "(256 + w - 1) mod w < w" using assms by simp
  ultimately show "256 \<le> WNAF_SIZE w * w" "(WNAF_SIZE w - 1) * w < 256"
    using assms unfolding diff_mult_distrib mult_1 by linarith+
qed

lemma fixed_digit_val:
  assumes "pos < WNAF_SIZE w" "0 < w" "w \<le> 31"
  shows "fixed_digit s w pos = Some (int (sval s div 2 ^ (w * pos) mod 2 ^ w))"
proof -
  let ?n = "if pos = WNAF_SIZE w - 1 then 256 - (WNAF_SIZE w - 1) * w else w"
  note sz = wnaf_size [OF assms(2)]
  have n: "0 < ?n" "?n \<le> w" "pos * w + ?n \<le> 256"
  proof -
    show "0 < ?n" using sz(1) assms(2) by simp
    have "256 - (WNAF_SIZE w - 1) * w \<le> w" using sz(2) unfolding diff_mult_distrib mult_1 by linarith
    then show "?n \<le> w" by simp
    show "pos * w + ?n \<le> 256"
    proof (cases "pos = WNAF_SIZE w - 1")
      case False
      then have "Suc pos \<le> WNAF_SIZE w - 1" using assms(1) by linarith
      then have "Suc pos * w \<le> (WNAF_SIZE w - 1) * w" by (rule mult_le_mono1)
      then show ?thesis using sz(1) False by simp
    qed (use sz(1) in simp)
  qed
  have "sval s div 2 ^ (pos * w) mod 2 ^ ?n = sval s div 2 ^ (pos * w) mod 2 ^ w"
  proof (cases "pos = WNAF_SIZE w - 1")
    case True
    have "sval s < 2 ^ ?n * 2 ^ (pos * w)" using sval_lt [of s] n(3) sz(1) True by (simp flip: power_add)
    then have "sval s div 2 ^ (pos * w) < 2 ^ ?n" by (simp add: less_mult_imp_div_less)
    moreover from this have "sval s div 2 ^ (pos * w) < 2 ^ w"
      by (rule less_le_trans) (rule power_increasing [OF n(2)], simp)
    ultimately show ?thesis by (simp only: mod_less)
  qed simp
  moreover obtain v where "secp256k1_scalar_get_bits_var s (pos * w) ?n = Some v" "unat v = sval s div 2 ^ (pos * w) mod 2 ^ ?n"
    using get_bits_var_val [of "pos * w" ?n s] n assms(3) by auto
  ultimately show ?thesis by (simp add: fixed_digit_def uint_nat mult.commute)
qed

lemma fixed_top_val:
  assumes "pos < WNAF_SIZE w" "0 < w" "w \<le> 31" "WNAF_SIZE w = length ws"
  shows "\<exists>mp ws'. fixed_top s w pos ws = Some (mp, ws') \<and> mp \<le> pos \<and> length ws' = length ws \<and>
    (\<forall>i\<le>pos. mp < i \<longrightarrow> ws' ! i = 0 \<and> sval s div 2 ^ (w * i) mod 2 ^ w = 0) \<and>
    (\<forall>i. i \<le> mp \<or> pos < i \<longrightarrow> ws' ! i = ws ! i)"
  using assms
proof (induction s w pos ws rule: fixed_top.induct)
  case (2 s w pos ws)
  note digit = fixed_digit_val [OF "2.prems"(1-3), of s]
  show ?case
  proof (cases "int (sval s div 2 ^ (w * Suc pos) mod 2 ^ w) = 0")
    case True
    then have zero: "sval s div 2 ^ (w * Suc pos) mod 2 ^ w = 0" by (simp only: of_nat_eq_0_iff)
    have d0: "fixed_digit s w (Suc pos) = Some 0" using digit True by simp
    obtain mp ws' where r: "fixed_top s w pos (ws[Suc pos := 0]) = Some (mp, ws')" "mp \<le> pos" "length ws' = length ws"
      "\<forall>i\<le>pos. mp < i \<longrightarrow> ws' ! i = 0 \<and> sval s div 2 ^ (w * i) mod 2 ^ w = 0"
      "\<forall>i. i \<le> mp \<or> pos < i \<longrightarrow> ws' ! i = ws[Suc pos := 0] ! i"
      using "2.IH" [OF d0] "2.prems" by auto
    have "fixed_top s w (Suc pos) ws = Some (mp, ws')" using r(1) digit True by simp
    moreover have "ws' ! Suc pos = 0" using r(5) "2.prems"(1,4) by simp
    ultimately show ?thesis using r zero by (auto simp: le_Suc_eq)
  next
    case False
    then show ?thesis using digit by auto
  qed
qed auto

lemma fixed_up_val:
  assumes "fixed_inv (sval s) skew w pos ws" "length ws = WNAF_SIZE w" "mp < WNAF_SIZE w" "pos \<le> mp + 1" "0 < w" "w \<le> 31"
  shows "\<exists>ws'. fixed_up s w mp pos ws = Some ws' \<and> fixed_inv (sval s) skew w (mp + 1) ws' \<and> length ws' = length ws \<and>
    (\<forall>i>mp. ws' ! i = ws ! i)"
  using assms
proof (induction s w mp pos ws rule: fixed_up.induct)
  case (1 s w mp pos ws)
  show ?case
  proof (cases "pos \<le> mp")
    case False
    then have "pos = mp + 1" using "1.prems"(4) by simp
    moreover have "fixed_up s w mp pos ws = Some ws" using False by (subst fixed_up.simps) simp
    ultimately show ?thesis using "1.prems"(1) by auto
  next
    case True
    let ?v = "int (sval s div 2 ^ (w * pos) mod 2 ^ w)"
    let ?e = "fixed_even w pos ?v ws"
    have p: "pos < WNAF_SIZE w" using True "1.prems"(3) by simp
    have pl: "pos < length ws" using p "1.prems"(2) by simp
    note digit = fixed_digit_val [OF p "1.prems"(5,6), of s]
    note e = fixed_even_inv [OF "1.prems"(1) pl "1.prems"(5)]
    note a = fixed_absorb_inv [OF e(1,2) "1.prems"(5)]
    have "length (fixed_absorb w pos ?e) = WNAF_SIZE w" using a(2) e(3) "1.prems"(2) by simp
    from "1.IH" [OF True digit a(1) this "1.prems"(3) _ "1.prems"(5,6)] True
    obtain ws' where r: "fixed_up s w mp (pos + 1) (fixed_absorb w pos ?e) = Some ws'" "fixed_inv (sval s) skew w (mp + 1) ws'"
      "length ws' = length ws" "\<forall>i>mp. ws' ! i = fixed_absorb w pos ?e ! i"
      using a(2) e(3) by auto
    have "fixed_up s w mp pos ws = Some ws'" using True digit r(1) by (subst fixed_up.simps) simp
    then show ?thesis using r(2-4) a(3) e(4) True by auto
  qed
qed

lemma high_digits_zero:
  assumes "\<forall>i<n. mp < i \<longrightarrow> (S :: nat) div 2 ^ (w * i) mod 2 ^ w = 0" "mp < n" "S < 2 ^ (w * n)"
  shows "S mod 2 ^ (w * (mp + 1)) = S"
proof -
  have "S mod 2 ^ (w * k) = S mod 2 ^ (w * (mp + 1))" if "mp < k" "k \<le> n" for k
    using that
  proof (induction k)
    case (Suc k)
    show ?case
    proof (cases "k = mp")
      case False
      then have "S div 2 ^ (w * k) mod 2 ^ w = 0" using assms(1) Suc.prems by simp
      then have "S mod 2 ^ (w * k + w) = S mod 2 ^ (w * k)" by (simp add: low_bits)
      then show ?thesis using Suc False by (simp add: add.commute)
    qed simp
  qed simp
  from this [of n] show ?thesis using assms(2,3) by simp
qed

text \<open>
  C12: (the fixed signed-digit form) for every scalar and window the function returns one digit per
  window, each 0 or odd and within the window, whose sum is the scalar plus the returned skew,
  which is 1 for the even scalars that are not zero.
\<close>

theorem wnaf_fixed_correct:
  assumes "0 < w" "w \<le> 31" "length mem = WNAF_SIZE w"
  shows "\<exists>ws. secp256k1_wnaf_fixed mem s w = Some (ws, of_bool (even (sval s) \<and> sval s \<noteq> 0)) \<and> length ws = WNAF_SIZE w \<and>
    fixed_sum w (WNAF_SIZE w) ws = int (sval s) + of_bool (even (sval s) \<and> sval s \<noteq> 0) \<and> (\<forall>d \<in> set ws. fixed_ok w d)"
proof (cases "sval s = 0")
  case True
  then show ?thesis
    by (auto simp: secp256k1_wnaf_fixed_def scalar_is_zero_iff fixed_sum_def fixed_ok_def)
next
  case False
  define skew :: int where "skew = of_bool (even (sval s))"
  have even: "secp256k1_scalar_is_even s = even (sval s)" by (rule scalar_is_even_iff)
  have size: "0 < WNAF_SIZE w" "256 \<le> w * WNAF_SIZE w" using wnaf_size [OF assms(1)] by (auto simp: mult.commute intro: gr0I)
  have "0 + w \<le> 256" "w \<le> 32" using assms(2) by simp_all
  then obtain v where v: "secp256k1_scalar_get_bits_var s 0 w = Some v" "unat v = sval s mod 2 ^ w"
    using get_bits_var_val [of 0 w s] assms(1) by auto
  let ?m = "mem[0 := uint v + skew]"
  have uv: "uint v = int (sval s mod 2 ^ w)" using v(2) by (simp only: uint_nat)
  have par: "even (uint v) = even (sval s)" unfolding uv using assms(1) by (simp add: dvd_mod_iff)
  have lt: "uint v < 2 ^ w" "0 \<le> uint v" unfolding uv by (simp_all flip: of_nat_power)
  have first: "fixed_inv (sval s) skew w 1 ?m"
  proof -
    have "even (2 ^ w :: int)" using assms(1) by simp
    then have "even (uint v) \<Longrightarrow> uint v + 1 \<noteq> 2 ^ w" by (metis even_plus_one_iff)
    then have "uint v + skew < 2 ^ w" using par lt(1) by (auto simp: skew_def)
    moreover have odd: "odd (uint v + skew)" using par by (auto simp: skew_def)
    moreover have "0 < uint v + skew"
    proof -
      have "uint v + skew \<noteq> 0" using odd by (metis even_zero)
      moreover have "0 \<le> skew" by (simp add: skew_def)
      ultimately show ?thesis using lt(2) by linarith
    qed
    ultimately have "fixed_ok w (?m ! 0)" "odd (?m ! 0)" "0 < ?m ! 0"
      using size(1) assms(3) by (simp_all add: fixed_ok_def)
    then show ?thesis
      using size(1) assms(3) uv by (simp add: fixed_inv_def fixed_sum_def)
  qed
  obtain mp ws1 where t: "fixed_top s w (WNAF_SIZE w - 1) ?m = Some (mp, ws1)" "mp \<le> WNAF_SIZE w - 1" "length ws1 = WNAF_SIZE w"
    "\<forall>i\<le>WNAF_SIZE w - 1. mp < i \<longrightarrow> ws1 ! i = 0 \<and> sval s div 2 ^ (w * i) mod 2 ^ w = 0" "\<forall>i\<le>mp. ws1 ! i = ?m ! i"
  proof -
    have "WNAF_SIZE w - 1 < WNAF_SIZE w" "WNAF_SIZE w = length ?m" using size(1) assms(3) by simp_all
    from fixed_top_val [OF this(1) assms(1,2) this(2), of s] show ?thesis using that assms(3) by (metis length_list_update)
  qed
  have "fixed_inv (sval s) skew w 1 ws1"
  proof -
    have "ws1 ! 0 = ?m ! 0" using t(5) by blast
    moreover have "1 \<le> length ws1" using t(3) size(1) by simp
    ultimately show ?thesis using first unfolding fixed_inv_1 by metis
  qed
  then obtain ws where u: "fixed_up s w mp 1 ws1 = Some ws" "fixed_inv (sval s) skew w (mp + 1) ws" "length ws = WNAF_SIZE w"
    "\<forall>i>mp. ws ! i = ws1 ! i"
  proof -
    have "mp < WNAF_SIZE w" "1 \<le> mp + 1" using t(2) size(1) by simp_all
    from fixed_up_val [OF \<open>fixed_inv (sval s) skew w 1 ws1\<close> t(3) this assms(1,2)] show ?thesis using that t(3) by metis
  qed
  have above: "ws ! i = 0" if "mp < i" "i < WNAF_SIZE w" for i using that u(4) t(4) by simp
  have "sval s < 2 ^ (w * WNAF_SIZE w)"
    using sval_lt [of s] by (rule less_le_trans) (rule power_increasing [OF size(2)], simp)
  then have "sval s mod 2 ^ (w * (mp + 1)) = sval s"
    using t(2,4) size(1) by (intro high_digits_zero [of "WNAF_SIZE w"]) auto
  then have "fixed_sum w (mp + 1) ws = int (sval s) + skew" using u(2) by (simp add: fixed_inv_def)
  moreover have "fixed_sum w (WNAF_SIZE w) ws = fixed_sum w (mp + 1) ws"
    using above t(2) size(1) by (intro fixed_sum_above) simp_all
  moreover have "\<forall>d \<in> set ws. fixed_ok w d"
  proof
    fix d assume "d \<in> set ws"
    then obtain i where i: "i < WNAF_SIZE w" "d = ws ! i" using u(3) by (auto simp: in_set_conv_nth)
    show "fixed_ok w d"
      using i u(2) above [of i] by (cases "mp < i") (auto simp: fixed_inv_def fixed_ok_def)
  qed
  ultimately show ?thesis
    using False t(1) u(1,3) v(1) even
    by (auto simp: secp256k1_wnaf_fixed_def scalar_is_zero_iff skew_def)
qed

theorem wnaf_fixed_correct_witness:
  "\<exists>ws. secp256k1_wnaf_fixed (replicate 64 0) (secp256k1_scalar_set_int 27) 4 = Some (ws, 0) \<and> fixed_sum 4 64 ws = 27"
  using wnaf_fixed_correct [of 4 "replicate 64 0" "secp256k1_scalar_set_int 27"]
  by (auto simp: WNAF_SIZE_def sval_def secp256k1_scalar_set_int_def)

end
