(* ===== verification/Ecdsa_Correct.thy ===== *)
theory Ecdsa_Correct
  imports Secp256k1 Der_Correct Ecmult_Correct Group_Law
begin

text \<open>
  Multiplications always give a result, the multiplication of the generator reads its table by
  the digits of the blinded scalar, and what signing and verification compute.
\<close>

section \<open>The multiplications give a result\<close>

lemma strauss_points_total: "(\<forall>n\<in>set nas. scalar_ok n) \<Longrightarrow> \<exists>ps. strauss_points as nas np = Some ps"
proof (induction as arbitrary: nas np)
  case (Cons a as)
  show ?case
  proof (cases nas)
    case (Cons na nas')
    then obtain ps where "strauss_points as nas' (np + 1) = Some ps" using Cons.IH [of nas'] Cons.prems by auto
    moreover obtain ws bits where "secp256k1_ecmult_wnaf 256 na WINDOW_A = Some (ws, bits)"
      using ecmult_wnaf_val [of na WINDOW_A] Cons Cons.prems by (auto simp: WINDOW_A_def)
    ultimately show ?thesis by (simp add: Cons)
  qed simp
qed simp

lemma strauss_loop_total: "pre_g ctx = Some g \<Longrightarrow> \<exists>r'. strauss_loop ctx pre_a ps ng Z i r = Some r'"
  by (induction i arbitrary: r) (simp_all add: Let_def)

lemma globalz_total: "a \<noteq> [] \<Longrightarrow> \<exists>z. snd (secp256k1_ge_globalz_set_table_gej a zr) = Some z"
  by (cases "rev a") (auto simp: secp256k1_ge_globalz_set_table_gej_def Let_def split: list.splits)

lemma scale_last_nonempty: "scale_last ps z \<noteq> [] \<longleftrightarrow> ps \<noteq> []"
  by (simp add: scale_last_def)

lemma odd_multiples_nonempty: "fst (secp256k1_ecmult_odd_multiples_table d prej zr a) \<noteq> []"
  by (simp add: secp256k1_ecmult_odd_multiples_table_def Let_def scale_last_nonempty split: prod.splits)

lemma strauss_table_total:
  "\<exists>pre_a Z. (case ps of [] \<Rightarrow> ([], Some (secp256k1_fe_set_int 1))
     | p # ps' \<Rightarrow>
         let (pj, z) = secp256k1_ecmult_odd_multiples_table d (take n prej) (take n zr) (a ! strauss_input_pos p);
             (pjs, zs) = strauss_tables d a (pj ! (n - 1)) ps' (drop n prej) (drop n zr)
         in secp256k1_ge_globalz_set_table_gej (pj @ pjs) (z @ zs)) = (pre_a, Some Z)"
proof (cases ps)
  case (Cons p ps')
  obtain pj z where t: "secp256k1_ecmult_odd_multiples_table d (take n prej) (take n zr) (a ! strauss_input_pos p) = (pj, z)"
    by fastforce
  obtain pjs zs where ts: "strauss_tables d a (pj ! (n - 1)) ps' (drop n prej) (drop n zr) = (pjs, zs)" by fastforce
  have "pj @ pjs \<noteq> []" using odd_multiples_nonempty [of d "take n prej" "take n zr" "a ! strauss_input_pos p"] t by simp
  from globalz_total [OF this, of "z @ zs"] show ?thesis
    by (cases "secp256k1_ge_globalz_set_table_gej (pj @ pjs) (z @ zs)") (simp add: Cons t ts del: One_nat_def)
qed simp

lemma strauss_total:
  assumes "pre_g ctx = Some g" "\<forall>n\<in>set nas. scalar_ok n" "\<forall>n. ng = Some n \<longrightarrow> scalar_ok n"
  shows "\<exists>r'. secp256k1_ecmult_strauss_wnaf ctx d prej zr r as nas ng = Some r'"
proof -
  obtain ps where ps: "strauss_points as nas 0 = Some ps" using strauss_points_total [OF assms(2)] by blast
  obtain ws bits where ng: "(case ng of None \<Rightarrow> Some ([], 0) | Some ng \<Rightarrow> secp256k1_ecmult_wnaf 256 ng WINDOW_G) = Some (ws, bits)"
    using ecmult_wnaf_val [of "the ng" WINDOW_G] assms(3) by (cases ng) (auto simp: WINDOW_G_def)
  obtain pre_a Z where table: "(case ps of [] \<Rightarrow> ([], Some (secp256k1_fe_set_int 1))
     | p # ps' \<Rightarrow>
         let (pj, z) = secp256k1_ecmult_odd_multiples_table d (take (ECMULT_TABLE_SIZE WINDOW_A) prej) (take (ECMULT_TABLE_SIZE WINDOW_A) zr) (as ! strauss_input_pos p);
             (pjs, zs) = strauss_tables d as (pj ! (ECMULT_TABLE_SIZE WINDOW_A - 1)) ps' (drop (ECMULT_TABLE_SIZE WINDOW_A) prej) (drop (ECMULT_TABLE_SIZE WINDOW_A) zr)
         in secp256k1_ge_globalz_set_table_gej (pj @ pjs) (z @ zs)) = (pre_a, Some Z)"
    using strauss_table_total [where ps = ps and d = d and n = "ECMULT_TABLE_SIZE WINDOW_A" and prej = prej and zr = zr and a = as] by blast
  show ?thesis
    unfolding secp256k1_ecmult_strauss_wnaf_def ps bind.bind_lunit Let_def [of "ECMULT_TABLE_SIZE WINDOW_A"] table ng
    by (simp add: Let_def) (intro conjI impI bind_total strauss_loop_total [OF assms(1)]; simp)
qed



section \<open>The generator\<close>

lemma fe_storage_cmov_if: "secp256k1_fe_storage_cmov r a (of_bool f) = (if f then a else r)"
  by (cases f) (simp_all add: secp256k1_fe_storage_cmov_def)

lemma ge_storage_cmov_if: "secp256k1_ge_storage_cmov r a (of_bool f) = (if f then a else r)"
  by (simp add: secp256k1_ge_storage_cmov_def fe_storage_cmov_if)

lemma gen_select_index:
  "i + length row \<le> 2 ^ 32 \<Longrightarrow> gen_select bits i row adds =
     (if i \<le> unat bits \<and> unat bits < i + length row then row ! (unat bits - i) else adds)"
proof (induction row arbitrary: i adds)
  case (Cons p ps)
  have "(word_of_nat i = bits) = (i = unat bits)"
    using Cons.prems by (auto simp: unat_of_nat)
  then show ?case
    using Cons.IH [of "i + 1" p] Cons.IH [of "i + 1" adds] Cons.prems by (auto simp: ge_storage_cmov_if nth_Cons')
qed auto

lemma get_bits_4:
  assumes "j < 64"
  shows "\<exists>v. secp256k1_scalar_get_bits a (j * 4) 4 = Some v \<and> unat v = sval a div 16 ^ j mod 16"
proof -
  have "(j * 4 + 3) div 4 div 16 = j * 4 div 4 div 16" by simp
  then have "(j * 4 + 4 - 1) div 64 = j * 4 div 64" by (simp flip: div_mult2_eq)
  then have "secp256k1_scalar_get_bits_var a (j * 4) 4 = secp256k1_scalar_get_bits a (j * 4) 4"
    by (simp add: secp256k1_scalar_get_bits_var_def)
  moreover have "(2 :: nat) ^ (j * 4) = 16 ^ j" by (simp add: power_mult mult.commute [of j])
  ultimately show ?thesis using get_bits_var_val [of "j * 4" 4 a] assms by simp
qed

lemma gen_loop_total: "j + length rows \<le> 64 \<Longrightarrow> \<exists>r'. gen_loop gnb j rows adds r = Some r'"
proof (induction rows arbitrary: j adds r)
  case (Cons row rows)
  then show ?case using get_bits_4 [of j gnb] by (auto simp: Let_def)
qed simp

lemma ecmult_gen_total: "prec ctx \<noteq> None \<Longrightarrow> \<exists>r. secp256k1_ecmult_gen ctx gn = Some r"
proof -
  assume "prec ctx \<noteq> None"
  then obtain rows where "prec ctx = Some rows" by blast
  then show ?thesis using gen_loop_total [of 0 "take 64 rows"] by (simp add: secp256k1_ecmult_gen_def)
qed

definition gen_add :: "nat \<Rightarrow> nat \<times> ge_storage list \<Rightarrow> gej \<Rightarrow> gej" where
  "gen_add v jr r = secp256k1_gej_add_ge r (secp256k1_ge_from_storage (snd jr ! (v div 16 ^ fst jr mod 16)))"

lemma gen_loop_fold:
  "j + length rows \<le> 64 \<Longrightarrow> \<forall>row\<in>set rows. length row = 16 \<Longrightarrow>
   gen_loop gnb j rows adds r = Some (fold (gen_add (sval gnb)) (enumerate j rows) r)"
proof (induction rows arbitrary: j adds r)
  case (Cons row rows)
  obtain v where v: "secp256k1_scalar_get_bits gnb (j * 4) 4 = Some v" "unat v = sval gnb div 16 ^ j mod 16"
    using get_bits_4 [of j gnb] Cons.prems by auto
  then have "gen_select v 0 row adds = row ! (sval gnb div 16 ^ j mod 16)"
    using Cons.prems by (simp add: gen_select_index)
  then show ?case
    using Cons v by (simp add: Let_def gen_add_def)
qed simp

text \<open>
  C13: the multiplication of the generator reads its table without secret indexes: the scan with conditional moves of
  a row equals picking the entry by the hexadecimal digit of the blinded scalar, and the
  64 picked points are added to the blinded start.
\<close>

theorem ecmult_gen_scan:
  assumes "prec ctx = Some rows" "length rows = 64" "\<forall>row\<in>set rows. length row = 16"
    and "scalar_ok gn" "scalar_ok (blind ctx)"
  shows "secp256k1_ecmult_gen ctx gn =
    Some (fold (gen_add ((sval gn + sval (blind ctx)) mod secp256k1_n)) (enumerate 0 rows) (initial ctx))"
  using gen_loop_fold [of 0 rows] assms scalar_add_correct [of gn "blind ctx"] by (simp add: secp256k1_ecmult_gen_def)

theorem ecmult_gen_scan_witness:
  "secp256k1_ecmult_gen \<lparr>prec = Some (replicate 64 (replicate 16 zero_storage)), blind = secp256k1_scalar_set_int 1, initial = nums_point\<rparr>
     (secp256k1_scalar_set_int 5) =
   Some (fold (gen_add 6) (enumerate 0 (replicate 64 (replicate 16 zero_storage))) nums_point)"
proof -
  have "sval (secp256k1_scalar_set_int 5) = 5" "sval (secp256k1_scalar_set_int 1) = 1" by (simp_all add: sval_def secp256k1_scalar_set_int_def)
  then show ?thesis
    using ecmult_gen_scan [of "\<lparr>prec = Some (replicate 64 (replicate 16 zero_storage)), blind = secp256k1_scalar_set_int 1, initial = nums_point\<rparr>"
        "replicate 64 (replicate 16 zero_storage)" "secp256k1_scalar_set_int 5"]
    by (simp add: scalar_ok_def secp256k1_n_def)
qed

section \<open>Signing\<close>

lemma n_minus: "secp256k1_n - 1 = Suc (secp256k1_n - 2)"
  by (simp add: secp256k1_n_def)

text \<open>Multiplying by the inverse of the nonce is division, where Fermat's theorem holds for it.\<close>

lemma nonce_times_inverse:
  assumes "k ^ (secp256k1_n - 1) mod secp256k1_n = 1" "e < secp256k1_n"
  shows "(k ^ (secp256k1_n - 2) mod secp256k1_n * e mod secp256k1_n) * k mod secp256k1_n = e"
proof -
  have "(k ^ (secp256k1_n - 2) mod secp256k1_n * e mod secp256k1_n) * k mod secp256k1_n =
      k ^ (secp256k1_n - 2) * e * k mod secp256k1_n" by (simp add: mod_simps)
  also have "\<dots> = k ^ (secp256k1_n - 1) * e mod secp256k1_n" by (simp only: n_minus power_Suc ac_simps)
  also have "\<dots> = k ^ (secp256k1_n - 1) mod secp256k1_n * e mod secp256k1_n" by (simp only: mod_mult_left_eq)
  finally show ?thesis using assms by simp
qed

text \<open>
  C7: what signing computes, for a nonce \<open>k\<close> with \<open>k ^ (n - 1) = 1\<close> modulo the group order \<open>n\<close> (every nonce that is not zero,
  as \<open>n\<close> is prime): with \<open>r\<close> the first scalar, \<open>m\<close> the message and \<open>d\<close> the key, signing fails exactly
  if \<open>m + r * d\<close> is zero; otherwise the second scalar \<open>s\<close> is not zero, it is not above half the order, and
  \<open>s * k\<close> is \<open>m + r * d\<close> or its negation.
\<close>

theorem ecdsa_sign_equation:
  assumes "secp256k1_ecmult_gen_context_is_built ctx" "scalar_ok message"
    and "sval nonce ^ (secp256k1_n - 1) mod secp256k1_n = 1"
  shows "\<exists>sg e. secp256k1_ecdsa_sig_sign ctx seckey message nonce = Some sg \<and>
    e = (sval message + sval (sg_r sg) * sval seckey) mod secp256k1_n \<and> sg_ok sg = (e \<noteq> 0) \<and>
    (sg_ok sg \<longrightarrow> 0 < sval (sg_s sg) \<and> sval (sg_s sg) \<le> secp256k1_n div 2 \<and>
       (sval (sg_s sg) * sval nonce mod secp256k1_n = e \<or> (secp256k1_n - sval (sg_s sg)) * sval nonce mod secp256k1_n = e))"
proof -
  obtain rp where rp: "secp256k1_ecmult_gen ctx nonce = Some rp"
    using ecmult_gen_total assms(1) by (auto simp: secp256k1_ecmult_gen_context_is_built_def)
  let ?r = "fst (secp256k1_ge_set_gej rp)"
  let ?x = "secp256k1_fe_normalize (ge_x ?r)"
  obtain sigr overflow where sigr: "secp256k1_scalar_set_b32 (secp256k1_fe_get_b32 ?x) = (sigr, overflow)" by fastforce
  define sm where "sm = fst (secp256k1_scalar_add (secp256k1_scalar_mul sigr seckey) message)"
  define e where "e = (sval message + sval sigr * sval seckey) mod secp256k1_n"
  define s where "s = secp256k1_scalar_mul (secp256k1_scalar_inverse nonce) sm"
  have n: "0 < secp256k1_n" by (simp add: secp256k1_n_def)
  have sm: "sval sm = e"
    using scalar_add_correct [of "secp256k1_scalar_mul sigr seckey" message] assms(2)
    by (simp add: sm_def e_def scalar_ok_def mul_reduced mul_val mod_simps add.commute)
  have s: "sval s = sval nonce ^ (secp256k1_n - 2) mod secp256k1_n * e mod secp256k1_n"
    by (simp add: s_def mul_val inverse_val sm)
  have eq: "sval s * sval nonce mod secp256k1_n = e"
    unfolding s by (rule nonce_times_inverse [OF assms(3)]) (simp add: e_def n)
  have lt: "sval s < secp256k1_n" unfolding s_def by (rule mul_reduced)
  have zero: "(sval s = 0) = (e = 0)" using eq s by auto
  have neg: "sval (secp256k1_scalar_negate s) = secp256k1_n - sval s" if "e \<noteq> 0"
    using scalar_negate_correct [of s] lt zero that by (auto simp: scalar_ok_def)
  show ?thesis
    using rp sigr zero neg eq lt n
    by (auto simp: secp256k1_ecdsa_sig_sign_def Let_def scalar_is_zero_iff scalar_is_high_correct e_def [symmetric]
        sm_def [symmetric] s_def [symmetric])
qed

theorem ecdsa_sign_equation_witness:
  "\<exists>sg e. secp256k1_ecdsa_sig_sign \<lparr>prec = Some (replicate 64 (replicate 16 zero_storage)), blind = secp256k1_scalar_set_int 1, initial = nums_point\<rparr>
     (secp256k1_scalar_set_int 11) (secp256k1_scalar_set_int 12) (secp256k1_scalar_set_int 1) = Some sg \<and>
   e = (12 + sval (sg_r sg) * 11) mod secp256k1_n \<and> sg_ok sg = (e \<noteq> 0)"
proof -
  have "sval (secp256k1_scalar_set_int 12) = 12" "sval (secp256k1_scalar_set_int 11) = 11" "sval (secp256k1_scalar_set_int 1) = 1"
    by (simp_all add: sval_def secp256k1_scalar_set_int_def)
  then show ?thesis
    using ecdsa_sign_equation [of "\<lparr>prec = Some (replicate 64 (replicate 16 zero_storage)), blind = secp256k1_scalar_set_int 1, initial = nums_point\<rparr>"
        "secp256k1_scalar_set_int 12" "secp256k1_scalar_set_int 1" "secp256k1_scalar_set_int 11"]
    by (auto simp: scalar_ok_def secp256k1_n_def secp256k1_ecmult_gen_context_is_built_def)
qed

section \<open>Contexts of the program\<close>

lemma context_flags:
  "SECP256K1_CONTEXT_SIGN AND SECP256K1_FLAGS_TYPE_MASK = SECP256K1_FLAGS_TYPE_CONTEXT"
  "SECP256K1_CONTEXT_VERIFY AND SECP256K1_FLAGS_TYPE_MASK = SECP256K1_FLAGS_TYPE_CONTEXT"
  "SECP256K1_CONTEXT_SIGN AND SECP256K1_FLAGS_BIT_CONTEXT_VERIFY = 0"
  "SECP256K1_CONTEXT_SIGN AND SECP256K1_FLAGS_BIT_CONTEXT_SIGN \<noteq> 0"
  "SECP256K1_CONTEXT_VERIFY AND SECP256K1_FLAGS_BIT_CONTEXT_VERIFY \<noteq> 0"
  "SECP256K1_CONTEXT_VERIFY AND SECP256K1_FLAGS_BIT_CONTEXT_SIGN = 0"
  by (simp_all add: flag_defs)

lemma signing_context_not_built:
  "Secp256k1Context m table ret True = Inr ctx \<Longrightarrow> \<not> secp256k1_ecmult_context_is_built (ecmult_ctx ctx)"
  by (auto simp: Secp256k1Context_def secp256k1_context_create_def context_flags Let_def sbind_eq_Inr
      secp256k1_ecmult_context_init_def secp256k1_ecmult_context_is_built_def)


lemma verifying_context_built:
  "\<exists>ctx. Secp256k1Context m table ret False = Inr ctx \<and> secp256k1_ecmult_context_is_built (ecmult_ctx ctx)"
  by (simp add: Secp256k1Context_def secp256k1_context_create_def context_flags Let_def
      secp256k1_ecmult_context_init_def secp256k1_ecmult_context_is_built_def secp256k1_ecmult_context_build_def)

lemma sig_verify_total:
  assumes "secp256k1_ecmult_context_is_built ctx" "scalar_ok message"
  shows "\<exists>b. secp256k1_ecdsa_sig_verify ctx m r s q message = Some b"
proof -
  obtain g where "pre_g ctx = Some g" using assms(1) by (auto simp: secp256k1_ecmult_context_is_built_def)
  then have "\<exists>pr. ecmult_on ctx m a (secp256k1_scalar_mul x y) (Some (secp256k1_scalar_mul u v)) = Some pr" for a x y u v
    using strauss_total [of ctx g "[secp256k1_scalar_mul x y]" "Some (secp256k1_scalar_mul u v)"]
    by (simp add: ecmult_on_def secp256k1_ecmult_def scalar_ok_def mul_reduced)
  then show ?thesis
    by (auto simp: secp256k1_ecdsa_sig_verify_def Let_def intro!: bind_total)
qed

text \<open>
  C16: the verifying context that certificates are checked with is always created, and in it every signature gets a
  verdict for every message of 32 bytes and every key whose x coordinate is not zero.
\<close>

theorem verifying_context_decides:
  assumes "length msg = 32" "\<not> secp256k1_fe_is_zero (ge_x (secp256k1_ge_from_storage pk))"
  shows "\<exists>ctx verdict. Secp256k1Context m table ret False = Inr ctx \<and> sig_verify m' ctx g msg pk = Inr verdict"
proof -
  obtain ctx where ctx: "Secp256k1Context m table ret False = Inr ctx" "secp256k1_ecmult_context_is_built (ecmult_ctx ctx)"
    using verifying_context_built by blast
  let ?m = "fst (secp256k1_scalar_set_b32 msg)"
  have "scalar_ok ?m" using set_b32_val [OF assms(1)] by simp
  from sig_verify_total [OF ctx(2) this]
  obtain b where b: "secp256k1_ecdsa_sig_verify (ecmult_ctx ctx) (am_ec m') (sig_r g) (sig_s g) (secp256k1_ge_from_storage pk) ?m = Some b"
    by blast
  show ?thesis
    using ctx b assms
    by (auto simp: sig_verify_def check_msg_length_def secp256k1_ecdsa_verify_def ARG_CHECK_def Let_def
        secp256k1_ecdsa_signature_load_def secp256k1_pubkey_load_def result_def intro: exI [of _ False])
qed

theorem verifying_context_decides_witness:
  "\<forall>m table ret m'. \<exists>ctx verdict. Secp256k1Context m table ret False = Inr ctx \<and>
     sig_verify m' ctx zero_signature (replicate 32 0) (zero_storage\<lparr>gs_x := \<lparr>s0 = 1, s1 = 0, s2 = 0, s3 = 0\<rparr>\<rparr>) = Inr verdict"
  by (intro allI, rule verifying_context_decides)
    (simp_all add: zero_storage_def secp256k1_ge_from_storage_def secp256k1_fe_from_storage_def secp256k1_fe_is_zero_def)

section \<open>Signatures are pairs of reduced scalars\<close>

lemma negate_reduced: "scalar_ok s \<Longrightarrow> scalar_ok (secp256k1_scalar_negate s)"
  using scalar_negate_correct [of s] by (auto simp: scalar_ok_def)

lemma sig_sign_reduced:
  assumes "secp256k1_ecdsa_sig_sign ctx d m k = Some sg"
  shows "scalar_ok (sg_r sg) \<and> scalar_ok (sg_s sg)"
proof -
  have mul: "scalar_ok (secp256k1_scalar_mul a b)" for a b by (simp add: scalar_ok_def mul_reduced)
  have set: "secp256k1_scalar_set_b32 (secp256k1_fe_get_b32 x) = (r, f) \<Longrightarrow> scalar_ok r" for x r f
    using set_b32_val [OF fe_length_get_b32, of x] by simp
  obtain rp where rp: "secp256k1_ecmult_gen ctx k = Some rp"
    using assms by (auto simp: secp256k1_ecdsa_sig_sign_def bind_eq_Some_conv)
  let ?x = "secp256k1_fe_normalize (ge_x (fst (secp256k1_ge_set_gej rp)))"
  obtain r f where r: "secp256k1_scalar_set_b32 (secp256k1_fe_get_b32 ?x) = (r, f)" by fastforce
  have neg: "scalar_ok (secp256k1_scalar_negate (secp256k1_scalar_mul a b))" for a b by (rule negate_reduced [OF mul])
  show ?thesis
    using assms mul neg set [OF r] by (auto simp: secp256k1_ecdsa_sig_sign_def Let_def rp r split: if_splits)
qed

lemma sign_loop_reduced:
  assumes "sign_loop f ctx d m c = Some (Some sg)"
  shows "scalar_ok (sg_r sg) \<and> scalar_ok (sg_s sg)"
proof -
  have "\<forall>sg. res = Some sg \<longrightarrow> scalar_ok (sg_r sg) \<and> scalar_ok (sg_s sg)" if "sign_loop f ctx d m c = Some res" for res
    using that
  proof (rule sign_loop.raw_induct [where P = "\<lambda>f ctx d m c res. \<forall>sg. res = Some sg \<longrightarrow> scalar_ok (sg_r sg) \<and> scalar_ok (sg_s sg)", rotated])
    fix loop f ctx d m c res
    assume ih: "\<And>f ctx d m c res. loop f ctx d m c = Some res \<Longrightarrow> \<forall>sg. res = Some sg \<longrightarrow> scalar_ok (sg_r sg) \<and> scalar_ok (sg_s sg)"
      and "f c \<bind> (\<lambda>(nonce32, ret). if \<not> ret then Some None
        else let (non, overflow) = secp256k1_scalar_set_b32 nonce32
             in if \<not> overflow \<and> \<not> secp256k1_scalar_is_zero non
                then secp256k1_ecdsa_sig_sign ctx d m non \<bind> (\<lambda>sg. if sg_ok sg then Some (Some sg) else loop f ctx d m (c + 1))
                else loop f ctx d m (c + 1)) = Some res"
    then show "\<forall>sg. res = Some sg \<longrightarrow> scalar_ok (sg_r sg) \<and> scalar_ok (sg_s sg)"
      by (auto simp: bind_eq_Some_conv Let_def split: prod.splits if_splits dest: ih sig_sign_reduced)
  qed
  then show ?thesis using assms by blast
qed

lemma sign_with_reduced:
  "sign_with m n32 ctx msg key f data = Inr (Some sg) \<Longrightarrow> scalar_ok (sg_r sg) \<and> scalar_ok (sg_s sg)"
  by (auto simp: sign_with_def ARG_CHECK_def Let_def result_def dest: sign_loop_reduced split: prod.splits if_splits option.splits)

text \<open>The signatures the library makes, one rule for each function that fills a signature in.\<close>

inductive library_signature :: "signature \<Rightarrow> bool" where
  compact: "length b = 64 \<Longrightarrow> secp256k1_ecdsa_signature_parse_compact b = Some g \<Longrightarrow> library_signature g"
| der: "secp256k1_ecdsa_signature_parse_der b = Inr (g, ok) \<Longrightarrow> library_signature g"
| normalized: "library_signature g \<Longrightarrow> library_signature (fst (secp256k1_ecdsa_signature_normalize g))"
| signed: "secp256k1_ecdsa_sign mem n32 ctx msg key f data = Inr (g, ok) \<Longrightarrow> library_signature g"
| recoverable: "secp256k1_ecdsa_sign_recoverable mem n32 ctx msg key f data = Inr (rg, ok) \<Longrightarrow>
    library_signature (secp256k1_ecdsa_recoverable_signature_convert rg)"

lemma zero_scalar_ok: "scalar_ok zero_scalar"
  by (simp add: scalar_ok_def sval_def zero_scalar_def secp256k1_n_def)

lemma parse_integer_reduced: "secp256k1_der_parse_integer sig = Some (Some (v, rest)) \<Longrightarrow> scalar_ok v"
proof -
  assume parse: "secp256k1_der_parse_integer sig = Some (Some (v, rest))"
  then obtain sig' where sig: "sig = 0x02 # sig'"
    by (cases sig) (auto simp: secp256k1_der_parse_integer_def split: if_splits)
  obtain rlen rest' where len: "secp256k1_der_read_len sig' = Some (rlen, rest')" using read_len_total [of sig'] by auto
  have rlen: "0 < rlen" "rlen \<le> int (length rest')"
    using parse len by (auto simp: secp256k1_der_parse_integer_def sig split: if_splits)
  then have "secp256k1_der_read_len sig' = Some (int (nat rlen), rest')" "0 < nat rlen" "nat rlen \<le> length rest'" using len by auto
  from parse_integer_eval [OF this] show ?thesis using parse by (auto simp: sig split: if_splits)
qed



end
