(* ===== verification/Spec2Isabelle.thy ===== *)
theory Spec2Isabelle
  imports Sample_Run Scalar_Inverse Sha256_Correct Archipelago Liveness Group_Law Ecdsa_Correct
begin

text \<open>
  Verification of the Archipelago replica: HotStuff consensus (\<open>src/hotstuff\<close>), with the
  parts of the salticidae and secp256k1 libraries in the same repository that it rests on.

  \<^bold>\<open>Parts and theories.\<close>
  \<^item> \<open>Prelude\<close>: word types, little and big endian encodings, the error monad \<open>sbind\<close>.
  \<^item> \<open>Stream_Codec\<close>: \<open>salticidae/include/salticidae/stream.h\<close>: \<open>DataStream\<close>, \<open>Blob\<close>,
    \<open>_Bits\<close>. The locales \<open>decoder\<close>, \<open>codec\<close> and \<open>fcodec\<close> state what a pair of
    serialize and unserialize promises; every wire format below interprets one of them.
  \<^item> \<open>Scalar_4x64\<close>, \<open>Scalar_4x64_Correct\<close>: \<open>secp256k1/src/scalar_4x64_impl.h\<close>, scalars modulo
    the group order on four 64-bit limbs, in the portable branch of the preprocessor.
  \<^item> \<open>Certs\<close>: \<open>include/hotstuff/crypto.h\<close>, \<open>src/crypto.cpp\<close> and \<open>ReplicaConfig\<close>: signatures in
    compact form, partial certificates, quorum certificates and their verification.
  \<^item> \<open>Entity\<close>: \<open>include/hotstuff/entity.h\<close>, \<open>src/entity.cpp\<close>: blocks, commands, caches.
  \<^item> \<open>Consensus\<close>: \<open>include/hotstuff/consensus.h\<close>, \<open>src/consensus.cpp\<close>: the state machine
    \<open>HotStuffCore\<close>, and the set-up of it in \<open>HotStuffBase::start\<close>.
  \<^item> \<open>Vote_Log\<close>: the safety argument on an abstract tree of blocks and log of votes, as the
    locale \<open>vote_log\<close>.
  \<^item> \<open>Consensus_Inv\<close>, \<open>Consensus_Steps\<close>: the invariant of one replica and that every
    method keeps it.
  \<^item> \<open>Network\<close>: the step relation of a network with faulty replicas, its invariant, the
    interpretation of \<open>vote_log\<close> on it, and the start of a run.
  \<^item> \<open>Sample_Run\<close>: a concrete run, evaluated, that the witnesses use.
  \<^item> \<open>Messages\<close>: proposals, votes, finalities and the messages of both networks
    (\<open>consensus.h\<close>, \<open>client.h\<close>, \<open>hotstuff.h\<close>), on the codecs of \<open>Certs\<close> and \<open>Entity\<close>.
  \<^item> \<open>HotStuff_Base\<close>: \<open>include/hotstuff/hotstuff.h\<close>, \<open>src/hotstuff.cpp\<close>: the replica
    between the core and the network: fetching and delivering blocks, message handlers, the
    command and ordering queues, the check of a batch.
  \<^item> \<open>Archipelago\<close>: \<open>examples/archipelago_app.cpp\<close>: the handlers of client requests, the cut of
    a batch at the leader, and that followers with the same commands accept it.
  \<^item> \<open>Liveness\<close>: \<open>include/hotstuff/liveness.h\<close>: the pace makers: which block a proposal extends,
    when the next beat is resolved, and the rotation of proposers; promises are values with the
    list of their continuations.
  \<^item> \<open>Field_5x52\<close> with \<open>Field_5x52_Correct\<close>, \<open>Field_Normalize\<close>, \<open>Field_Bytes\<close>: the field of
    secp256k1 on five 52-bit limbs (\<open>field_5x52_impl.h\<close>, \<open>field_5x52_int128_impl.h\<close>):
    products, normalization, bytes. \<open>Field_Inverse\<close>: \<open>field_impl.h\<close>: equality, inverse, square
    root by addition chains, checked with \<open>Power_Chain\<close>.
  \<^item> \<open>Field_Ring\<close>: the integers modulo the field prime as a type of class \<open>comm_ring_1\<close>, and the
    rules that carry value and magnitude of an element through the operations of the field.
  \<^item> \<open>Group\<close>: \<open>group.h\<close>, \<open>group_impl.h\<close>: affine and Jacobian points. \<open>Group_Correct\<close>: points
    and their sums by tangents and chords, and that the additions compute them. \<open>Group_Law\<close>:
    the properties, validity, conversions, storage and decompression.
  \<^item> \<open>Scalar_Inverse\<close>: the inverse of \<open>scalar_impl.h\<close>, by the same technique.
  \<^item> \<open>Sha256\<close>, \<open>Sha256_Correct\<close>: \<open>hash_impl.h\<close>: SHA-256 as a stream, HMAC and the nonce
    generator of RFC 6979, against the standards written as functions on messages.
  \<^item> \<open>Ecmult\<close>, \<open>Ecmult_Gen\<close>: \<open>ecmult_impl.h\<close>, \<open>ecmult_gen_impl.h\<close>: signed digits, tables of
    odd multiples, sums of multiples, the blinded multiplication of the generator.
    \<open>Ecmult_Correct\<close>: the digits represent their scalar.
  \<^item> \<open>Ecdsa\<close>: \<open>ecdsa_impl.h\<close>, \<open>eckey_impl.h\<close>: DER, keys, verification, signing. \<open>Secp256k1\<close>: the
    interface \<open>secp256k1.c\<close>, the recovery module, and the keys and signatures of
    \<open>crypto.h\<close>. \<open>Der_Correct\<close>: the parser of DER; \<open>Ecdsa_Correct\<close>: what signing, verification
    and the contexts of the program do.

  \<^bold>\<open>Conventions.\<close> A \<open>block_t\<close> handle is the hash under which the block is cached, and the
  mutable fields of a block are in the cache. A method gives the state after it and the
  callbacks it made, or the exception it threw. A null handle that is dereferenced or an index
  out of range is the error \<open>Undefined\<close>. Loops over parents have the height of their start as
  fuel; \<open>walk_down_ok\<close> shows that it is enough, so \<open>OutOfFuel\<close> does not occur in a run.

  \<^bold>\<open>Assumptions of a run.\<close> The hash function and signature verification are parameters (the
  program's are in \<open>Sha256\<close> and \<open>Secp256k1\<close>).
  A signature of a correct replica that verifies was made by it (\<open>unforged\<close>), two blocks of
  a run do not share an identifier, heights fit 32 bits, and a delivered block descends from the
  block its certificate is for (\<open>block_content_ok\<close>). The code does not enforce the last one:
  see \<open>vote_off_the_locked_branch\<close>. That the field modulus is prime is not proved; what it gives
  (slopes that exist, inverses by Fermat's theorem) is a hypothesis on the points concerned.

  \<^bold>\<open>What the theorems show.\<close> Agreement of the decisions of correct replicas, absence of
  exceptions, one vote per height; what an accepted certificate proves; that the wire formats
  are inverse to their parsers and that block hashes bind contents; that commands are proposed
  in order, each client is answered once, and leader and followers agree on a batch; that
  scalar and field arithmetic is arithmetic modulo the group order and the field prime, the
  inverses are the powers of Fermat's theorem, the additions of points are the sums of the
  curve group, and the hashes are those of the standards; that multiplications and
  verifications always give a result, signatures satisfy the equation of ECDSA, and DER has one
  form for a signature.
  Theorems named as findings show where the code does something else than it means to.

  \<^bold>\<open>Not modelled.\<close> Sockets, threads, TLS and the event loop of salticidae; batches
  over a scratch space, the alternative 32-bit back ends of secp256k1 and its inline assembly;
  generated tables, which are arguments; command lines and statistics. That the loops of a
  multiplication add up to the multiple of the point is not proved as a whole: it
  needs the group law of the curve, which rests on the field being one.
\<close>

section \<open>Safety of a run\<close>





text \<open>C3: a correct replica signs its votes in strictly increasing height, so never two blocks
  of the same height: the log of a run holds at most one vote of it for each height.\<close>

theorem one_vote_per_height:
  assumes "reachable sha ver reps s" "j < k" "k < length (vlog s)" "fst (vlog s ! j) = fst (vlog s ! k)"
  shows "ht (btree s) (snd (vlog s ! j)) < ht (btree s) (snd (vlog s ! k))"
proof -
  have "log_ok s" using reachable_inv [OF assms(1)] by (simp add: net_inv_def)
  then show ?thesis using assms(2-4) unfolding log_ok_def by (metis prod.collapse)
qed

theorem one_vote_per_height_witness:
  "ht (btree (solo_net solo_end)) 1 < ht (btree (solo_net solo_end)) 2"
  using one_vote_per_height [OF solo_reachable, of 0 1] by (simp add: solo_end_state(3))

section \<open>What the voting rule does not check\<close>

text \<open>
  A replica with the chain genesis, 1, 2 that is locked on block 1, and a block 3 on top of
  genesis that carries the certificate of block 2.
\<close>

definition chain_blk :: "hash \<Rightarrow> hash \<Rightarrow> hash \<Rightarrow> u32 \<Rightarrow> block" where
  "chain_blk h p q n = block_new\<lparr>parent_hashes := [p], parents := [p], qc := Some (QuorumCertDummy q),
     blk_hash := h, qc_ref := Some q, height := n, delivered := True\<rparr>"

definition split_core :: "unit core" where
  "split_core = (core_new (\<lambda>bs. 0) 0 (\<lambda>h. sample_sig))
     \<lparr>hqc := Some (1, QuorumCertDummy 1), b_lock := 1,
      storage := storage_new\<lparr>blk_cache := [0 \<mapsto> block_genesis (\<lambda>bs. 0), 1 \<mapsto> chain_blk 1 0 0 1, 2 \<mapsto> chain_blk 2 1 1 2,
        3 \<mapsto> (chain_blk 3 0 2 0)\<lparr>parents := [], qc_ref := None, delivered := False\<rparr>]\<rparr>\<rparr>"


end
